(* ===== verification/Prelude.thy ===== *)
theory Prelude
  imports Complex_Main "HOL-Library.Word" "HOL-Library.AList"
begin

text \<open>
  Shared vocabulary of the development: bytes, the Python exceptions the sources can raise,
  Python's insertion-ordered dictionaries as association lists (with the interface the other
  theories rely on stated as the locale \<open>ordered_dict\<close>), \<open>bytes([...])\<close>,
  \<open>list.index\<close>, and the little-endian byte pairs every file of the repository uses.
  The collections \<open>wire_simps\<close> (layout of frames) and \<open>dict_simps\<close>
  (dictionaries) carry the component proofs.
\<close>

unbundle bit_operations_syntax

named_theorems wire_simps
named_theorems dict_simps

type_synonym byte = "8 word"
type_synonym time = rat

section \<open>Python exceptions\<close>

text \<open>
  The exceptions the modelled code can raise.  \<open>ProtocolError\<close> is the class the server
  defines; its message is kept as a value instead of a formatted string.
\<close>

datatype protocol_error =
    Short_hello
  | Bad_version byte
  | Bad_name string
  | Join_before_hello
  | Unknown_type byte

datatype exn =
    ProtocolError protocol_error
  | AssertionError
  | ValueError
  | AttributeError
  | UnicodeEncodeError
  | IndexError
  | KeyError
  | TypeError
  | EOFError
  | TimeoutError
  | UnicodeDecodeError
  | OSError
  | RecursionError

section \<open>Error sums\<close>

fun sum_map :: "('a \<Rightarrow> exn + 'b) \<Rightarrow> 'a list \<Rightarrow> exn + 'b list" where
  "sum_map f [] = Inr []"
| "sum_map f (x # xs) =
     (case f x of Inl e \<Rightarrow> Inl e
      | Inr y \<Rightarrow> (case sum_map f xs of Inl e \<Rightarrow> Inl e | Inr ys \<Rightarrow> Inr (y # ys)))"

lemma sum_map_Inr:
  assumes "\<And>x. x \<in> set xs \<Longrightarrow> f x = Inr (g x)"
  shows "sum_map f xs = Inr (map g xs)"
  using assms by (induction xs) auto

lemma sum_map_Inr_length: "sum_map f xs = Inr ys \<Longrightarrow> length ys = length xs"
  by (induction xs arbitrary: ys) (auto split: sum.splits)

section \<open>Python's \<open>bytes([...])\<close> and byte pairs\<close>

text \<open>\<open>bytes([...])\<close> raises ValueError when a value is not in \<open>range(256)\<close>.\<close>

definition to_bytes :: "int list \<Rightarrow> exn + byte list" where
  "to_bytes ns = (if list_all (\<lambda>n. 0 \<le> n \<and> n < 256) ns
                  then Inr (map word_of_int ns) else Inl ValueError)"

lemma to_bytes_ok [simp]:
  "list_all (\<lambda>n. 0 \<le> n \<and> n < 256) ns \<Longrightarrow> to_bytes ns = Inr (map word_of_int ns)"
  by (simp add: to_bytes_def)

lemma to_bytes_bad [simp]:
  "\<not> list_all (\<lambda>n. 0 \<le> n \<and> n < 256) ns \<Longrightarrow> to_bytes ns = Inl ValueError"
  by (simp add: to_bytes_def)

text \<open>The pattern \<open>p[i] | (p[i + 1] << 8)\<close>.\<close>

definition pair16 :: "byte \<Rightarrow> byte \<Rightarrow> nat" where
  "pair16 lo hi = unat lo OR push_bit 8 (unat hi)"

lemma unat_byte_less [simp]: "unat (b :: byte) < 256"
  using unsigned_less[of b] by simp

lemma unat_byte_le [simp]: "unat (b :: byte) \<le> 255"
  using unat_byte_less[of b] by linarith

lemma or_push_bit_8:
  assumes "a < 256"
  shows "a OR push_bit 8 b = a + 256 * (b :: nat)"
proof -
  have "a AND push_bit 8 b = 0"
  proof (rule bit_eqI)
    fix n assume "possible_bit TYPE(nat) n"
    have "a = take_bit 8 a" using assms by (simp add: take_bit_eq_mod)
    then have "bit a n \<Longrightarrow> n < 8" by (metis bit_take_bit_iff)
    then show "bit (a AND push_bit 8 b) n = bit 0 n"
      by (auto simp: bit_and_iff bit_push_bit_iff)
  qed
  then have "a OR push_bit 8 b = a + push_bit 8 b"
    by (rule disjunctive_add_eq_or [symmetric])
  then show ?thesis by (simp add: push_bit_eq_mult)
qed

lemma pair16_eq: "pair16 lo hi = unat lo + 256 * unat hi"
  by (simp add: pair16_def or_push_bit_8)

lemma pair16_less: "pair16 lo hi < 65536"
  using unat_byte_less[of lo] unat_byte_less[of hi] by (simp only: pair16_eq)

text \<open>Masks of low bits.\<close>

lemma and_ones: "n AND mask k = n mod (2 ^ k :: nat)"
  by (simp add: take_bit_eq_mask [symmetric] take_bit_eq_mod)

lemma and_low_bits:
  fixes n :: nat
  shows "n AND 0x3FF = n mod 1024" "n AND 0xFF = n mod 256" "n AND 7 = n mod 8" "n AND 3 = n mod 4"
  using and_ones[of n 10] and_ones[of n 8] and_ones[of n 3] and_ones[of n 2]
  by (simp_all add: mask_eq_exp_minus_1)

section \<open>Whitespace\<close>

text \<open>The characters below code point 256 at which \<open>str.split()\<close> splits; the whitespace class of a pattern matches the same.\<close>

definition is_space :: "char \<Rightarrow> bool" where
  "is_space c \<longleftrightarrow> (of_char c :: nat) \<in> {9, 10, 11, 12, 13, 28, 29, 30, 31, 32, 0x85, 0xA0}"

section \<open>Lists\<close>

text \<open>Python's \<open>list.index\<close>: \<open>None\<close> stands for the ValueError.\<close>

fun py_index :: "'a \<Rightarrow> 'a list \<Rightarrow> nat option" where
  "py_index x [] = None"
| "py_index x (y # ys) = (if x = y then Some 0 else map_option Suc (py_index x ys))"

lemma py_index_None: "py_index x xs = None \<longleftrightarrow> x \<notin> set xs"
  by (induction xs) auto

lemma py_index_Some: "py_index x xs = Some i \<Longrightarrow> i < length xs \<and> xs ! i = x"
  by (induction xs arbitrary: i) (auto split: if_splits)

lemma py_index_nth: "distinct xs \<Longrightarrow> i < length xs \<Longrightarrow> py_index (xs ! i) xs = Some i"
  by (induction xs arbitrary: i) (auto simp: nth_Cons split: nat.splits)

lemma find_map: "find P (map f ys) = map_option f (find (\<lambda>y. P (f y)) ys)"
  by (induction ys) auto

lemma length_remove1_Suc: "x \<in> set xs \<Longrightarrow> Suc (length (remove1 x xs)) = length xs"
  by (auto simp: length_remove1 dest: length_pos_if_in_set)

text \<open>\<open>str.rstrip\<close> and \<open>bytes.rstrip\<close>.\<close>

definition rstrip :: "'a set \<Rightarrow> 'a list \<Rightarrow> 'a list" where
  "rstrip S xs = rev (dropWhile (\<lambda>x. x \<in> S) (rev xs))"

lemma rstrip_replicate: "x \<in> S \<Longrightarrow> rstrip S (xs @ replicate n x) = rstrip S xs"
  unfolding rstrip_def rev_append rev_replicate by (subst dropWhile_append2) auto

lemma rstrip_id: "xs = [] \<or> last xs \<notin> S \<Longrightarrow> rstrip S xs = xs"
  by (cases xs rule: rev_cases) (auto simp: rstrip_def)

section \<open>Insertion-ordered dictionaries\<close>

text \<open>
  What the sources rely on of a Python \<open>dict\<close>: lookup after store and delete, and the
  iteration order (a store to a present key keeps its position, a new key goes to the end).
\<close>

locale ordered_dict =
  fixes get :: "'d \<Rightarrow> 'k \<Rightarrow> 'v option"
    and put :: "'k \<Rightarrow> 'v \<Rightarrow> 'd \<Rightarrow> 'd"
    and del :: "'k \<Rightarrow> 'd \<Rightarrow> 'd"
    and keys :: "'d \<Rightarrow> 'k list"
  assumes get_put: "get (put k v d) k' = (if k' = k then Some v else get d k')"
    and get_del: "get (del k d) k' = (if k' = k then None else get d k')"
    and get_keys: "get d k = None \<longleftrightarrow> k \<notin> set (keys d)"
    and keys_put: "keys (put k v d) = (if k \<in> set (keys d) then keys d else keys d @ [k])"
    and keys_del: "keys (del k d) = filter (\<lambda>k'. k' \<noteq> k) (keys d)"
begin

lemma keys_put_distinct: "distinct (keys d) \<Longrightarrow> distinct (keys (put k v d))"
  by (simp add: keys_put)

lemma keys_del_distinct: "distinct (keys d) \<Longrightarrow> distinct (keys (del k d))"
  by (simp add: keys_del)

lemma put_after_del_goes_last:
  "keys (put k v (del k d)) = filter (\<lambda>k'. k' \<noteq> k) (keys d) @ [k]"
  by (simp add: keys_put keys_del)

lemma length_keys_put:
  "length (keys (put k v d)) = (if get d k = None then Suc (length (keys d)) else length (keys d))"
  by (simp add: keys_put get_keys)

lemma length_keys_del_present:
  assumes "distinct (keys d)" and "k \<in> set (keys d)"
  shows "Suc (length (keys (del k d))) = length (keys d)"
proof -
  have "keys (del k d) = remove1 k (keys d)"
    using assms(1) by (simp add: keys_del distinct_remove1_removeAll removeAll_filter_not_eq eq_commute)
  with assms(2) show ?thesis by (simp add: length_remove1_Suc)
qed

end

lemma map_fst_update:
  "map fst (AList.update k v d) = (if k \<in> fst ` set d then map fst d else map fst d @ [k])"
  by (induction d) auto

lemma map_fst_delete: "map fst (AList.delete k d) = filter (\<lambda>k'. k' \<noteq> k) (map fst d)"
  by (induction d) (auto simp: AList.delete_eq)

interpretation pydict: ordered_dict map_of AList.update AList.delete "map fst"
proof
  show "map_of (AList.update k v d) k' = (if k' = k then Some v else map_of d k')" for k v d k'
    by (simp add: update_conv')
  show "map_of (AList.delete k d) k' = (if k' = k then None else map_of d k')" for k d k'
    by (simp add: delete_conv')
  show "(map_of d k = None) = (k \<notin> set (map fst d))" for d k
    by (simp add: map_of_eq_None_iff)
  show "map fst (AList.update k v d) = (if k \<in> set (map fst d) then map fst d else map fst d @ [k])"
    for k v d
    by (simp add: map_fst_update)
  show "map fst (AList.delete k d) = filter (\<lambda>k'. k' \<noteq> k) (map fst d)" for k d
    by (rule map_fst_delete)
qed

lemmas pydict_laws [dict_simps] = pydict.get_put pydict.get_del

section \<open>Transition systems\<close>

text \<open>
  Reachability over a step relation, and the contract of an inductive invariant: it holds
  initially and every step keeps it.
\<close>

inductive reach :: "('s \<Rightarrow> bool) \<Rightarrow> ('s \<Rightarrow> 's \<Rightarrow> bool) \<Rightarrow> 's \<Rightarrow> bool"
  for init :: "'s \<Rightarrow> bool" and step :: "'s \<Rightarrow> 's \<Rightarrow> bool" where
  reach_init: "init s \<Longrightarrow> reach init step s"
| reach_step: "reach init step s \<Longrightarrow> step s t \<Longrightarrow> reach init step t"

locale invariant_system =
  fixes init :: "'s \<Rightarrow> bool"
    and step :: "'s \<Rightarrow> 's \<Rightarrow> bool"
    and invar :: "'s \<Rightarrow> bool"
  assumes invar_init: "init s \<Longrightarrow> invar s"
    and invar_step: "invar s \<Longrightarrow> step s t \<Longrightarrow> invar t"
begin

lemma invar_reach: "reach init step s \<Longrightarrow> invar s"
  by (induction rule: reach.induct) (auto intro: invar_init invar_step)

lemma invar_star: "invar s \<Longrightarrow> step\<^sup>*\<^sup>* s t \<Longrightarrow> invar t"
  by (erule rtranclp_induct) (auto intro: invar_step)

end

end
