(* ===== verification/Wire.thy ===== *)
theory Wire
  imports Prelude
begin

text \<open>
  The wire format of protocol v2 (server/intv_relay_server.py, lines 21-89): frame types,
  capacity constants, \<open>frame\<close>, \<open>pad_name\<close>, the name decoding of HELLO and JOIN,
  and the length-prefixed reassembly every endpoint performs, stated once as the interface
  \<open>frame_reader\<close>.
\<close>

section \<open>Constants\<close>

definition T_HELLO :: byte where "T_HELLO = 0x01"
definition T_LIST :: byte where "T_LIST = 0x02"
definition T_LOBBY :: byte where "T_LOBBY = 0x03"
definition T_JOIN :: byte where "T_JOIN = 0x04"
definition T_START :: byte where "T_START = 0x05"
definition T_INPUT :: byte where "T_INPUT = 0x06"
definition T_CRC :: byte where "T_CRC = 0x07"
definition T_STATE :: byte where "T_STATE = 0x08"
definition T_RESYNC :: byte where "T_RESYNC = 0x09"
definition T_BYE :: byte where "T_BYE = 0x0A"
definition T_PEER_LEFT :: byte where "T_PEER_LEFT = 0x0B"
definition T_PING :: byte where "T_PING = 0x0C"
definition T_PONG :: byte where "T_PONG = 0x0D"
definition T_ROOM :: byte where "T_ROOM = 0x0E"
definition T_GO :: byte where "T_GO = 0x0F"

lemmas T_defs = T_HELLO_def T_LIST_def T_LOBBY_def T_JOIN_def T_START_def T_INPUT_def T_CRC_def
  T_STATE_def T_RESYNC_def T_BYE_def T_PEER_LEFT_def T_PING_def T_PONG_def T_ROOM_def T_GO_def

definition RELAY_TYPES :: "byte list" where
  "RELAY_TYPES = [T_INPUT, T_CRC, T_STATE, T_RESYNC]"

definition NAME_CHARS :: string where
  "NAME_CHARS = ''ABCDEFGHIJKLMNOPQRSTUVWXYZ0123456789''"

definition PROTO_VER :: byte where "PROTO_VER = 2"
definition DEFAULT_DELAY :: int where "DEFAULT_DELAY = 3"
definition MAX_SEATS :: nat where "MAX_SEATS = 2"
definition ROSTER_SLOTS :: nat where "ROSTER_SLOTS = 4"
definition MAX_TX_BACKLOG :: nat where "MAX_TX_BACKLOG = 64 * 1024"
definition MAX_CLIENTS :: nat where "MAX_CLIENTS = 64"
definition MAX_CONNECTIONS_PER_IP :: nat where "MAX_CONNECTIONS_PER_IP = 8"
definition HELLO_TIMEOUT :: time where "HELLO_TIMEOUT = 60"
definition STATS_INTERVAL :: time where "STATS_INTERVAL = 60"

section \<open>Frames\<close>

definition frame :: "byte \<Rightarrow> byte list \<Rightarrow> exn + byte list" where
  "frame ftype payload =
     (let body = ftype # payload in
      if length body \<le> 255 then Inr (word_of_nat (length body) # body) else Inl AssertionError)"

lemma frame_ok: "length payload < 255 \<Longrightarrow>
    frame t payload = Inr (word_of_nat (Suc (length payload)) # t # payload)"
  by (simp add: frame_def Let_def)

lemma frame_too_long: "255 \<le> length payload \<Longrightarrow> frame t payload = Inl AssertionError"
  by (simp add: frame_def Let_def)

text \<open>The bytes of a message of a type and a payload.\<close>

definition encode_msg :: "byte \<times> byte list \<Rightarrow> byte list" where
  "encode_msg m = word_of_nat (Suc (length (snd m))) # fst m # snd m"

lemma encode_msg_frame: "length p < 255 \<Longrightarrow> frame t p = Inr (encode_msg (t, p))"
  by (simp add: encode_msg_def frame_ok)

section \<open>Names\<close>

text \<open>
  \<open>decode("ascii", "replace")\<close>: a byte of 128 or more becomes U+FFFD.  A \<open>char\<close> has
  eight bits, so U+FFFD is written \<open>CHR 0xFF\<close>, which no ASCII byte decodes to.
\<close>

definition decode_ascii :: "byte list \<Rightarrow> string" where
  "decode_ascii bs = map (\<lambda>b. if unat b < 128 then char_of (unat b) else CHR 0xFF) bs"

definition ascii_char :: "char \<Rightarrow> bool" where
  "ascii_char c \<longleftrightarrow> (of_char c :: nat) < 128"

definition byte_of_char :: "char \<Rightarrow> byte" where
  "byte_of_char c = word_of_nat (of_char c)"

definition wire_name :: "byte list \<Rightarrow> string" where
  "wire_name payload = rstrip {CHR 0x00, CHR 0x20} (decode_ascii payload)"

definition valid_name :: "string \<Rightarrow> bool" where
  "valid_name n \<longleftrightarrow> 2 \<le> length n \<and> length n \<le> 8 \<and> set n \<subseteq> set NAME_CHARS"

definition pad8 :: "byte list \<Rightarrow> byte list" where
  "pad8 bs = take 8 bs @ replicate (8 - length bs) 0"

definition pad_name :: "string option \<Rightarrow> exn + byte list" where
  "pad_name n = (case n of
      None \<Rightarrow> Inl AttributeError
    | Some cs \<Rightarrow> if list_all ascii_char cs then Inr (pad8 (map byte_of_char cs))
                 else Inl UnicodeEncodeError)"

lemma length_pad8 [simp]: "length (pad8 bs) = 8"
  by (simp add: pad8_def)

lemma pad_name_length: "pad_name n = Inr bs \<Longrightarrow> length bs = 8"
  by (auto simp: pad_name_def split: option.splits if_splits)

lemma name_char_ascii: "c \<in> set NAME_CHARS \<Longrightarrow> ascii_char c \<and> c \<noteq> CHR 0x00 \<and> c \<noteq> CHR 0x20"
  by (auto simp: NAME_CHARS_def ascii_char_def)

lemma valid_name_ascii: "valid_name n \<Longrightarrow> list_all ascii_char n"
  by (auto simp: valid_name_def list_all_iff dest: name_char_ascii)

lemma pad_name_valid: "valid_name n \<Longrightarrow> pad_name (Some n) = Inr (pad8 (map byte_of_char n))"
  by (simp add: pad_name_def valid_name_ascii)

lemma decode_byte_of_char:
  "ascii_char c \<Longrightarrow> decode_ascii [byte_of_char c] = [c]"
  by (simp add: decode_ascii_def byte_of_char_def ascii_char_def unat_of_nat)

lemma decode_ascii_append: "decode_ascii (xs @ ys) = decode_ascii xs @ decode_ascii ys"
  by (simp add: decode_ascii_def)

lemma decode_encode: "list_all ascii_char cs \<Longrightarrow> decode_ascii (map byte_of_char cs) = cs"
proof (induction cs)
  case Nil
  then show ?case by (simp add: decode_ascii_def)
next
  case (Cons c cs)
  then show ?case
    using decode_ascii_append[of "[byte_of_char c]" "map byte_of_char cs"]
    by (simp add: decode_byte_of_char)
qed

lemma decode_zeros: "decode_ascii (replicate n 0) = replicate n (CHR 0x00)"
  by (simp add: decode_ascii_def char_of_def)

lemma wire_name_pad8:
  assumes "valid_name n"
  shows "wire_name (pad8 (map byte_of_char n)) = n"
proof -
  have len: "length n \<le> 8" and ne: "n \<noteq> []"
    using assms by (auto simp: valid_name_def)
  have "last n \<in> set NAME_CHARS"
    using assms ne by (auto simp: valid_name_def)
  then have l: "last n \<notin> {CHR 0x00, CHR 0x20}"
    by (auto dest: name_char_ascii)
  have "decode_ascii (pad8 (map byte_of_char n)) = n @ replicate (8 - length n) (CHR 0x00)"
    using len assms
    by (simp add: pad8_def decode_ascii_append decode_encode decode_zeros valid_name_ascii)
  then show ?thesis
    using l ne by (simp add: wire_name_def rstrip_replicate rstrip_id)
qed

lemma pad_name_inj:
  assumes "valid_name n" "valid_name n'" "pad_name (Some n) = pad_name (Some n')"
  shows "n = n'"
  using assms by (metis Inr_inject pad_name_valid wire_name_pad8)

section \<open>Reassembly of length-prefixed frames\<close>

text \<open>
  One step of a frame reader on a receive buffer: more bytes are needed, the buffer can never
  become a frame, or a message and the rest of the buffer.  \<open>drain\<close> is the loop every
  endpoint runs; its first argument bounds the iterations, and \<open>drain_fuel\<close> shows that
  the length of the buffer is enough.
\<close>

datatype 'm read = More | Bad | Msg 'm "byte list"

fun drain :: "(byte list \<Rightarrow> 'm read) \<Rightarrow> nat \<Rightarrow> byte list \<Rightarrow> 'm list \<times> byte list \<times> bool" where
  "drain rd 0 xs = ([], xs, rd xs = Bad)"
| "drain rd (Suc n) xs =
     (case rd xs of
        More \<Rightarrow> ([], xs, False)
      | Bad \<Rightarrow> ([], xs, True)
      | Msg m rest \<Rightarrow> (case drain rd n rest of (ms, left, bad) \<Rightarrow> (m # ms, left, bad)))"

locale frame_reader =
  fixes read :: "byte list \<Rightarrow> 'm read"
  assumes read_append: "read xs = Msg m rest \<Longrightarrow> read (xs @ ys) = Msg m (rest @ ys)"
    and read_bad: "read xs = Bad \<Longrightarrow> read (xs @ ys) = Bad"
    and read_shorter: "read xs = Msg m rest \<Longrightarrow> length rest < length xs"
begin

lemma drain_fuel: "length xs \<le> n \<Longrightarrow> drain read n xs = drain read (length xs) xs"
proof (induction n arbitrary: xs rule: less_induct)
  case (less n)
  show ?case
  proof (cases "read xs")
    case (Msg m rest)
    from read_shorter[OF Msg] have lt: "length rest < length xs" .
    then obtain k where k: "length xs = Suc k" by (cases "length xs") auto
    with less.prems obtain j where j: "n = Suc j" by (cases n) auto
    have "drain read j rest = drain read k rest"
    proof -
      have "drain read j rest = drain read (length rest) rest"
        by (rule less.IH) (use lt k j less.prems in auto)
      moreover have "drain read k rest = drain read (length rest) rest"
        by (rule less.IH) (use lt k j less.prems in auto)
      ultimately show ?thesis by simp
    qed
    with Msg k j show ?thesis by simp
  next
    case More
    then show ?thesis by (cases n; cases "length xs") auto
  next
    case Bad
    then show ?thesis by (cases n; cases "length xs") auto
  qed
qed

lemma drain_step:
  "drain read (length xs) xs =
     (case read xs of More \<Rightarrow> ([], xs, False) | Bad \<Rightarrow> ([], xs, True)
      | Msg m rest \<Rightarrow> (case drain read (length rest) rest of (ms, left, bad) \<Rightarrow> (m # ms, left, bad)))"
proof (cases "read xs")
  case (Msg m rest)
  with read_shorter obtain k where k: "length xs = Suc k" "length rest \<le> k"
    by (cases "length xs") fastforce+
  with drain_fuel[of rest k] Msg show ?thesis by simp
qed (cases "length xs"; simp)+

lemma drain_left: "drain read (length xs) xs = (ms, left, bad) \<Longrightarrow>
    read left = (if bad then Bad else More)"
proof (induction "length xs" arbitrary: xs ms rule: less_induct)
  case less
  show ?case
  proof (cases "read xs")
    case (Msg m rest)
    then show ?thesis
      using less.hyps[OF read_shorter[OF Msg]] less.prems
      by (subst (asm) (2) drain_step) (auto split: prod.splits)
  qed (use less.prems in \<open>subst (asm) drain_step, auto\<close>)+
qed

lemma drain_append:
  "drain read (length (xs @ ys)) (xs @ ys) =
     (case drain read (length xs) xs of
        (ms, left, True) \<Rightarrow> (ms, left @ ys, True)
      | (ms, left, False) \<Rightarrow>
          (case drain read (length (left @ ys)) (left @ ys) of
             (ms', left', bad) \<Rightarrow> (ms @ ms', left', bad)))"
proof (induction "length xs" arbitrary: xs rule: less_induct)
  case less
  show ?case
  proof (cases "read xs")
    case (Msg m rest)
    have IH: "drain read (length (rest @ ys)) (rest @ ys) =
     (case drain read (length rest) rest of
        (ms, left, True) \<Rightarrow> (ms, left @ ys, True)
      | (ms, left, False) \<Rightarrow>
          (case drain read (length (left @ ys)) (left @ ys) of
             (ms', left', bad) \<Rightarrow> (ms @ ms', left', bad)))"
      using read_shorter[OF Msg] by (rule less.hyps)
    have "drain read (length (xs @ ys)) (xs @ ys) =
        (case drain read (length (rest @ ys)) (rest @ ys) of (ms, left, bad) \<Rightarrow> (m # ms, left, bad))"
      by (subst drain_step) (simp only: read_append[OF Msg] read.case)
    moreover have "drain read (length xs) xs =
        (case drain read (length rest) rest of (ms, left, bad) \<Rightarrow> (m # ms, left, bad))"
      by (subst drain_step) (simp only: Msg read.case)
    ultimately show ?thesis
      by (simp only: IH) (auto split: prod.splits bool.splits)
  next
    case More
    then have "drain read (length xs) xs = ([], xs, False)" by (subst drain_step) simp
    then show ?thesis by (simp split: prod.splits)
  next
    case Bad
    then have "drain read (length xs) xs = ([], xs, True)" by (subst drain_step) simp
    moreover have "drain read (length (xs @ ys)) (xs @ ys) = ([], xs @ ys, True)"
      by (subst drain_step) (simp only: read_bad[OF Bad] read.case)
    ultimately show ?thesis by simp
  qed
qed

end

locale frame_codec = frame_reader +
  fixes enc :: "'a \<Rightarrow> byte list"
    and ok :: "'a \<Rightarrow> bool"
  assumes read_enc: "ok m \<Longrightarrow> read (enc m @ rest) = Msg m rest"
    and read_empty: "read [] = More"
begin

lemma drain_encoded:
  "list_all ok ms \<Longrightarrow>
   drain read (length (concat (map enc ms))) (concat (map enc ms)) = (ms, [], False)"
proof (induction ms)
  case Nil
  then show ?case by (subst drain_step) (simp add: read_empty)
next
  case (Cons m ms)
  then show ?case
    by (subst drain_step) (simp add: read_enc)
qed

end

end
