(* ===== verification/Lobby.thy ===== *)
theory Lobby
  imports Prelude
begin

text \<open>
  The FujiNet Lobby publisher (class LobbyPublisher of server/intv_relay_server.py, lines
  497-581): the coalescing update under the condition variable, the worker thread's loop, the
  shutdown sequence, and their interleavings as a step relation.  Sections that hold the lock
  are single steps.  The HTTP side is the list \<open>pb_posts\<close> of the payloads POSTed so far
  and a \<open>post_result\<close> chosen by the environment for every POST.
\<close>

section \<open>State\<close>

record lobby_payload =
  lp_game :: string
  lp_appkey :: int
  lp_server :: string
  lp_region :: string
  lp_serverurl :: string
  lp_status :: string
  lp_maxplayers :: nat
  lp_curplayers :: nat
  lp_clients :: "(string \<times> string) list"

text \<open>
  Where the worker thread is: about to test the loop condition with the lock held, blocked in
  \<open>_cond.wait\<close>, outside the lock with a snapshot to POST, in the debounce wait, returned
  (or killed by an exception that is not an OSError).
\<close>

datatype worker =
    W_check
  | W_wait
  | W_post lobby_payload
  | W_debounce
  | W_exit

text \<open>Where the main thread is in \<open>shutdown\<close>.\<close>

datatype main_phase =
    M_running
  | M_join lobby_payload
  | M_final lobby_payload
  | M_done

record publisher =
  pb_base_url :: string
  pb_payload :: lobby_payload
  pb_failures :: nat
  pb_dirty :: bool
  pb_stopping :: bool
  pb_stop_evt :: bool
  pb_worker :: worker
  pb_main :: main_phase
  pb_posts :: "lobby_payload list"

text \<open>
  What \<open>urlopen\<close> does with one request: succeeds, raises an OSError (URLError is one), or
  raises something else (http.client.HTTPException is not an OSError).
\<close>

datatype post_result = Post_ok | Post_oserror | Post_other

section \<open>Operations\<close>

definition KEEPALIVE_SECS :: time where "KEEPALIVE_SECS = 300"

definition publisher_init ::
    "string \<Rightarrow> string \<Rightarrow> string \<Rightarrow> int \<Rightarrow> string \<Rightarrow> string \<Rightarrow> string \<Rightarrow> publisher" where
  "publisher_init base_url serverurl client_url appkey region game_name server_name =
     \<lparr>pb_base_url = rstrip {CHR ''/''} base_url,
      pb_payload = \<lparr>lp_game = game_name, lp_appkey = appkey, lp_server = server_name,
                    lp_region = region, lp_serverurl = serverurl, lp_status = ''online'',
                    lp_maxplayers = 4, lp_curplayers = 0,
                    lp_clients = [(''intv'', client_url)]\<rparr>,
      pb_failures = 0, pb_dirty = False, pb_stopping = False, pb_stop_evt = False,
      pb_worker = W_check, pb_main = M_running, pb_posts = []\<rparr>"

text \<open>\<open>_cond.notify()\<close>: a worker blocked in \<open>wait\<close> gets to test its condition again.\<close>

definition notify :: "publisher \<Rightarrow> publisher" where
  "notify p = (if pb_worker p = W_wait then p\<lparr>pb_worker := W_check\<rparr> else p)"

definition update :: "nat \<Rightarrow> publisher \<Rightarrow> publisher" where
  "update curplayers p =
     (if pb_stopping p then p
      else notify (p\<lparr>pb_payload := (pb_payload p)\<lparr>lp_curplayers := curplayers\<rparr>,
                     pb_dirty := True\<rparr>))"

text \<open>
  \<open>_post\<close> records the request; its second result says whether the call returned (a failure
  that is an OSError is counted and swallowed) or raised.
\<close>

definition post :: "post_result \<Rightarrow> lobby_payload \<Rightarrow> publisher \<Rightarrow> publisher \<times> bool" where
  "post r pl p =
     (let p1 = p\<lparr>pb_posts := pb_posts p @ [pl]\<rparr> in
      case r of
        Post_ok \<Rightarrow> (p1, True)
      | Post_oserror \<Rightarrow> (p1\<lparr>pb_failures := pb_failures p1 + 1\<rparr>, True)
      | Post_other \<Rightarrow> (p1, False))"

text \<open>\<open>shutdown\<close>: the locked section and \<open>_stop_evt.set()\<close>, the join, the last POST.\<close>

definition shutdown_begin :: "publisher \<Rightarrow> publisher" where
  "shutdown_begin p =
     (let p1 = p\<lparr>pb_stopping := True, pb_payload := (pb_payload p)\<lparr>lp_status := ''offline''\<rparr>\<rparr>
      in (notify p1)\<lparr>pb_stop_evt := True, pb_main := M_join (pb_payload p1)\<rparr>)"

definition shutdown_join :: "lobby_payload \<Rightarrow> publisher \<Rightarrow> publisher" where
  "shutdown_join snapshot p = p\<lparr>pb_main := M_final snapshot\<rparr>"

definition shutdown_post :: "post_result \<Rightarrow> lobby_payload \<Rightarrow> publisher \<Rightarrow> publisher" where
  "shutdown_post r snapshot p = (fst (post r snapshot p))\<lparr>pb_main := M_done\<rparr>"

text \<open>
  The worker: the test of the wait loop and, when it falls through, the rest of the locked
  section; a wait that timed out; the POST outside the lock; the debounce.
\<close>

definition worker_check :: "publisher \<Rightarrow> publisher" where
  "worker_check p =
     (if \<not> pb_dirty p \<and> \<not> pb_stopping p then p\<lparr>pb_worker := W_wait\<rparr>
      else let p1 = p\<lparr>pb_dirty := False\<rparr> in
        if pb_stopping p1 then p1\<lparr>pb_worker := W_exit\<rparr>
        else p1\<lparr>pb_worker := W_post (pb_payload p1)\<rparr>)"

definition worker_timeout :: "publisher \<Rightarrow> publisher" where
  "worker_timeout p = p\<lparr>pb_dirty := True, pb_worker := W_check\<rparr>"

definition worker_post :: "post_result \<Rightarrow> lobby_payload \<Rightarrow> publisher \<Rightarrow> publisher" where
  "worker_post r snapshot p =
     (case post r snapshot p of (p1, returned) \<Rightarrow>
        p1\<lparr>pb_worker := (if returned then W_debounce else W_exit)\<rparr>)"

definition worker_debounce :: "publisher \<Rightarrow> publisher" where
  "worker_debounce p = p\<lparr>pb_worker := W_check\<rparr>"

section \<open>Interleavings\<close>

text \<open>
  The worker steps, and the steps of both threads.  The join of \<open>shutdown\<close> ends when the
  worker has returned or after its timeout, so its rule has no guard on the worker.
\<close>

inductive worker_step :: "publisher \<Rightarrow> publisher \<Rightarrow> bool" where
  w_check: "pb_worker p = W_check \<Longrightarrow> worker_step p (worker_check p)"
| w_timeout: "pb_worker p = W_wait \<Longrightarrow> worker_step p (worker_timeout p)"
| w_post: "pb_worker p = W_post pl \<Longrightarrow> worker_step p (worker_post r pl p)"
| w_debounce: "pb_worker p = W_debounce \<Longrightarrow> worker_step p (worker_debounce p)"

inductive pub_step :: "publisher \<Rightarrow> publisher \<Rightarrow> bool" where
  p_worker: "worker_step p q \<Longrightarrow> pub_step p q"
| p_update: "pb_main p = M_running \<Longrightarrow> pub_step p (update n p)"
| p_shutdown: "pb_main p = M_running \<Longrightarrow> pub_step p (shutdown_begin p)"
| p_join: "pb_main p = M_join pl \<Longrightarrow> pub_step p (shutdown_join pl p)"
| p_final: "pb_main p = M_final pl \<Longrightarrow> pub_step p (shutdown_post r pl p)"

definition pub_initial :: "publisher \<Rightarrow> bool" where
  "pub_initial p \<longleftrightarrow>
     (\<exists>base_url serverurl client_url appkey region game server.
        p = publisher_init base_url serverurl client_url appkey region game server)"

abbreviation pub_reach :: "publisher \<Rightarrow> bool" where
  "pub_reach \<equiv> reach pub_initial pub_step"

lemmas pub_defs = notify_def update_def post_def shutdown_begin_def shutdown_join_def
  shutdown_post_def worker_check_def worker_timeout_def worker_post_def worker_debounce_def Let_def

inductive_cases worker_exitE: "worker_step p q"

section \<open>Invariant\<close>

text \<open>The newest payload the worker has handed to HTTP: in flight, or the last one POSTed.\<close>

definition newest :: "publisher \<Rightarrow> lobby_payload option" where
  "newest p = (case pb_worker p of
      W_post pl \<Rightarrow> Some pl
    | _ \<Rightarrow> (if pb_posts p = [] then None else Some (last (pb_posts p))))"

definition pub_inv :: "publisher \<Rightarrow> bool" where
  "pub_inv p \<longleftrightarrow>
     (pb_stopping p \<longleftrightarrow> pb_main p \<noteq> M_running) \<and>
     (pb_stop_evt p \<longleftrightarrow> pb_stopping p) \<and>
     lp_status (pb_payload p) = (if pb_stopping p then ''offline'' else ''online'') \<and>
     (\<forall>pl. pb_worker p = W_post pl \<longrightarrow> lp_status pl = ''online'') \<and>
     (pb_worker p = W_wait \<longrightarrow> \<not> pb_dirty p \<and> \<not> pb_stopping p) \<and>
     (\<not> pb_dirty p \<and> \<not> pb_stopping p \<longrightarrow>
        (case newest p of Some pl \<Rightarrow> pl = pb_payload p | None \<Rightarrow> lp_curplayers (pb_payload p) = 0)) \<and>
     (\<forall>pl. pb_main p = M_join pl \<or> pb_main p = M_final pl \<longrightarrow> lp_status pl = ''offline'') \<and>
     (pb_main p \<noteq> M_done \<longrightarrow> (\<forall>pl\<in>set (pb_posts p). lp_status pl = ''online'')) \<and>
     (pb_main p = M_done \<longrightarrow> (\<exists>pl\<in>set (pb_posts p). lp_status pl = ''offline''))"

lemma pub_inv_init: "pub_initial p \<Longrightarrow> pub_inv p"
  by (auto simp: pub_initial_def pub_inv_def publisher_init_def newest_def)

lemma worker_step_inv: "pub_inv p \<Longrightarrow> worker_step p q \<Longrightarrow> pub_inv q"
  by (erule worker_step.cases)
     (auto simp: pub_inv_def pub_defs newest_def split: post_result.splits if_splits)

lemma pub_step_inv: "pub_inv p \<Longrightarrow> pub_step p q \<Longrightarrow> pub_inv q"
proof (erule pub_step.cases)
  show "pub_inv p \<Longrightarrow> p = p' \<Longrightarrow> q = q' \<Longrightarrow> worker_step p' q' \<Longrightarrow> pub_inv q" for p' q'
    using worker_step_inv by blast
qed (auto simp: pub_inv_def pub_defs newest_def split: post_result.splits worker.splits if_splits)

interpretation lobby: invariant_system pub_initial pub_step pub_inv
  by unfold_locales (auto intro: pub_inv_init pub_step_inv)

section \<open>Progress and shutdown\<close>

inductive_simps worker_step_simp: "worker_step p q"

text \<open>One worker step from each place the worker can be.\<close>

lemma worker_step_at:
  "pb_worker p = W_check \<Longrightarrow> worker_step p q \<longleftrightarrow> q = worker_check p"
  "pb_worker p = W_wait \<Longrightarrow> worker_step p q \<longleftrightarrow> q = worker_timeout p"
  "pb_worker p = W_post pl \<Longrightarrow> worker_step p q \<longleftrightarrow> (\<exists>r. q = worker_post r pl p)"
  "pb_worker p = W_debounce \<Longrightarrow> worker_step p q \<longleftrightarrow> q = worker_debounce p"
  "pb_worker p = W_exit \<Longrightarrow> \<not> worker_step p q"
  by (auto simp: worker_step_simp)

text \<open>How far the worker is from having POSTed the payload: the payload is still to be sent.\<close>

fun publish_distance :: "worker \<Rightarrow> nat" where
  "publish_distance W_exit = 1"
| "publish_distance W_check = 2"
| "publish_distance W_debounce = 3"
| "publish_distance (W_post _) = 4"
| "publish_distance W_wait = 3"

definition posted_since :: "nat \<Rightarrow> publisher \<Rightarrow> lobby_payload list" where
  "posted_since n p = List.drop n (pb_posts p)"

definition publishing :: "nat \<Rightarrow> lobby_payload \<Rightarrow> nat \<Rightarrow> publisher \<Rightarrow> bool" where
  "publishing n pl k p \<longleftrightarrow>
     n \<le> length (pb_posts p) \<and> pb_payload p = pl \<and> \<not> pb_stopping p \<and>
     (pl \<in> set (posted_since n p) \<or>
      pb_dirty p \<and> publish_distance (pb_worker p) \<le> k \<or>
      pb_worker p = W_post pl \<and> 1 \<le> k)"

lemma publishing_step:
  assumes "publishing n pl (Suc k) p" "worker_step p q"
  shows "publishing n pl k q"
  using assms(2,1)
  by (cases rule: worker_step.cases)
     (auto simp: publishing_def posted_since_def pub_defs split: post_result.splits if_splits)

lemma publishing_run:
  "publishing n pl k p \<Longrightarrow> (worker_step ^^ k) p q \<Longrightarrow> publishing n pl 0 q"
proof (induction k arbitrary: p)
  case (Suc k)
  from Suc.prems(2) obtain p' where "worker_step p p'" "(worker_step ^^ k) p' q"
    by (metis relpowp_Suc_D2)
  with Suc.IH publishing_step[OF Suc.prems(1)] show ?case by blast
qed simp

lemma worker_can_run: "pb_worker p \<noteq> W_exit \<Longrightarrow> \<not> pb_stopping p \<Longrightarrow>
    \<exists>q. worker_step p q \<and> pb_worker q \<noteq> W_exit \<and> \<not> pb_stopping q"
  by (cases "pb_worker p")
     (auto simp: worker_step_at pub_defs intro!: exI[of _ Post_ok])

lemma worker_runs: "pb_worker p \<noteq> W_exit \<Longrightarrow> \<not> pb_stopping p \<Longrightarrow> \<exists>q. (worker_step ^^ k) p q"
proof (induction k arbitrary: p)
  case (Suc k)
  then obtain p' where "worker_step p p'" "pb_worker p' \<noteq> W_exit" "\<not> pb_stopping p'"
    using worker_can_run by blast
  with Suc.IH[of p'] show ?case by (blast intro: relpowp_Suc_I2)
qed simp

lemma publish_distance_le: "1 \<le> publish_distance w \<and> publish_distance w \<le> 4"
  by (cases w) auto

text \<open>\<open>shutdown\<close> after a join that found the worker returned: nothing but its own POST follows.\<close>

definition joined_out :: "publisher \<Rightarrow> publisher \<Rightarrow> bool" where
  "joined_out p q \<longleftrightarrow>
     pb_worker q = W_exit \<and>
     (case pb_main p of
        M_final pl \<Rightarrow> pb_main q = M_final pl \<and> pb_posts q = pb_posts p \<or>
                      pb_main q = M_done \<and> pb_posts q = pb_posts p @ [pl]
      | _ \<Rightarrow> False)"

lemma joined_out_step: "joined_out p q \<Longrightarrow> pub_step q q' \<Longrightarrow> joined_out p q'"
  by (erule pub_step.cases)
     (auto simp: joined_out_def worker_step_at pub_defs split: main_phase.splits post_result.splits if_splits)

lemma joined_out_run:
  "pb_worker p = W_exit \<Longrightarrow> pb_main p = M_final pl \<Longrightarrow> pub_step\<^sup>*\<^sup>* p q \<Longrightarrow> joined_out p q"
proof (erule rtranclp_induct)
  show "pb_worker p = W_exit \<Longrightarrow> pb_main p = M_final pl \<Longrightarrow> joined_out p p" by (simp add: joined_out_def)
qed (rule joined_out_step)

text \<open>A worker that is gone publishes nothing.\<close>

lemma exit_step:
  "pub_step p q \<Longrightarrow> pb_worker p = W_exit \<Longrightarrow>
   pb_worker q = W_exit \<and> (pb_main q = M_running \<longrightarrow> pb_main p = M_running \<and> pb_posts q = pb_posts p)"
  by (erule pub_step.cases)
     (auto simp: worker_step_at pub_defs split: post_result.splits if_splits)

lemma exit_run:
  "pub_step\<^sup>*\<^sup>* p q \<Longrightarrow> pb_worker p = W_exit \<Longrightarrow>
   pb_worker q = W_exit \<and> (pb_main q = M_running \<longrightarrow> pb_main p = M_running \<and> pb_posts q = pb_posts p)"
  by (induction rule: rtranclp_induct) (auto dest: exit_step)

section \<open>Properties\<close>

abbreviation fresh :: publisher where
  "fresh \<equiv> publisher_init [] [] [] 0 [] [] []"

lemma pub_reach_init: "pub_reach (publisher_init base_url serverurl client_url appkey region game server)"
  unfolding pub_initial_def by (rule reach.reach_init) blast

text \<open>
  C17 (lobby, no lost update): in every reachable state of the two threads in which nothing is
  marked dirty and no shutdown has begun, the payload the worker handed to HTTP last is the
  current one; before its first POST the current one still announces no player.
\<close>

theorem lobby_no_lost_update:
  assumes "pub_reach p" "\<not> pb_dirty p" "\<not> pb_stopping p"
  shows "(newest p = None \<and> lp_curplayers (pb_payload p) = 0) \<or> newest p = Some (pb_payload p)"
  using lobby.invar_reach[OF assms(1)] assms(2,3) by (auto simp: pub_inv_def split: option.splits)

theorem lobby_no_lost_update_witness:
  "newest (worker_check (update 3 fresh)) =
     Some (pb_payload (worker_check (update 3 fresh)))"
proof -

  let ?p = "worker_check (update 3 fresh)"
  have "pub_reach fresh" by (rule pub_reach_init)
  then have "pub_reach (update 3 fresh)"
    by (rule reach.reach_step) (rule pub_step.p_update, simp add: publisher_init_def)
  then have "pub_reach ?p"
    by (rule reach.reach_step)
       (intro pub_step.p_worker worker_step.w_check, simp add: publisher_init_def pub_defs)
  from lobby_no_lost_update[OF this] show ?thesis
    by (simp add: publisher_init_def pub_defs)
qed



text \<open>
  C25 (lobby, orderly shutdown): if \<open>shutdown\<close>'s join ended because the worker returned,
  then the offline payload is POSTed exactly once and is the last POST ever.
\<close>

theorem lobby_offline_last:
  assumes "pub_reach p" "pb_main p = M_final pl" "pb_worker p = W_exit" "pub_step\<^sup>*\<^sup>* p q" "pb_main q = M_done"
  shows "pb_posts q = pb_posts p @ [pl] \<and> lp_status pl = ''offline'' \<and>
    (\<forall>pl'\<in>set (pb_posts p). lp_status pl' = ''online'')"
proof -
  have "pub_inv p" using lobby.invar_reach[OF assms(1)] .
  then have "lp_status pl = ''offline''" "\<forall>pl'\<in>set (pb_posts p). lp_status pl' = ''online''"
    using assms(2) by (auto simp: pub_inv_def)
  moreover have "pb_posts q = pb_posts p @ [pl]"
    using joined_out_run[OF assms(3,2,4)] assms(2,5) by (simp add: joined_out_def)
  ultimately show ?thesis by blast
qed

text \<open>The orderly shutdown of an idle publisher, step by step.\<close>

definition idle_shutdown :: "publisher \<Rightarrow> publisher" where
  "idle_shutdown p =
     (let q = worker_check (shutdown_begin p) in
      case pb_main q of M_join pl \<Rightarrow> shutdown_join pl q | _ \<Rightarrow> q)"

lemma idle_shutdown_reach:
  "pub_reach (idle_shutdown fresh)"
proof -

  have "pub_reach fresh" by (rule pub_reach_init)
  then have "pub_reach (shutdown_begin fresh)"
    by (rule reach.reach_step) (rule pub_step.p_shutdown, simp add: publisher_init_def)
  then have "pub_reach (worker_check (shutdown_begin fresh))"
    by (rule reach.reach_step)
       (intro pub_step.p_worker worker_step.w_check, simp add: publisher_init_def pub_defs)
  then have "pub_reach (shutdown_join (pb_payload (shutdown_begin fresh)) (worker_check (shutdown_begin fresh)))"
    by (rule reach.reach_step) (rule pub_step.p_join, simp add: publisher_init_def pub_defs)
  then show ?thesis by (simp add: idle_shutdown_def Let_def publisher_init_def pub_defs)
qed

theorem lobby_offline_last_witness:
  "map lp_status (pb_posts (shutdown_post Post_ok (pb_payload (idle_shutdown fresh))
     (idle_shutdown fresh))) = [''offline'']"
proof -
  let ?p = "idle_shutdown fresh"
  let ?q = "shutdown_post Post_ok (pb_payload ?p) ?p"
  have m: "pb_main ?p = M_final (pb_payload ?p)" "pb_worker ?p = W_exit" "pb_posts ?p = []"
    by (simp_all add: idle_shutdown_def publisher_init_def pub_defs)
  have "pub_step\<^sup>*\<^sup>* ?p ?q"
    by (rule r_into_rtranclp) (rule pub_step.p_final[OF m(1)])
  moreover have "pb_main ?q = M_done" by (simp add: shutdown_post_def)
  ultimately show ?thesis
    using lobby_offline_last[OF idle_shutdown_reach m(1,2)] m(3) by simp
qed

text \<open>
  Remark (lobby, late online POST): the join of \<open>shutdown\<close> has a timeout, so a worker still
  inside a POST can deliver an online payload after the offline one: the last POST of a
  finished shutdown may announce the server as online.
\<close>

theorem lobby_online_after_offline:
  "\<exists>p. pub_reach p \<and> pb_main p = M_done \<and> pb_posts p \<noteq> [] \<and>
     lp_status (last (pb_posts p)) = ''online'' \<and> (\<exists>pl\<in>set (pb_posts p). lp_status pl = ''offline'')"
proof -

  let ?p1 = "update 1 fresh"
  let ?p2 = "worker_check ?p1"
  let ?p3 = "shutdown_begin ?p2"
  let ?p4 = "shutdown_join (pb_payload ?p3) ?p3"
  let ?p5 = "shutdown_post Post_ok (pb_payload ?p3) ?p4"
  let ?p6 = "worker_post Post_ok (pb_payload ?p1) ?p5"
  note ev = publisher_init_def pub_defs
  have "pub_reach fresh" by (rule pub_reach_init)
  then have "pub_reach ?p1" by (rule reach.reach_step) (rule pub_step.p_update, simp add: ev)
  then have "pub_reach ?p2"
    by (rule reach.reach_step) (intro pub_step.p_worker worker_step.w_check, simp add: ev)
  then have "pub_reach ?p3" by (rule reach.reach_step) (rule pub_step.p_shutdown, simp add: ev)
  then have "pub_reach ?p4" by (rule reach.reach_step) (rule pub_step.p_join, simp add: ev)
  then have "pub_reach ?p5" by (rule reach.reach_step) (rule pub_step.p_final, simp add: ev)
  then have "pub_reach ?p6"
    by (rule reach.reach_step) (intro pub_step.p_worker worker_step.w_post, simp add: ev)
  then show ?thesis by (rule exI[of _ ?p6, OF conjI]) (simp add: ev)
qed

text \<open>
  C26 (lobby, dead worker): a POST that raises something other than an OSError ends the worker
  thread; from then on no update is ever published while the server runs.
\<close>

theorem lobby_worker_killed:
  assumes "pb_worker p = W_post pl" "\<not> pb_stopping p" "pub_step\<^sup>*\<^sup>* (worker_post Post_other pl p) q"
    "pb_main q = M_running"
  shows "pb_posts q = pb_posts p @ [pl]"
proof -
  have "pb_worker (worker_post Post_other pl p) = W_exit" by (simp add: pub_defs)
  from exit_run[OF assms(3) this] assms(4) show ?thesis by (simp add: pub_defs)
qed

theorem lobby_worker_killed_witness:
  "lp_curplayers (last (pb_posts (update 7 (worker_post Post_other
      (pb_payload (update 1 fresh))
      (worker_check (update 1 fresh)))))) = 1"
proof -
  let ?p1 = "update 1 fresh"
  let ?p = "worker_check ?p1"
  let ?k = "worker_post Post_other (pb_payload ?p1) ?p"
  note ev = publisher_init_def pub_defs
  have "pub_step\<^sup>*\<^sup>* ?k (update 7 ?k)"
    by (rule r_into_rtranclp) (rule pub_step.p_update, simp add: ev)
  then have "pb_posts (update 7 ?k) = pb_posts ?p @ [pb_payload ?p1]"
    by (intro lobby_worker_killed) (simp_all add: ev)
  then show ?thesis by (simp add: ev)
qed

end
