(* ===== verification/Relay_State.thy ===== *)
theory Relay_State
  imports Wire Lobby
begin

text \<open>
  The state of the relay server (classes Room, Client and Server of
  server/intv_relay_server.py).  Client and Room objects are shared and mutated through
  references, so they live in two stores indexed by object identity (\<open>cid\<close>, \<open>rid\<close>);
  the counters \<open>sv_next_cid\<close> and \<open>sv_next_rid\<close> are the first unused identities.
  Of a socket the model keeps the bytes the kernel accepted (\<open>cl_wire\<close>) and whether it
  was closed; the results of the \<open>send\<close> calls still to come are the list
  \<open>sv_sends\<close>, chosen by the environment (an exhausted list means BlockingIOError), and
  the values of \<open>random.randrange\<close> still to come are \<open>sv_rands\<close>.
  An operation returns an \<open>outcome\<close>: the new state, or an exception together with the
  state at the raise, because Python does not roll back.
\<close>

section \<open>Data\<close>

type_synonym cid = nat
type_synonym rid = nat

datatype reason =
    Replaced
  | Backlog_exceeded
  | Send_error
  | Send_returned_0
  | No_hello
  | Recv_error
  | Peer_closed
  | Bad_frame_length byte
  | Bye
  | Protocol_violation protocol_error
  | Internal_error

datatype logmsg =
    Log_reject_full nat
  | Log_reject_ip nat
  | Log_connect string nat
  | Log_drop cid reason
  | Log_match_ended nat cid nat
  | Log_back_to_lobby cid
  | Log_dissolved rid
  | Log_rename cid string
  | Log_hello cid
  | Log_join cid rid
  | Log_match_started rid nat nat
  | Log_crc_mismatch nat "(nat \<times> nat) list"
  | Log_crc_ok nat nat
  | Log_stats nat nat
  | Log_unexpected cid exn

datatype send_result = Sent nat | Send_blocks | Send_fails

record client =
  cl_addr :: "string \<times> nat"
  cl_wire :: "byte list"
  cl_closed :: bool
  cl_rx :: "byte list"
  cl_tx :: "byte list"
  cl_name :: "string option"
  cl_room :: "rid option"
  cl_connected_at :: time
  cl_dead :: bool

record room =
  rm_members :: "cid list"
  rm_started :: bool
  rm_seed :: nat
  rm_crc :: "(nat \<times> (nat \<times> nat) list) list"
  rm_crc_ok :: nat

record stats =
  st_tx_backlog_drops :: nat
  st_hello_timeouts :: nat
  st_connection_limit_rejections :: nat

record server =
  sv_sel :: "cid \<Rightarrow> bool option"
  sv_port :: nat
  sv_delay :: int
  sv_auto_go :: int
  sv_by_name :: "(string \<times> cid) list"
  sv_lobby :: "publisher option"
  sv_clients :: "cid list"
  sv_stats :: stats
  sv_last_stats :: "stats \<times> nat"
  sv_client :: "cid \<Rightarrow> client"
  sv_room :: "rid \<Rightarrow> room"
  sv_next_cid :: cid
  sv_next_rid :: rid
  sv_sends :: "send_result list"
  sv_rands :: "nat list"
  sv_log :: "logmsg list"

definition Room_init :: "cid \<Rightarrow> room" where
  "Room_init host = \<lparr>rm_members = [host], rm_started = False, rm_seed = 0, rm_crc = [], rm_crc_ok = 0\<rparr>"

definition Client_init :: "string \<times> nat \<Rightarrow> time \<Rightarrow> client" where
  "Client_init addr now =
     \<lparr>cl_addr = addr, cl_wire = [], cl_closed = False, cl_rx = [], cl_tx = [], cl_name = None,
      cl_room = None, cl_connected_at = now, cl_dead = False\<rparr>"

definition no_stats :: stats where
  "no_stats = \<lparr>st_tx_backlog_drops = 0, st_hello_timeouts = 0, st_connection_limit_rejections = 0\<rparr>"

text \<open>
  The unused cells of the stores hold placeholder objects: a dead client and an empty room.
\<close>

definition Server_init ::
    "nat \<Rightarrow> int \<Rightarrow> publisher option \<Rightarrow> int \<Rightarrow> send_result list \<Rightarrow> nat list \<Rightarrow> server" where
  "Server_init port delay lobby auto_go sends rands =
     \<lparr>sv_sel = (\<lambda>_. None), sv_port = port, sv_delay = delay, sv_auto_go = auto_go,
      sv_by_name = [], sv_lobby = lobby, sv_clients = [],
      sv_stats = no_stats, sv_last_stats = (no_stats, 0),
      sv_client = (\<lambda>_. (Client_init ('''', 0) 0)\<lparr>cl_dead := True\<rparr>),
      sv_room = (\<lambda>_. (Room_init 0)\<lparr>rm_members := []\<rparr>),
      sv_next_cid = 0, sv_next_rid = 0, sv_sends = sends, sv_rands = rands, sv_log = []\<rparr>"

section \<open>Store access\<close>

abbreviation client_of :: "server \<Rightarrow> cid \<Rightarrow> client" where
  "client_of s c \<equiv> sv_client s c"

abbreviation room_of :: "server \<Rightarrow> rid \<Rightarrow> room" where
  "room_of s r \<equiv> sv_room s r"

abbreviation members :: "server \<Rightarrow> rid \<Rightarrow> cid list" where
  "members s r \<equiv> rm_members (sv_room s r)"

definition upd_client :: "cid \<Rightarrow> (client \<Rightarrow> client) \<Rightarrow> server \<Rightarrow> server" where
  "upd_client c f s = s\<lparr>sv_client := (sv_client s)(c := f (sv_client s c))\<rparr>"

definition upd_room :: "rid \<Rightarrow> (room \<Rightarrow> room) \<Rightarrow> server \<Rightarrow> server" where
  "upd_room r f s = s\<lparr>sv_room := (sv_room s)(r := f (sv_room s r))\<rparr>"

definition add_log :: "logmsg \<Rightarrow> server \<Rightarrow> server" where
  "add_log m s = s\<lparr>sv_log := sv_log s @ [m]\<rparr>"

lemma upd_client_sel [simp]:
  "sv_client (upd_client c f s) c' = (if c' = c then f (sv_client s c) else sv_client s c')"
  "sv_room (upd_client c f s) = sv_room s"
  "sv_sel (upd_client c f s) = sv_sel s"
  "sv_by_name (upd_client c f s) = sv_by_name s"
  "sv_clients (upd_client c f s) = sv_clients s"
  "sv_lobby (upd_client c f s) = sv_lobby s"
  "sv_next_cid (upd_client c f s) = sv_next_cid s"
  "sv_next_rid (upd_client c f s) = sv_next_rid s"
  "sv_sends (upd_client c f s) = sv_sends s"
  "sv_rands (upd_client c f s) = sv_rands s"
  "sv_stats (upd_client c f s) = sv_stats s"
  "sv_delay (upd_client c f s) = sv_delay s"
  "sv_auto_go (upd_client c f s) = sv_auto_go s"
  "sv_log (upd_client c f s) = sv_log s"
  by (simp_all add: upd_client_def)

lemma upd_room_sel [simp]:
  "sv_room (upd_room r g s) r' = (if r' = r then g (sv_room s r) else sv_room s r')"
  "sv_client (upd_room r g s) = sv_client s"
  "sv_sel (upd_room r g s) = sv_sel s"
  "sv_by_name (upd_room r g s) = sv_by_name s"
  "sv_clients (upd_room r g s) = sv_clients s"
  "sv_lobby (upd_room r g s) = sv_lobby s"
  "sv_next_cid (upd_room r g s) = sv_next_cid s"
  "sv_next_rid (upd_room r g s) = sv_next_rid s"
  "sv_sends (upd_room r g s) = sv_sends s"
  "sv_rands (upd_room r g s) = sv_rands s"
  "sv_stats (upd_room r g s) = sv_stats s"
  "sv_delay (upd_room r g s) = sv_delay s"
  "sv_auto_go (upd_room r g s) = sv_auto_go s"
  "sv_log (upd_room r g s) = sv_log s"
  by (simp_all add: upd_room_def)

lemma add_log_sel [simp]:
  "sv_room (add_log m s) = sv_room s"
  "sv_client (add_log m s) = sv_client s"
  "sv_sel (add_log m s) = sv_sel s"
  "sv_by_name (add_log m s) = sv_by_name s"
  "sv_clients (add_log m s) = sv_clients s"
  "sv_lobby (add_log m s) = sv_lobby s"
  "sv_next_cid (add_log m s) = sv_next_cid s"
  "sv_next_rid (add_log m s) = sv_next_rid s"
  "sv_sends (add_log m s) = sv_sends s"
  "sv_rands (add_log m s) = sv_rands s"
  "sv_stats (add_log m s) = sv_stats s"
  "sv_delay (add_log m s) = sv_delay s"
  "sv_auto_go (add_log m s) = sv_auto_go s"
  "sv_log (add_log m s) = sv_log s @ [m]"
  by (simp_all add: add_log_def)

definition lobby_update :: "server \<Rightarrow> server" where
  "lobby_update s =
     (case sv_lobby s of
        None \<Rightarrow> s
      | Some p \<Rightarrow> s\<lparr>sv_lobby := Some (update (length (sv_by_name s)) p)\<rparr>)"

lemma lobby_update_sel [simp]:
  "sv_room (lobby_update s) = sv_room s"
  "sv_client (lobby_update s) = sv_client s"
  "sv_sel (lobby_update s) = sv_sel s"
  "sv_by_name (lobby_update s) = sv_by_name s"
  "sv_clients (lobby_update s) = sv_clients s"
  "sv_next_cid (lobby_update s) = sv_next_cid s"
  "sv_next_rid (lobby_update s) = sv_next_rid s"
  "sv_sends (lobby_update s) = sv_sends s"
  "sv_rands (lobby_update s) = sv_rands s"
  "sv_stats (lobby_update s) = sv_stats s"
  "sv_delay (lobby_update s) = sv_delay s"
  "sv_auto_go (lobby_update s) = sv_auto_go s"
  "sv_log (lobby_update s) = sv_log s"
  by (simp_all add: lobby_update_def split: option.splits)

text \<open>The publisher is changed by calls of its \<open>update\<close> and in no other way.\<close>

definition published :: "publisher option \<Rightarrow> publisher option \<Rightarrow> bool" where
  "published a b \<longleftrightarrow>
     (case a of None \<Rightarrow> b = None | Some p \<Rightarrow> \<exists>q. b = Some q \<and> (\<lambda>p q. \<exists>n. q = update n p)\<^sup>*\<^sup>* p q)"

lemma published_refl [simp]: "published a a"
  by (simp add: published_def split: option.split)

lemma published_trans: "published a b \<Longrightarrow> published b d \<Longrightarrow> published a d"
  by (auto simp: published_def split: option.splits)

lemma published_lobby_update [simp]: "published a (sv_lobby s) \<Longrightarrow> published a (sv_lobby (lobby_update s))"
  by (auto simp: published_def lobby_update_def split: option.splits intro: rtranclp.rtrancl_into_rtrancl)

section \<open>Properties of Client and Room objects\<close>

definition seat :: "server \<Rightarrow> cid \<Rightarrow> (exn + nat) option" where
  "seat s c = (case cl_room (client_of s c) of
      None \<Rightarrow> None
    | Some r \<Rightarrow> Some (case py_index c (members s r) of None \<Rightarrow> Inl ValueError | Some i \<Rightarrow> Inr i))"

definition solo :: "server \<Rightarrow> cid \<Rightarrow> bool" where
  "solo s c \<longleftrightarrow> cl_name (client_of s c) \<noteq> None \<and> cl_room (client_of s c) = None"

definition roster :: "server \<Rightarrow> rid \<Rightarrow> exn + byte list" where
  "roster s r =
     (case sum_map (\<lambda>m. pad_name (cl_name (client_of s m))) (members s r) of
        Inl e \<Rightarrow> Inl e
      | Inr pads \<Rightarrow> Inr (concat pads @ replicate (8 * (ROSTER_SLOTS - length (members s r))) 0))"

section \<open>Outcomes\<close>

datatype outcome = Ok server | Raise exn server

fun final :: "outcome \<Rightarrow> server" where
  "final (Ok s) = s"
| "final (Raise e s) = s"

fun andthen :: "outcome \<Rightarrow> (server \<Rightarrow> outcome) \<Rightarrow> outcome" where
  "andthen (Ok s) f = f s"
| "andthen (Raise e s) f = Raise e s"

fun attempt :: "exn + 'a \<Rightarrow> server \<Rightarrow> ('a \<Rightarrow> outcome) \<Rightarrow> outcome" where
  "attempt (Inl e) s f = Raise e s"
| "attempt (Inr v) s f = f v"

lemma andthen_Ok_iff: "andthen o1 f = Ok s' \<longleftrightarrow> (\<exists>s. o1 = Ok s \<and> f s = Ok s')"
  by (cases o1) auto

lemma attempt_Ok_iff: "attempt v s f = Ok s' \<longleftrightarrow> (\<exists>x. v = Inr x \<and> f x = Ok s')"
  by (cases v) auto

lemma andthen_cong: "(\<And>t. o1 = Ok t \<Longrightarrow> f t = g t) \<Longrightarrow> andthen o1 f = andthen o1 g"
  by (cases o1) auto

lemma attempt_cong: "(\<And>x. v = Inr x \<Longrightarrow> f x = g x) \<Longrightarrow> attempt v s f = attempt v s g"
  by (cases v) auto

lemma andthen_assoc: "andthen (andthen o1 f) g = andthen o1 (\<lambda>s. andthen (f s) g)"
  by (cases o1) auto

lemma andthen_Ok [simp]: "andthen o1 Ok = o1"
  by (cases o1) auto

end
