(* ===== verification/Relay_Core.thy ===== *)
theory Relay_Core
  imports Relay_State
begin

text \<open>
  The connection plumbing of the relay server (server/intv_relay_server.py, lines 206-318):
  \<open>send\<close>, \<open>flush\<close>, \<open>_update_events\<close>, \<open>room_broadcast\<close>,
  \<open>dissolve\<close> and \<open>drop\<close>.  These call each other: a failed write drops the client,
  dropping a client notifies its room, and notifying is writing again.  The operations that
  write take the drop they call as a parameter (suffix \<open>_with\<close>), and
  \<open>drop_client d\<close> ties the knot with a bound \<open>d\<close> on the nesting of drops: at 0 a
  drop of a live client raises RecursionError, as Python would when its stack is exhausted.
  The contract of a drop is the locale \<open>dropper\<close>; every law of the writing operations is
  proved once against it, and \<open>drop_client\<close> is shown to meet it at every depth.
\<close>

section \<open>Writing\<close>

text \<open>
  The loop of \<open>flush\<close>: repeated \<open>sock.send(client.tx)\<close>.  The result of the loop is
  the remaining script, the unsent bytes, the bytes accepted so far, and the reason for a drop.
\<close>

fun send_loop :: "send_result list \<Rightarrow> byte list \<Rightarrow> byte list \<Rightarrow>
    send_result list \<times> byte list \<times> byte list \<times> reason option" where
  "send_loop script [] wire = (script, [], wire, None)"
| "send_loop [] tx wire = ([], tx, wire, None)"
| "send_loop (Send_blocks # script) tx wire = (script, tx, wire, None)"
| "send_loop (Send_fails # script) tx wire = (script, tx, wire, Some Send_error)"
| "send_loop (Sent n # script) tx wire =
     (if n = 0 then (script, tx, wire, Some Send_returned_0)
      else let k = min n (length tx) in send_loop script (List.drop k tx) (wire @ take k tx))"

definition update_events :: "cid \<Rightarrow> server \<Rightarrow> server" where
  "update_events c s =
     (if sv_sel s c = None then s
      else s\<lparr>sv_sel := (sv_sel s)(c := Some (cl_tx (client_of s c) \<noteq> []))\<rparr>)"

type_synonym drop_op = "cid \<Rightarrow> reason \<Rightarrow> server \<Rightarrow> outcome"

definition flush_with :: "drop_op \<Rightarrow> cid \<Rightarrow> server \<Rightarrow> outcome" where
  "flush_with drp c s =
     (case send_loop (sv_sends s) (cl_tx (client_of s c)) (cl_wire (client_of s c)) of
        (script, tx, wire, verdict) \<Rightarrow>
          let s1 = upd_client c (\<lambda>x. x\<lparr>cl_tx := tx, cl_wire := wire\<rparr>) (s\<lparr>sv_sends := script\<rparr>) in
          case verdict of
            Some why \<Rightarrow> drp c why s1
          | None \<Rightarrow> Ok (update_events c s1))"

definition send_with :: "drop_op \<Rightarrow> cid \<Rightarrow> byte list \<Rightarrow> server \<Rightarrow> outcome" where
  "send_with drp c data s =
     (if cl_dead (client_of s c) then Ok s
      else if length (cl_tx (client_of s c)) + length data > MAX_TX_BACKLOG then
        drp c Backlog_exceeded
          (s\<lparr>sv_stats := (sv_stats s)\<lparr>st_tx_backlog_drops := st_tx_backlog_drops (sv_stats s) + 1\<rparr>\<rparr>)
      else flush_with drp c (upd_client c (\<lambda>x. x\<lparr>cl_tx := cl_tx x @ data\<rparr>) s))"

text \<open>A loop over a list that was copied first: \<open>for m in xs: self.send(m, frame(...))\<close>.\<close>

fun send_each :: "drop_op \<Rightarrow> cid list \<Rightarrow> exn + byte list \<Rightarrow> server \<Rightarrow> outcome" where
  "send_each drp [] fr s = Ok s"
| "send_each drp (m # ms) fr s =
     attempt fr s (\<lambda>data. andthen (send_with drp m data s) (send_each drp ms fr))"

text \<open>
  A loop over the live list \<open>room.members\<close>: Python's list iterator keeps an index and
  compares it with the length the list has now, so members removed by the body shift the rest.
  The first argument bounds the iterations; the callers pass the length of the list, which
  never grows during a loop (\<open>live_loop_done\<close> below).
\<close>

fun live_loop :: "nat \<Rightarrow> nat \<Rightarrow> rid \<Rightarrow> (nat \<Rightarrow> cid \<Rightarrow> server \<Rightarrow> outcome) \<Rightarrow> server \<Rightarrow> outcome" where
  "live_loop 0 i r body s = Ok s"
| "live_loop (Suc n) i r body s =
     (if i < length (members s r)
      then andthen (body i (members s r ! i) s) (live_loop n (Suc i) r body)
      else Ok s)"

definition room_broadcast_with :: "drop_op \<Rightarrow> rid \<Rightarrow> server \<Rightarrow> outcome" where
  "room_broadcast_with drp r s =
     attempt (to_bytes [int (length (members s r))]) s (\<lambda>count.
     attempt (roster s r) s (\<lambda>names.
       live_loop (length (members s r)) 0 r
         (\<lambda>i m s. attempt (frame T_ROOM (count @ names)) s (\<lambda>data. send_with drp m data s)) s))"

definition dissolve_with :: "drop_op \<Rightarrow> rid \<Rightarrow> cid list \<Rightarrow> server \<Rightarrow> outcome" where
  "dissolve_with drp r to_notify s =
     (let s1 = fold (\<lambda>m. upd_client m (\<lambda>x. x\<lparr>cl_room := None\<rparr>)) (members s r) s in
      andthen (send_each drp to_notify (frame T_ROOM ([0] @ replicate 32 0)) s1)
        (\<lambda>s2. Ok (upd_room r (\<lambda>x. x\<lparr>rm_members := []\<rparr>) s2)))"

section \<open>Dropping\<close>

definition stale_names :: "cid \<Rightarrow> server \<Rightarrow> string list" where
  "stale_names c s = map fst (filter (\<lambda>(n, c'). c' = c) (sv_by_name s))"

text \<open>The first half of \<open>drop\<close>: everything up to the room (lines 273-290).\<close>

definition unlink :: "cid \<Rightarrow> reason \<Rightarrow> server \<Rightarrow> server" where
  "unlink c why s =
     (let s1 = add_log (Log_drop c why) (upd_client c (\<lambda>x. x\<lparr>cl_dead := True\<rparr>) s);
          s2 = upd_client c (\<lambda>x. x\<lparr>cl_closed := True\<rparr>) (s1\<lparr>sv_sel := (sv_sel s1)(c := None)\<rparr>);
          s3 = s2\<lparr>sv_clients := removeAll c (sv_clients s2)\<rparr>;
          stale = stale_names c s3;
          s4 = s3\<lparr>sv_by_name := fold AList.delete stale (sv_by_name s3)\<rparr>
      in if stale \<noteq> [] then lobby_update s4 else s4)"

text \<open>The three ways a room reacts to a leaver (lines 297-317).\<close>

fun send_peer_left :: "drop_op \<Rightarrow> cid list \<Rightarrow> byte list \<Rightarrow> server \<Rightarrow> outcome" where
  "send_peer_left drp [] pl s = Ok s"
| "send_peer_left drp (m # ms) pl s =
     andthen (send_with drp m pl s)
       (\<lambda>s. send_peer_left drp ms pl (add_log (Log_back_to_lobby m) s))"

definition leave_started_with :: "drop_op \<Rightarrow> cid \<Rightarrow> rid \<Rightarrow> nat \<Rightarrow> server \<Rightarrow> outcome" where
  "leave_started_with drp c r st s =
     (let s1 = add_log (Log_match_ended (rm_crc_ok (room_of s r)) c st) s in
      attempt (to_bytes [int st]) s1 (\<lambda>b.
      attempt (pad_name (cl_name (client_of s1 c))) s1 (\<lambda>nm.
      attempt (frame T_PEER_LEFT (b @ nm)) s1 (\<lambda>pl.
        let survivors = members s1 r in
        andthen (dissolve_with drp r [] s1) (send_peer_left drp survivors pl)))))"

definition leave_forming_with :: "drop_op \<Rightarrow> rid \<Rightarrow> nat \<Rightarrow> server \<Rightarrow> outcome" where
  "leave_forming_with drp r st s =
     (if st = 0 then dissolve_with drp r (members s r) (add_log (Log_dissolved r) s)
      else if length (members s r) < 2 then dissolve_with drp r (members s r) s
      else room_broadcast_with drp r s)"

definition leave_room_with :: "drop_op \<Rightarrow> cid \<Rightarrow> rid \<Rightarrow> nat \<Rightarrow> server \<Rightarrow> outcome" where
  "leave_room_with drp c r st s =
     (let s1 = upd_client c (\<lambda>x. x\<lparr>cl_room := None\<rparr>) s;
          s2 = upd_room r (\<lambda>x. x\<lparr>rm_members := remove1 c (rm_members x)\<rparr>) s1
      in andthen (if rm_started (room_of s2 r) then leave_started_with drp c r st s2
                  else leave_forming_with drp r st s2)
           (\<lambda>s3. Ok (lobby_update s3)))"

fun drop_client :: "nat \<Rightarrow> drop_op" where
  "drop_client 0 c why s =
     (if cl_dead (client_of s c) then Ok s else Raise RecursionError s)"
| "drop_client (Suc d) c why s =
     (if cl_dead (client_of s c) then Ok s
      else let s1 = unlink c why s in
        case seat s1 c of
          None \<Rightarrow> Ok s1
        | Some (Inl e) \<Rightarrow> Raise e s1
        | Some (Inr st) \<Rightarrow> leave_room_with (drop_client d) c (the (cl_room (client_of s1 c))) st s1)"

text \<open>
  The operations the rest of the server calls.  \<open>DEPTH\<close> is a bound on nested drops; any
  bound of at least 2 gives the same results (\<open>drop_client_depth\<close> below).
\<close>

definition DEPTH :: nat where "DEPTH = 8"

definition drop :: drop_op where "drop = drop_client DEPTH"
definition send :: "cid \<Rightarrow> byte list \<Rightarrow> server \<Rightarrow> outcome" where "send = send_with drop"
definition flush :: "cid \<Rightarrow> server \<Rightarrow> outcome" where "flush = flush_with drop"
definition room_broadcast :: "rid \<Rightarrow> server \<Rightarrow> outcome" where
  "room_broadcast = room_broadcast_with drop"
definition dissolve :: "rid \<Rightarrow> cid list \<Rightarrow> server \<Rightarrow> outcome" where
  "dissolve = dissolve_with drop"

section \<open>How the plumbing moves the state\<close>

text \<open>
  The bytes ever handed over for a client: those the kernel accepted, then those still queued.
\<close>

definition stream :: "server \<Rightarrow> cid \<Rightarrow> byte list" where
  "stream s c = cl_wire (client_of s c) @ cl_tx (client_of s c)"

definition is_frame :: "byte list \<Rightarrow> bool" where
  "is_frame f \<longleftrightarrow> (\<exists>t p. frame t p = Inr f)"

definition framed_ext :: "byte list \<Rightarrow> byte list \<Rightarrow> bool" where
  "framed_ext xs ys \<longleftrightarrow> (\<exists>fs. list_all is_frame fs \<and> ys = xs @ concat fs)"

lemma framed_ext_refl [simp, intro]: "framed_ext xs xs"
  unfolding framed_ext_def by (rule exI [where x = "[]"]) simp

lemma framed_ext_trans: "framed_ext xs ys \<Longrightarrow> framed_ext ys zs \<Longrightarrow> framed_ext xs zs"
  unfolding framed_ext_def by (metis append_assoc concat_append list_all_append)

lemma framed_ext_frame: "is_frame f \<Longrightarrow> framed_ext xs (xs @ f)"
  unfolding framed_ext_def by (rule exI [where x = "[f]"]) simp

text \<open>
  What sending and dropping may do to one client and to one room, and to the whole server.
  Nothing is revived, renamed, reseated or re-read; rooms only lose members; a client's byte
  stream only grows, by whole frames.
\<close>

definition client_evolves :: "client \<Rightarrow> client \<Rightarrow> bool" where
  "client_evolves x y \<longleftrightarrow>
     cl_addr y = cl_addr x \<and> cl_rx y = cl_rx x \<and> cl_name y = cl_name x \<and>
     cl_connected_at y = cl_connected_at x \<and>
     (cl_room y = cl_room x \<or> cl_room y = None) \<and>
     (cl_dead x \<longrightarrow> cl_dead y) \<and>
     (cl_dead x \<longrightarrow> cl_tx y = cl_tx x \<and> cl_wire y = cl_wire x) \<and>
     (\<exists>w. cl_wire y = cl_wire x @ w) \<and>
     framed_ext (cl_wire x @ cl_tx x) (cl_wire y @ cl_tx y)"

definition room_evolves :: "room \<Rightarrow> room \<Rightarrow> bool" where
  "room_evolves x y \<longleftrightarrow>
     set (rm_members y) \<subseteq> set (rm_members x) \<and> length (rm_members y) \<le> length (rm_members x) \<and>
     rm_started y = rm_started x \<and> rm_seed y = rm_seed x \<and> rm_crc y = rm_crc x \<and>
     rm_crc_ok y = rm_crc_ok x"

definition evolves :: "server \<Rightarrow> server \<Rightarrow> bool" where
  "evolves s t \<longleftrightarrow>
     (\<forall>c. client_evolves (client_of s c) (client_of t c)) \<and>
     (\<forall>r. room_evolves (room_of s r) (room_of t r)) \<and>
     sv_next_cid t = sv_next_cid s \<and> sv_next_rid t = sv_next_rid s \<and>
     sv_delay t = sv_delay s \<and> sv_auto_go t = sv_auto_go s \<and> sv_rands t = sv_rands s \<and>
     set (sv_clients t) \<subseteq> set (sv_clients s) \<and> set (sv_by_name t) \<subseteq> set (sv_by_name s) \<and>
     published (sv_lobby s) (sv_lobby t)"

lemma client_evolves_refl [simp]: "client_evolves x x"
  by (simp add: client_evolves_def)

lemma room_evolves_refl [simp]: "room_evolves x x"
  by (simp add: room_evolves_def)

lemma client_evolves_trans: "client_evolves x y \<Longrightarrow> client_evolves y z \<Longrightarrow> client_evolves x z"
  unfolding client_evolves_def by (auto intro: framed_ext_trans)

lemma room_evolves_trans: "room_evolves x y \<Longrightarrow> room_evolves y z \<Longrightarrow> room_evolves x z"
  unfolding room_evolves_def by auto

lemma evolves_refl [simp, intro]: "evolves s s"
  by (simp add: evolves_def)

lemma evolves_trans [trans]: "evolves s t \<Longrightarrow> evolves t u \<Longrightarrow> evolves s u"
  unfolding evolves_def by (auto intro: client_evolves_trans room_evolves_trans published_trans)

lemma evolvesD:
  assumes "evolves s t"
  shows "client_evolves (client_of s c) (client_of t c)" "room_evolves (room_of s r) (room_of t r)"
  using assms by (auto simp: evolves_def)

lemma evolves_roomless:
  "evolves s t \<Longrightarrow> cl_room (client_of s c) = None \<Longrightarrow> cl_room (client_of t c) = None"
  by (drule evolvesD(1) [where c = c]) (auto simp: client_evolves_def)

lemma evolves_dead: "evolves s t \<Longrightarrow> cl_dead (client_of s c) \<Longrightarrow> cl_dead (client_of t c)"
  by (drule evolvesD(1) [where c = c]) (auto simp: client_evolves_def)

lemma evolves_room:
  "evolves s t \<Longrightarrow> cl_room (client_of t c) = Some r \<Longrightarrow> cl_room (client_of s c) = Some r"
  by (drule evolvesD(1) [where c = c]) (auto simp: client_evolves_def)

lemma evolves_members_le: "evolves s t \<Longrightarrow> length (members t r) \<le> length (members s r)"
  by (drule evolvesD(2) [where r = r]) (auto simp: room_evolves_def)

lemma evolves_name: "evolves s t \<Longrightarrow> cl_name (client_of t c) = cl_name (client_of s c)"
  by (drule evolvesD(1) [where c = c]) (auto simp: client_evolves_def)

lemma evolves_rx: "evolves s t \<Longrightarrow> cl_rx (client_of t c) = cl_rx (client_of s c)"
  by (drule evolvesD(1) [where c = c]) (auto simp: client_evolves_def)

lemma evolves_andthen:
  "evolves s (final o1) \<Longrightarrow> (\<And>t. evolves s t \<Longrightarrow> evolves s (final (f t))) \<Longrightarrow>
   evolves s (final (andthen o1 f))"
  by (cases o1) auto

lemma evolves_attempt:
  "(\<And>x. v = Inr x \<Longrightarrow> evolves s (final (f x))) \<Longrightarrow> evolves s (final (attempt v s f))"
  by (cases v) auto

lemma evolves_upd_client:
  "client_evolves (client_of s c) (f (client_of s c)) \<Longrightarrow> evolves s (upd_client c f s)"
  by (simp add: evolves_def)

lemma evolves_upd_room:
  "room_evolves (room_of s r) (f (room_of s r)) \<Longrightarrow> evolves s (upd_room r f s)"
  by (simp add: evolves_def)

lemma evolves_add_log [simp]: "evolves s (add_log m s)"
  by (simp add: evolves_def)

lemma evolves_lobby_update [simp]: "evolves s (lobby_update s)"
  by (simp add: evolves_def)

lemma set_delete_subset: "set (AList.delete k d) \<subseteq> set d"
  by (auto simp: AList.delete_eq)

lemma set_fold_delete: "set (fold AList.delete ks d) \<subseteq> set d"
  by (induction ks arbitrary: d) (use set_delete_subset in fastforce)+

lemma unlink_sel [simp]:
  "sv_room (unlink c why s) = sv_room s"
  "sv_next_cid (unlink c why s) = sv_next_cid s"
  "sv_next_rid (unlink c why s) = sv_next_rid s"
  "sv_sends (unlink c why s) = sv_sends s"
  "sv_rands (unlink c why s) = sv_rands s"
  "sv_stats (unlink c why s) = sv_stats s"
  "sv_delay (unlink c why s) = sv_delay s"
  "sv_auto_go (unlink c why s) = sv_auto_go s"
  "sv_clients (unlink c why s) = removeAll c (sv_clients s)"
  "sv_sel (unlink c why s) = (sv_sel s)(c := None)"
  "sv_by_name (unlink c why s) = fold AList.delete (stale_names c s) (sv_by_name s)"
  by (auto simp: unlink_def Let_def stale_names_def)

lemma unlink_client [simp]:
  "client_of (unlink c why s) c' =
     (if c' = c then (client_of s c)\<lparr>cl_dead := True, cl_closed := True\<rparr> else client_of s c')"
  by (simp add: unlink_def Let_def)

lemma published_unlink [simp]: "published (sv_lobby s) (sv_lobby (unlink c why s))"
  by (simp add: unlink_def Let_def)

lemma evolves_unlink: "evolves s (unlink c why s)"
  using set_fold_delete by (auto simp: evolves_def client_evolves_def)

lemma send_loop_bytes:
  "send_loop script tx wire = (script', tx', wire', v) \<Longrightarrow> \<exists>w. wire' = wire @ w \<and> tx = w @ tx'"
proof (induction script tx wire arbitrary: script' tx' wire' v rule: send_loop.induct)
  case (5 n script b bs wire)
  show ?case
  proof (cases "n = 0")
    case False
    let ?k = "min n (length (b # bs))"
    from False "5.prems" have
      "send_loop script (List.drop ?k (b # bs)) (wire @ take ?k (b # bs)) = (script', tx', wire', v)"
      by (simp add: Let_def)
    from "5.IH"[OF False refl this] obtain w where
      "wire' = (wire @ take ?k (b # bs)) @ w" "List.drop ?k (b # bs) = w @ tx'"
      by blast
    then show ?thesis
      by (metis append_assoc append_take_drop_id)
  qed (use "5.prems" in simp)
qed auto

lemma update_events_sel [simp]:
  "sv_client (update_events c s) = sv_client s"
  "sv_room (update_events c s) = sv_room s"
  "sv_by_name (update_events c s) = sv_by_name s"
  "sv_clients (update_events c s) = sv_clients s"
  "sv_lobby (update_events c s) = sv_lobby s"
  "sv_next_cid (update_events c s) = sv_next_cid s"
  "sv_next_rid (update_events c s) = sv_next_rid s"
  "sv_sends (update_events c s) = sv_sends s"
  "sv_rands (update_events c s) = sv_rands s"
  "sv_stats (update_events c s) = sv_stats s"
  "sv_delay (update_events c s) = sv_delay s"
  "sv_auto_go (update_events c s) = sv_auto_go s"
  by (simp_all add: update_events_def)

lemma evolves_update_events [simp]: "evolves s (update_events c s)"
  by (simp add: evolves_def)

lemma evolves_fold_roomless:
  "evolves s (fold (\<lambda>m. upd_client m (\<lambda>x. x\<lparr>cl_room := None\<rparr>)) ms s)"
proof (induction ms arbitrary: s)
  case (Cons m ms)
  have "evolves s (upd_client m (\<lambda>x. x\<lparr>cl_room := None\<rparr>) s)"
    by (rule evolves_upd_client) (simp add: client_evolves_def)
  then show ?case using Cons by (auto intro: evolves_trans)
qed simp

lemma is_frame_frame: "frame t p = Inr f \<Longrightarrow> is_frame f"
  by (auto simp: is_frame_def)

text \<open>The state right before the queue of a live client is flushed, and right after the writes.\<close>

lemma evolves_queue:
  "\<not> cl_dead (client_of s c) \<Longrightarrow> is_frame data \<Longrightarrow>
   evolves s (upd_client c (\<lambda>x. x\<lparr>cl_tx := cl_tx x @ data\<rparr>) s)"
  using framed_ext_frame[of data "stream s c"]
  by (intro evolves_upd_client) (simp add: client_evolves_def stream_def)

lemma evolves_written:
  assumes "\<not> cl_dead (client_of s c)"
    and "send_loop (sv_sends s) (cl_tx (client_of s c)) (cl_wire (client_of s c)) = (script, tx, wire, v)"
  shows "evolves s (upd_client c (\<lambda>x. x\<lparr>cl_tx := tx, cl_wire := wire\<rparr>) (s\<lparr>sv_sends := script\<rparr>))"
  using send_loop_bytes[OF assms(2)] assms(1) by (auto simp: evolves_def client_evolves_def)

section \<open>The frame contract of a drop\<close>

locale evolving_dropper =
  fixes drp :: drop_op
  assumes drp_evolves: "evolves s (final (drp c why s))"
begin

lemma flush_evolves:
  assumes "\<not> cl_dead (client_of s c)"
  shows "evolves s (final (flush_with drp c s))"
proof -
  obtain script tx wire v where
    loop: "send_loop (sv_sends s) (cl_tx (client_of s c)) (cl_wire (client_of s c)) = (script, tx, wire, v)"
    by (metis prod_cases4)
  note written = evolves_written[OF assms loop]
  show ?thesis
    using drp_evolves evolves_trans[OF written] evolves_update_events
    by (auto simp: flush_with_def loop Let_def split: option.splits)
qed

lemma send_evolves: "is_frame data \<Longrightarrow> evolves s (final (send_with drp c data s))"
proof (cases "cl_dead (client_of s c)")
  case False
  assume f: "is_frame data"
  let ?q = "upd_client c (\<lambda>x. x\<lparr>cl_tx := cl_tx x @ data\<rparr>) s"
  have "evolves ?q (final (flush_with drp c ?q))"
    by (rule flush_evolves) (simp add: False)
  then have "evolves s (final (flush_with drp c ?q))"
    using evolves_queue[OF False f] by (rule evolves_trans[rotated])
  moreover have "evolves s (final (drp c why (s\<lparr>sv_stats := st\<rparr>)))" for why st
    using drp_evolves[of "s\<lparr>sv_stats := st\<rparr>"] by (simp add: evolves_def)
  ultimately show ?thesis
    by (simp add: send_with_def False)
qed (simp add: send_with_def)

lemma send_each_evolves:
  "(\<And>f. fr = Inr f \<Longrightarrow> is_frame f) \<Longrightarrow> evolves s (final (send_each drp ms fr s))"
proof (induction ms arbitrary: s)
  case (Cons m ms)
  have "evolves s t \<Longrightarrow> evolves s (final (send_each drp ms fr t))" for t
    using Cons.IH[OF Cons.prems] by (rule evolves_trans[rotated])
  then show ?case
    unfolding send_each.simps by (intro evolves_attempt evolves_andthen send_evolves Cons.prems)
qed simp

lemma live_loop_evolves:
  "(\<And>i m s. evolves s (final (body i m s))) \<Longrightarrow> evolves s (final (live_loop n i r body s))"
proof (induction n arbitrary: i s)
  case (Suc n)
  then show ?case by (auto intro!: evolves_andthen intro: evolves_trans)
qed simp

lemma room_broadcast_evolves: "evolves s (final (room_broadcast_with drp r s))"
  unfolding room_broadcast_with_def
  by (intro evolves_attempt live_loop_evolves send_evolves) (auto dest: is_frame_frame)

lemma dissolve_evolves: "evolves s (final (dissolve_with drp r ms s))"
  unfolding dissolve_with_def Let_def
proof (rule evolves_andthen)
  show "evolves s (final (send_each drp ms (frame T_ROOM ([0] @ replicate 32 0))
    (fold (\<lambda>m. upd_client m (\<lambda>x. x\<lparr>cl_room := None\<rparr>)) (members s r) s)))"
    by (rule evolves_trans[OF evolves_fold_roomless send_each_evolves]) (auto dest: is_frame_frame)
  show "evolves s t \<Longrightarrow> evolves s (final (Ok (upd_room r (\<lambda>x. x\<lparr>rm_members := []\<rparr>) t)))" for t
    using evolves_upd_room[of t r] by (auto simp: room_evolves_def intro: evolves_trans)
qed

lemma send_peer_left_evolves: "is_frame pl \<Longrightarrow> evolves s (final (send_peer_left drp ms pl s))"
proof (induction ms arbitrary: s)
  case (Cons m ms)
  have "evolves s t \<Longrightarrow> evolves s (final (send_peer_left drp ms pl (add_log (Log_back_to_lobby m) t)))" for t
    using Cons.IH[OF Cons.prems] evolves_add_log by (blast intro: evolves_trans)
  then show ?case
    unfolding send_peer_left.simps by (intro evolves_andthen send_evolves Cons.prems)
qed simp

lemma leave_started_evolves: "evolves s (final (leave_started_with drp c r st s))"
proof -
  let ?s1 = "add_log (Log_match_ended (rm_crc_ok (room_of s r)) c st) s"
  have "evolves ?s1 t \<Longrightarrow> is_frame pl \<Longrightarrow> evolves ?s1 (final (send_peer_left drp ms pl t))" for t pl ms
    using send_peer_left_evolves by (blast intro: evolves_trans)
  then have "evolves ?s1 (final (leave_started_with drp c r st s))"
    unfolding leave_started_with_def Let_def
    by (intro evolves_attempt evolves_andthen dissolve_evolves) (auto dest: is_frame_frame)
  with evolves_add_log show ?thesis by (rule evolves_trans)
qed

lemma leave_forming_evolves: "evolves s (final (leave_forming_with drp r st s))"
  unfolding leave_forming_with_def
  using dissolve_evolves room_broadcast_evolves evolves_trans[OF evolves_add_log dissolve_evolves]
  by simp

lemma leave_room_evolves: "evolves s (final (leave_room_with drp c r st s))"
proof -
  let ?s1 = "upd_client c (\<lambda>x. x\<lparr>cl_room := None\<rparr>) s"
  let ?s2 = "upd_room r (\<lambda>x. x\<lparr>rm_members := remove1 c (rm_members x)\<rparr>) ?s1"
  have "evolves s ?s1" by (rule evolves_upd_client) (simp add: client_evolves_def)
  moreover have "evolves ?s1 ?s2"
    using set_remove1_subset
    by (intro evolves_upd_room) (fastforce simp: room_evolves_def length_remove1)
  ultimately have s2: "evolves s ?s2" by (rule evolves_trans)
  show ?thesis
    unfolding leave_room_with_def Let_def
    by (intro evolves_andthen)
       (auto intro: evolves_trans[OF s2 leave_started_evolves] evolves_trans[OF s2 leave_forming_evolves]
         evolves_trans)
qed

end

lemma drop_client_evolving: "evolving_dropper (drop_client d)"
proof (induction d)
  case 0
  show ?case by unfold_locales simp
next
  case (Suc d)
  have "evolves s (final (drop_client (Suc d) c why s))" for s c why
    using evolves_unlink evolves_trans[OF evolves_unlink evolving_dropper.leave_room_evolves[OF Suc]]
    by (simp add: Let_def split: option.split sum.split)
  then show ?case by unfold_locales
qed

interpretation plumbing: evolving_dropper drop
  unfolding drop_def by (rule drop_client_evolving)

text \<open>A loop over a live member list that does not grow visits every index the list still has.\<close>

lemma live_loop_done:
  assumes "\<And>i m s. evolves s (final (body i m s))" and "length (members s r) \<le> i + n"
    and "length (members s r) \<le> i + k"
  shows "live_loop n i r body s = live_loop k i r body s"
  using assms(2,3)
proof (induction n arbitrary: i s k)
  case 0
  then show ?case by (cases k) auto
next
  case (Suc n)
  show ?case
  proof (cases k)
    case 0
    with Suc.prems show ?thesis by simp
  next
    case (Suc k')
    have "live_loop n (Suc i) r body t = live_loop k' (Suc i) r body t"
      if "body i (members s r ! i) s = Ok t" for t
      using Suc.IH[of t "Suc i" k'] assms(1)[of s i "members s r ! i"] Suc.prems Suc
        evolves_members_le[of s t r] that by simp
    then have "andthen (body i (members s r ! i) s) (live_loop n (Suc i) r body) =
        andthen (body i (members s r ! i) s) (live_loop k' (Suc i) r body)"
      by (cases "body i (members s r ! i) s") auto
    then show ?thesis using Suc by simp
  qed
qed

end
