(* ===== verification/Relay_Inv.thy ===== *)
theory Relay_Inv
  imports Relay_Core
begin

text \<open>
  The invariant of the relay server and the contract of a drop that keeps it.  \<open>core\<close> holds
  at every point where one operation calls another; \<open>settled\<close> and \<open>events_ok\<close> are
  broken for a moment inside an operation, so they are stated with the rooms, respectively the
  clients, that are exempt.
\<close>

section \<open>The invariant\<close>

definition rooms_ok :: "server \<Rightarrow> bool" where
  "rooms_ok s \<longleftrightarrow>
     (\<forall>r. distinct (members s r) \<and> length (members s r) \<le> MAX_SEATS \<and>
          (\<forall>m\<in>set (members s r). cl_name (client_of s m) \<noteq> None \<and> m < sv_next_cid s) \<and>
          (members s r \<noteq> [] \<longrightarrow> r < sv_next_rid s)) \<and>
     (\<forall>c r. cl_room (client_of s c) = Some r \<longrightarrow> c \<in> set (members s r))"

definition names_ok :: "server \<Rightarrow> bool" where
  "names_ok s \<longleftrightarrow>
     distinct (map fst (sv_by_name s)) \<and>
     (\<forall>n c. (n, c) \<in> set (sv_by_name s) \<longrightarrow> cl_name (client_of s c) = Some n \<and> c < sv_next_cid s) \<and>
     (\<forall>c n. cl_name (client_of s c) = Some n \<longrightarrow> valid_name n)"

definition alive_named :: "server \<Rightarrow> bool" where
  "alive_named s \<longleftrightarrow>
     (\<forall>c n. \<not> cl_dead (client_of s c) \<longrightarrow> cl_name (client_of s c) = Some n \<longrightarrow>
            (n, c) \<in> set (sv_by_name s))"

definition conns_ok :: "server \<Rightarrow> bool" where
  "conns_ok s \<longleftrightarrow>
     distinct (sv_clients s) \<and>
     (\<forall>c. cl_dead (client_of s c) \<longleftrightarrow> c \<notin> set (sv_clients s)) \<and>
     (\<forall>c. sv_sel s c = None \<longleftrightarrow> c \<notin> set (sv_clients s)) \<and>
     (\<forall>c\<in>set (sv_clients s). c < sv_next_cid s) \<and>
     (\<forall>c < sv_next_cid s. cl_closed (client_of s c) = cl_dead (client_of s c))"

definition tx_ok :: "server \<Rightarrow> bool" where
  "tx_ok s \<longleftrightarrow> (\<forall>c. length (cl_tx (client_of s c)) \<le> MAX_TX_BACKLOG)"

definition lobby_ok :: "server \<Rightarrow> bool" where
  "lobby_ok s \<longleftrightarrow>
     (\<forall>p. sv_lobby s = Some p \<longrightarrow> \<not> pb_stopping p \<longrightarrow>
          lp_curplayers (pb_payload p) = length (sv_by_name s))"

definition core :: "server \<Rightarrow> bool" where
  "core s \<longleftrightarrow> rooms_ok s \<and> names_ok s \<and> alive_named s \<and> conns_ok s \<and> tx_ok s \<and> lobby_ok s"

text \<open>The selector waits for writability exactly of the clients with queued bytes.\<close>

definition events_ok :: "cid set \<Rightarrow> server \<Rightarrow> bool" where
  "events_ok X s \<longleftrightarrow>
     (\<forall>c w. c \<notin> X \<longrightarrow> sv_sel s c = Some w \<longrightarrow> (w \<longleftrightarrow> cl_tx (client_of s c) \<noteq> []))"

text \<open>Every room is empty or has exactly two members, and its members point back to it.\<close>

definition settled :: "rid set \<Rightarrow> server \<Rightarrow> bool" where
  "settled R s \<longleftrightarrow>
     (\<forall>r. r \<notin> R \<longrightarrow>
        (\<forall>m\<in>set (members s r). cl_room (client_of s m) = Some r) \<and>
        (members s r = [] \<or> length (members s r) = 2))"

definition good :: "rid set \<Rightarrow> server \<Rightarrow> bool" where
  "good R s \<longleftrightarrow> core s \<and> events_ok {} s \<and> settled R s"

definition clear_of :: "rid set \<Rightarrow> cid \<Rightarrow> server \<Rightarrow> bool" where
  "clear_of R c s \<longleftrightarrow> (\<forall>r\<in>R. cl_room (client_of s c) \<noteq> Some r)"

lemmas core_defs = core_def rooms_ok_def names_ok_def alive_named_def conns_ok_def tx_ok_def lobby_ok_def

lemma clear_of_empty [simp]: "clear_of {} c s"
  by (simp add: clear_of_def)

lemma clear_of_roomless: "cl_room (client_of s c) = None \<Longrightarrow> clear_of R c s"
  by (simp add: clear_of_def)

lemma clear_of_evolves: "evolves s t \<Longrightarrow> clear_of R c s \<Longrightarrow> clear_of R c t"
  unfolding clear_of_def by (blast dest: evolves_room)

section \<open>Updates that keep the invariant\<close>

lemma core_irrelevant [simp]:
  "core (s\<lparr>sv_sends := sc\<rparr>) = core s" "core (s\<lparr>sv_stats := st\<rparr>) = core s"
  "core (add_log m s) = core s" "core (s\<lparr>sv_rands := rs\<rparr>) = core s"
  by (simp_all add: core_defs)

lemma events_irrelevant [simp]:
  "events_ok X (s\<lparr>sv_sends := sc\<rparr>) = events_ok X s" "events_ok X (s\<lparr>sv_stats := st\<rparr>) = events_ok X s"
  "events_ok X (add_log m s) = events_ok X s" "events_ok X (lobby_update s) = events_ok X s"
  "events_ok X (upd_room r g s) = events_ok X s" "events_ok X (s\<lparr>sv_rands := rs\<rparr>) = events_ok X s"
  by (simp_all add: events_ok_def)

lemma settled_irrelevant [simp]:
  "settled R (s\<lparr>sv_sends := sc\<rparr>) = settled R s" "settled R (s\<lparr>sv_stats := st\<rparr>) = settled R s"
  "settled R (add_log m s) = settled R s" "settled R (lobby_update s) = settled R s"
  "settled R (update_events c s) = settled R s" "settled R (s\<lparr>sv_rands := rs\<rparr>) = settled R s"
  by (simp_all add: settled_def)

lemma good_irrelevant [simp]:
  "good R (add_log m s) = good R s" "good R (s\<lparr>sv_sends := sc\<rparr>) = good R s"
  "good R (s\<lparr>sv_stats := st\<rparr>) = good R s" "good R (s\<lparr>sv_rands := rs\<rparr>) = good R s"
  by (simp_all add: good_def)

lemma pieces_lobby_update [simp]:
  "rooms_ok (lobby_update s) = rooms_ok s" "names_ok (lobby_update s) = names_ok s"
  "alive_named (lobby_update s) = alive_named s" "conns_ok (lobby_update s) = conns_ok s"
  "tx_ok (lobby_update s) = tx_ok s"
  by (simp_all add: rooms_ok_def names_ok_def alive_named_def conns_ok_def tx_ok_def)

lemma lobby_ok_update [simp]: "lobby_ok (lobby_update s)"
  by (auto simp: lobby_ok_def lobby_update_def update_def notify_def split: option.splits)

lemma core_lobby_update: "core s \<Longrightarrow> core (lobby_update s)"
  by (simp add: core_def)

lemma good_lobby_update: "good R s \<Longrightarrow> good R (lobby_update s)"
  by (simp add: good_def core_lobby_update)

lemma pieces_update_events [simp]:
  "rooms_ok (update_events c s) = rooms_ok s" "names_ok (update_events c s) = names_ok s"
  "alive_named (update_events c s) = alive_named s"
  "tx_ok (update_events c s) = tx_ok s" "lobby_ok (update_events c s) = lobby_ok s"
  by (simp_all add: rooms_ok_def names_ok_def alive_named_def tx_ok_def lobby_ok_def)

lemma update_events_None [simp]: "sv_sel (update_events c s) c' = None \<longleftrightarrow> sv_sel s c' = None"
  by (simp add: update_events_def)

lemma conns_update_events [simp]: "conns_ok (update_events c s) = conns_ok s"
  by (simp add: conns_ok_def)

lemma core_update_events [simp]: "core (update_events c s) = core s"
  by (simp add: core_def)

text \<open>Fields of clients that an update of one client leaves alone.\<close>

lemma upd_client_keep:
  "(\<And>x. g (f x) = g x) \<Longrightarrow> g (client_of (upd_client c f s) c') = g (client_of s c')"
  by simp

lemma pieces_upd_client:
  assumes "\<And>x. cl_room (f x) = cl_room x" "\<And>x. cl_name (f x) = cl_name x"
    "\<And>x. cl_dead (f x) = cl_dead x" "\<And>x. cl_closed (f x) = cl_closed x"
  shows "rooms_ok (upd_client c f s) = rooms_ok s" "names_ok (upd_client c f s) = names_ok s"
    "alive_named (upd_client c f s) = alive_named s" "conns_ok (upd_client c f s) = conns_ok s"
    "lobby_ok (upd_client c f s) = lobby_ok s" "settled R (upd_client c f s) = settled R s"
    "clear_of R c' (upd_client c f s) = clear_of R c' s"
  unfolding rooms_ok_def names_ok_def alive_named_def conns_ok_def lobby_ok_def settled_def clear_of_def
  by (simp_all add: upd_client_keep assms del: upd_client_sel(1))

lemma core_upd_tx:
  assumes "core s" "length (cl_tx (f (client_of s c))) \<le> MAX_TX_BACKLOG"
    and "\<And>x. cl_room (f x) = cl_room x" "\<And>x. cl_name (f x) = cl_name x"
      "\<And>x. cl_dead (f x) = cl_dead x" "\<And>x. cl_closed (f x) = cl_closed x"
  shows "core (upd_client c f s)"
  using assms(1,2) by (simp add: core_def pieces_upd_client[OF assms(3-)]) (simp add: tx_ok_def)

lemma events_upd_client: "events_ok X s \<Longrightarrow> c \<in> X \<Longrightarrow> events_ok X (upd_client c f s)"
  by (auto simp: events_ok_def)

lemma events_mono: "events_ok X s \<Longrightarrow> X \<subseteq> Y \<Longrightarrow> events_ok Y s"
  by (auto simp: events_ok_def)

lemma events_update_events:
  assumes "events_ok {c} s"
  shows "events_ok {} (update_events c s)"
  unfolding events_ok_def
proof (intro allI impI)
  fix c' w assume "sv_sel (update_events c s) c' = Some w"
  with assms show "w \<longleftrightarrow> cl_tx (client_of (update_events c s) c') \<noteq> []"
    by (cases "c' = c") (auto simp: events_ok_def update_events_def split: if_splits)
qed

lemma send_loop_tx_le:
  "send_loop script tx wire = (script', tx', wire', v) \<Longrightarrow> length tx' \<le> length tx"
  using send_loop_bytes by fastforce

section \<open>The contract of a drop\<close>

locale good_dropper = evolving_dropper +
  assumes drp_good: "core s \<Longrightarrow> events_ok {c} s \<Longrightarrow> settled R s \<Longrightarrow> clear_of R c s \<Longrightarrow>
    drp c why s = Ok t \<Longrightarrow> good R t"
begin

lemma flush_good:
  assumes "core s" "events_ok {c} s" "settled R s" "clear_of R c s" "flush_with drp c s = Ok t"
  shows "good R t"
proof -
  obtain script tx wire v where
    loop: "send_loop (sv_sends s) (cl_tx (client_of s c)) (cl_wire (client_of s c)) = (script, tx, wire, v)"
    by (metis prod_cases4)
  let ?s1 = "upd_client c (\<lambda>x. x\<lparr>cl_tx := tx, cl_wire := wire\<rparr>) (s\<lparr>sv_sends := script\<rparr>)"
  have "length tx \<le> MAX_TX_BACKLOG"
    using send_loop_tx_le[OF loop] assms(1) by (auto simp: core_def tx_ok_def intro: le_trans)
  then have core1: "core ?s1"
    using assms(1) by (intro core_upd_tx) simp_all
  have ev1: "events_ok {c} ?s1"
    using assms(2) by (simp add: events_upd_client)
  have set1: "settled R ?s1"
    using assms(3) by (simp add: pieces_upd_client)
  have clr1: "clear_of R c ?s1"
    using assms(4) by (simp add: clear_of_def)
  show ?thesis
  proof (cases v)
    case None
    with assms(5) loop have "t = update_events c ?s1"
      by (simp add: flush_with_def Let_def)
    then show ?thesis
      using core1 set1 events_update_events[OF ev1] by (simp add: good_def)
  next
    case (Some why)
    with assms(5) loop have "drp c why ?s1 = Ok t"
      by (simp add: flush_with_def Let_def)
    then show ?thesis by (rule drp_good[OF core1 ev1 set1 clr1])
  qed
qed

lemma send_good:
  assumes "good R s" "clear_of R c s" "send_with drp c data s = Ok t"
  shows "good R t"
proof -
  let ?q = "upd_client c (\<lambda>x. x\<lparr>cl_tx := cl_tx x @ data\<rparr>) s"
  from assms(1) have co: "core s" and ev: "events_ok {} s" and se: "settled R s"
    by (auto simp: good_def)
  consider (dead) "cl_dead (client_of s c)"
    | (full) "\<not> cl_dead (client_of s c)" "length (cl_tx (client_of s c)) + length data > MAX_TX_BACKLOG"
    | (fits) "\<not> cl_dead (client_of s c)" "length (cl_tx (client_of s c)) + length data \<le> MAX_TX_BACKLOG"
    by linarith
  then show ?thesis
  proof cases
    case dead
    with assms show ?thesis by (simp add: send_with_def)
  next
    case full
    with assms(3) obtain st where "drp c Backlog_exceeded (s\<lparr>sv_stats := st\<rparr>) = Ok t"
      by (auto simp: send_with_def)
    then show ?thesis
      by (rule drp_good[rotated 4]) (use co ev se assms(2) events_mono in \<open>auto simp: clear_of_def\<close>)
  next
    case fits
    have "core ?q"
      using co fits by (intro core_upd_tx) simp_all
    moreover have "events_ok {c} ?q"
      using ev by (auto simp: events_ok_def)
    moreover have "settled R ?q"
      using se by (simp add: pieces_upd_client)
    moreover have "clear_of R c ?q"
      using assms(2) by (simp add: clear_of_def)
    moreover have "flush_with drp c ?q = Ok t"
      using fits assms(3) by (simp add: send_with_def)
    ultimately show ?thesis by (rule flush_good)
  qed
qed

lemma send_each_good:
  "good R s \<Longrightarrow> (\<And>f. fr = Inr f \<Longrightarrow> is_frame f) \<Longrightarrow> \<forall>m\<in>set ms. clear_of R m s \<Longrightarrow>
   send_each drp ms fr s = Ok t \<Longrightarrow> good R t"
proof (induction ms arbitrary: s)
  case (Cons m ms)
  from Cons.prems(4) obtain data u where
    d: "fr = Inr data" "send_with drp m data s = Ok u" "send_each drp ms fr u = Ok t"
    by (auto simp: attempt_Ok_iff andthen_Ok_iff)
  have "good R u" using Cons.prems d by (auto intro: send_good)
  moreover have "evolves s u"
    using send_evolves[of data s m] d Cons.prems(2) by simp
  ultimately show ?case
    using Cons d by (auto intro: clear_of_evolves)
qed simp

lemma send_peer_left_good:
  "good R s \<Longrightarrow> is_frame pl \<Longrightarrow> \<forall>m\<in>set ms. clear_of R m s \<Longrightarrow>
   send_peer_left drp ms pl s = Ok t \<Longrightarrow> good R t"
proof (induction ms arbitrary: s)
  case (Cons m ms)
  from Cons.prems(4) obtain u where
    d: "send_with drp m pl s = Ok u"
       "send_peer_left drp ms pl (add_log (Log_back_to_lobby m) u) = Ok t"
    by (auto simp: andthen_Ok_iff)
  have "good R u" using Cons.prems d by (auto intro: send_good)
  moreover have "evolves s u"
    using send_evolves[of pl s m] d Cons.prems(2) by simp
  moreover from \<open>evolves s u\<close> have "\<forall>m'\<in>set ms. clear_of R m' (add_log (Log_back_to_lobby m) u)"
    using Cons.prems(3) by (auto intro: clear_of_evolves evolves_trans[OF _ evolves_add_log])
  ultimately show ?case
    using Cons.IH[OF _ Cons.prems(2) _ d(2)] by simp
qed simp

lemma live_loop_good:
  assumes "\<And>i m s t. good R s \<Longrightarrow> m \<in> set (members s r) \<Longrightarrow> body i m s = Ok t \<Longrightarrow> good R t"
  shows "good R s \<Longrightarrow> live_loop n i r body s = Ok t \<Longrightarrow> good R t"
proof (induction n arbitrary: i s)
  case (Suc n)
  show ?case
  proof (cases "i < length (members s r)")
    case True
    with Suc.prems(2) obtain u where
      u: "body i (members s r ! i) s = Ok u" "live_loop n (Suc i) r body u = Ok t"
      by (auto simp: andthen_Ok_iff)
    with assms[OF Suc.prems(1) _ u(1)] True have "good R u" by simp
    then show ?thesis using u(2) by (rule Suc.IH)
  qed (use Suc.prems in simp)
qed simp

lemma room_broadcast_good:
  assumes "good R s" "r \<notin> R" "room_broadcast_with drp r s = Ok t"
  shows "good R t"
proof -
  have send: "good R u'" if "good R u" "m \<in> set (members u r)" "send_with drp m data u = Ok u'"
    for u u' m data
    using that assms(2)
    by (intro send_good[OF that(1) _ that(3)]) (auto simp: good_def settled_def clear_of_def)
  from assms(3) show ?thesis
    unfolding room_broadcast_with_def attempt_Ok_iff
    by (elim exE conjE, elim live_loop_good[rotated 2])
       (use assms(1) send in \<open>auto simp: attempt_Ok_iff\<close>)
qed

end

subsection \<open>Dissolving a room\<close>

abbreviation unseat :: "cid list \<Rightarrow> server \<Rightarrow> server" where
  "unseat ms s \<equiv> fold (\<lambda>m. upd_client m (\<lambda>x. x\<lparr>cl_room := None\<rparr>)) ms s"

lemma unseat_sel [simp]:
  "sv_room (unseat ms s) = sv_room s" "sv_sel (unseat ms s) = sv_sel s"
  "sv_by_name (unseat ms s) = sv_by_name s" "sv_clients (unseat ms s) = sv_clients s"
  "sv_lobby (unseat ms s) = sv_lobby s" "sv_next_cid (unseat ms s) = sv_next_cid s"
  "sv_next_rid (unseat ms s) = sv_next_rid s" "sv_sends (unseat ms s) = sv_sends s"
  "sv_log (unseat ms s) = sv_log s" "sv_stats (unseat ms s) = sv_stats s"
  by (induction ms arbitrary: s) simp_all

lemma unseat_client [simp]:
  "client_of (unseat ms s) c =
     (if c \<in> set ms then (client_of s c)\<lparr>cl_room := None\<rparr> else client_of s c)"
  by (induction ms arbitrary: s) auto

lemma unseat_keep:
  "(\<And>x. g (x\<lparr>cl_room := None\<rparr>) = g x) \<Longrightarrow> g (client_of (unseat ms s) c) = g (client_of s c)"
  by simp

lemma core_unseat: "core s \<Longrightarrow> core (unseat ms s)"
proof -
  assume "core s"
  then have r: "rooms_ok s" and "names_ok s" "alive_named s" "conns_ok s" "tx_ok s" "lobby_ok s"
    by (auto simp: core_def)
  moreover have "names_ok (unseat ms s) = names_ok s" "alive_named (unseat ms s) = alive_named s"
    "conns_ok (unseat ms s) = conns_ok s" "tx_ok (unseat ms s) = tx_ok s"
    "lobby_ok (unseat ms s) = lobby_ok s"
    by (simp_all add: names_ok_def alive_named_def conns_ok_def tx_ok_def lobby_ok_def unseat_keep
        del: unseat_client)
  moreover have "rooms_ok (unseat ms s)"
    using r unfolding rooms_ok_def
    by (simp add: unseat_keep[of cl_name] del: unseat_client) auto
  ultimately show ?thesis by (simp add: core_def)
qed

lemma events_unseat: "events_ok X (unseat ms s) = events_ok X s"
  by (simp add: events_ok_def unseat_keep[of cl_tx] del: unseat_client)

lemma settled_unseat:
  assumes "settled (insert r R) s" "\<forall>m\<in>set (members s r). cl_room (client_of s m) = Some r"
  shows "settled (insert r R) (unseat (members s r) s)"
  using assms unfolding settled_def by fastforce

lemma unseat_vacates:
  assumes "core s"
  shows "cl_room (client_of (unseat (members s r) s) c) \<noteq> Some r"
  using assms by (auto simp: core_def rooms_ok_def)

lemma pieces_upd_room [simp]:
  "names_ok (upd_room r g s) = names_ok s" "alive_named (upd_room r g s) = alive_named s"
  "conns_ok (upd_room r g s) = conns_ok s" "tx_ok (upd_room r g s) = tx_ok s"
  "lobby_ok (upd_room r g s) = lobby_ok s"
  by (simp_all add: names_ok_def alive_named_def conns_ok_def tx_ok_def lobby_ok_def)

lemma core_clear_room:
  assumes "core s" "\<And>c. cl_room (client_of s c) \<noteq> Some r"
  shows "core (upd_room r (\<lambda>x. x\<lparr>rm_members := []\<rparr>) s)"
proof -
  let ?t = "upd_room r (\<lambda>x. x\<lparr>rm_members := []\<rparr>) s"
  have "rooms_ok ?t"
    using assms by (simp add: core_def rooms_ok_def)
  then show ?thesis using assms(1) by (simp add: core_def)
qed

lemma settled_clear_room:
  "settled (insert r R) s \<Longrightarrow> settled R (upd_room r (\<lambda>x. x\<lparr>rm_members := []\<rparr>) s)"
  by (auto simp: settled_def)

context good_dropper
begin

lemma dissolve_good:
  assumes "core s" "events_ok {} s" "settled (insert r R) s"
    and pts: "\<forall>m\<in>set (members s r). cl_room (client_of s m) = Some r"
    and "set ms \<subseteq> set (members s r)" "dissolve_with drp r ms s = Ok t"
  shows "good R t"
proof -
  let ?s1 = "unseat (members s r) s"
  from assms(6) obtain u where
    u: "send_each drp ms (frame T_ROOM ([0] @ replicate 32 0)) ?s1 = Ok u"
    and t: "t = upd_room r (\<lambda>x. x\<lparr>rm_members := []\<rparr>) u"
    by (auto simp: dissolve_with_def Let_def andthen_Ok_iff)
  have g1: "good (insert r R) ?s1"
    using assms(1-3) pts by (simp add: good_def core_unseat events_unseat settled_unseat)
  have "good (insert r R) u"
    by (rule send_each_good[OF g1 _ _ u]) (use assms(5) in \<open>auto simp: clear_of_def dest: is_frame_frame\<close>)
  moreover have ev: "evolves ?s1 u"
    using send_each_evolves[of "frame T_ROOM ([0] @ replicate 32 0)" ?s1 ms] u
    by (auto dest: is_frame_frame)
  then have "cl_room (client_of u c) \<noteq> Some r" for c
    using unseat_vacates[OF assms(1)] evolves_room[OF ev] by blast
  ultimately show ?thesis
    by (simp add: t good_def core_clear_room settled_clear_room)
qed

lemma dissolve_roomless:
  assumes "m \<in> set (members s r)" "dissolve_with drp r ms s = Ok t"
  shows "cl_room (client_of t m) = None"
proof -
  let ?s1 = "unseat (members s r) s"
  from assms(2) obtain u where
    u: "send_each drp ms (frame T_ROOM ([0] @ replicate 32 0)) ?s1 = Ok u"
    and t: "t = upd_room r (\<lambda>x. x\<lparr>rm_members := []\<rparr>) u"
    by (auto simp: dissolve_with_def Let_def andthen_Ok_iff)
  have "evolves ?s1 u"
    using send_each_evolves[of "frame T_ROOM ([0] @ replicate 32 0)" ?s1 ms] u
    by (auto dest: is_frame_frame)
  moreover have "cl_room (client_of ?s1 m) = None" using assms(1) by simp
  ultimately have "cl_room (client_of u m) = None" by (rule evolves_roomless)
  then show ?thesis by (simp add: t)
qed

lemma leave_started_good:
  assumes "core s" "events_ok {} s" "settled (insert r R) s"
    and "\<forall>m\<in>set (members s r). cl_room (client_of s m) = Some r"
    and "leave_started_with drp c r st s = Ok t"
  shows "good R t"
proof -
  let ?s1 = "add_log (Log_match_ended (rm_crc_ok (room_of s r)) c st) s"
  from assms(5) obtain pl u bs where
    pl: "frame T_PEER_LEFT bs = Inr pl" and
    u: "dissolve_with drp r [] ?s1 = Ok u" "send_peer_left drp (members s r) pl u = Ok t"
    by (auto simp: leave_started_with_def Let_def attempt_Ok_iff andthen_Ok_iff)
  have "good R u"
    by (rule dissolve_good[OF _ _ _ _ _ u(1)]) (use assms in auto)
  moreover have "\<forall>m\<in>set (members s r). clear_of R m u"
    using dissolve_roomless[OF _ u(1)] by (auto intro: clear_of_roomless)
  ultimately show ?thesis
    using u(2) is_frame_frame[OF pl] by (blast intro: send_peer_left_good)
qed

end

subsection \<open>Leaving a room and being dropped\<close>

definition unseated :: "cid \<Rightarrow> rid \<Rightarrow> server \<Rightarrow> server" where
  "unseated c r s = upd_room r (\<lambda>x. x\<lparr>rm_members := remove1 c (rm_members x)\<rparr>)
                      (upd_client c (\<lambda>x. x\<lparr>cl_room := None\<rparr>) s)"

lemma unseated_sel [simp]:
  "members (unseated c r s) r' = (if r' = r then remove1 c (members s r) else members s r')"
  "rm_started (room_of (unseated c r s) r') = rm_started (room_of s r')"
  "rm_crc_ok (room_of (unseated c r s) r') = rm_crc_ok (room_of s r')"
  "client_of (unseated c r s) c' = (if c' = c then (client_of s c)\<lparr>cl_room := None\<rparr> else client_of s c')"
  "sv_sel (unseated c r s) = sv_sel s" "sv_by_name (unseated c r s) = sv_by_name s"
  "sv_clients (unseated c r s) = sv_clients s" "sv_lobby (unseated c r s) = sv_lobby s"
  "sv_next_cid (unseated c r s) = sv_next_cid s" "sv_next_rid (unseated c r s) = sv_next_rid s"
  "sv_sends (unseated c r s) = sv_sends s"
  by (simp_all add: unseated_def)

lemma leave_room_unseated:
  "leave_room_with drp c r st s =
     andthen (if rm_started (room_of s r) then leave_started_with drp c r st (unseated c r s)
              else leave_forming_with drp r st (unseated c r s))
       (\<lambda>s3. Ok (lobby_update s3))"
  by (simp add: leave_room_with_def unseated_def)

lemma unseated_keep:
  "(\<And>x. g (x\<lparr>cl_room := None\<rparr>) = g x) \<Longrightarrow> g (client_of (unseated c r s) c') = g (client_of s c')"
  by simp

lemma remove1_nonempty: "remove1 x xs \<noteq> [] \<Longrightarrow> xs \<noteq> []"
  by auto

lemma rooms_unseated:
  assumes "rooms_ok s" "cl_room (client_of s c) = Some r"
  shows "rooms_ok (unseated c r s)"
proof -
  have m: "distinct (members s r)" "length (members s r) \<le> MAX_SEATS"
    "members s r \<noteq> [] \<longrightarrow> r < sv_next_rid s"
    using assms(1) by (auto simp: rooms_ok_def)
  have "length (remove1 c (members s r)) \<le> MAX_SEATS"
    using m(2) by (auto simp: length_remove1)
  moreover have "remove1 c (members s r) \<noteq> [] \<longrightarrow> r < sv_next_rid s"
    using m(3) by (auto dest: remove1_nonempty)
  moreover have "c' \<in> set (remove1 c (members s r))"
    if "cl_room (client_of (unseated c r s) c') = Some r" for c'
    using that assms(1) by (auto simp: rooms_ok_def split: if_splits)
  ultimately show ?thesis
    using assms(1) m(1) unfolding rooms_ok_def
    by (auto simp: unseated_keep[of cl_name] simp del: unseated_sel(4) dest: notin_set_remove1)
       (auto split: if_splits)
qed

lemma core_unseated:
  assumes "core s" "cl_room (client_of s c) = Some r"
  shows "core (unseated c r s)"
proof -
  have "names_ok (unseated c r s) = names_ok s" "alive_named (unseated c r s) = alive_named s"
    "conns_ok (unseated c r s) = conns_ok s" "tx_ok (unseated c r s) = tx_ok s"
    "lobby_ok (unseated c r s) = lobby_ok s"
    by (simp_all add: names_ok_def alive_named_def conns_ok_def tx_ok_def lobby_ok_def
        unseated_keep del: unseated_sel(4))
  then show ?thesis
    using assms rooms_unseated by (simp add: core_def)
qed

lemma events_unseated: "events_ok X (unseated c r s) = events_ok X s"
  by (simp add: events_ok_def unseated_keep[of cl_tx] del: unseated_sel(4))

lemma settled_unseated:
  assumes "settled R s" "cl_room (client_of s c) = Some r"
  shows "settled (insert r R) (unseated c r s)"
  using assms unfolding settled_def by (auto simp: unseated_sel(4))

lemma unseated_points_back:
  assumes "core s" "settled R s" "r \<notin> R"
  shows "\<forall>m\<in>set (members (unseated c r s) r). cl_room (client_of (unseated c r s) m) = Some r"
proof -
  have "distinct (members s r)" using assms(1) by (simp add: core_def rooms_ok_def)
  then show ?thesis using assms(2,3) by (auto simp: settled_def)
qed

lemma unseated_short:
  assumes "core s" "cl_room (client_of s c) = Some r"
  shows "length (members (unseated c r s) r) < 2"
proof -
  have "c \<in> set (members s r)" "length (members s r) \<le> 2"
    using assms by (auto simp: core_def rooms_ok_def MAX_SEATS_def)
  then show ?thesis by (simp add: length_remove1)
qed

context good_dropper
begin

lemma leave_forming_good:
  assumes "core s" "events_ok {} s" "settled (insert r R) s"
    and "\<forall>m\<in>set (members s r). cl_room (client_of s m) = Some r"
    and "length (members s r) < 2" "leave_forming_with drp r st s = Ok t"
  shows "good R t"
proof (cases "st = 0")
  case True
  with assms show ?thesis
    unfolding leave_forming_with_def
    by (intro dissolve_good[of "add_log (Log_dissolved r) s" r R "members s r" t]) simp_all
next
  case False
  with assms show ?thesis
    unfolding leave_forming_with_def by (intro dissolve_good[of s r R "members s r" t]) simp_all
qed

lemma leave_room_good:
  assumes "core s" "events_ok {} s" "settled R s" "cl_room (client_of s c) = Some r" "r \<notin> R"
    and "leave_room_with drp c r st s = Ok t"
  shows "good R t"
proof -
  let ?u = "unseated c r s"
  have u: "core ?u" "events_ok {} ?u" "settled (insert r R) ?u" "length (members ?u r) < 2"
    "\<forall>m\<in>set (members ?u r). cl_room (client_of ?u m) = Some r"
    using assms(1-5) core_unseated events_unseated settled_unseated unseated_short unseated_points_back
    by blast+
  from assms(6) obtain v where
    v: "(if rm_started (room_of s r) then leave_started_with drp c r st ?u
        else leave_forming_with drp r st ?u) = Ok v" "t = lobby_update v"
    unfolding leave_room_unseated by (auto simp: andthen_Ok_iff)
  have "good R v"
    using v(1) leave_started_good[OF u(1-3,5)] leave_forming_good[OF u(1-3,5,4)]
    by (auto split: if_splits)
  then show ?thesis by (simp add: v(2) good_lobby_update)
qed

end

lemma fold_delete_filter: "fold AList.delete ks d = filter (\<lambda>p. fst p \<notin> set ks) d"
proof (induction ks arbitrary: d)
  case (Cons k ks)
  then show ?case by (auto simp: AList.delete_eq intro: filter_cong)
qed simp

lemma unlink_by_name_set:
  assumes "distinct (map fst (sv_by_name s))"
  shows "set (sv_by_name (unlink c why s)) = {p \<in> set (sv_by_name s). snd p \<noteq> c}"
proof -
  have "fst p \<in> set (stale_names c s) \<longleftrightarrow> snd p = c" if "p \<in> set (sv_by_name s)" for p
  proof (cases p)
    case (Pair n c')
    have "fst p \<in> set (stale_names c s) \<longleftrightarrow> (n, c) \<in> set (sv_by_name s)"
      by (auto simp: stale_names_def Pair image_iff)
    also have "\<dots> \<longleftrightarrow> c' = c"
      using that Pair eq_key_imp_eq_value[OF assms] by blast
    finally show ?thesis by (simp add: Pair)
  qed
  then show ?thesis by (auto simp: fold_delete_filter)
qed

lemma unlink_distinct_names:
  "distinct (map fst (sv_by_name s)) \<Longrightarrow> distinct (map fst (sv_by_name (unlink c why s)))"
  by (simp add: fold_delete_filter distinct_map_filter)

lemma unlink_lobby:
  "lobby_ok s \<Longrightarrow> lobby_ok (unlink c why s)"
proof (cases "stale_names c s = []")
  case True
  then have "stale_names c (s\<lparr>sv_clients := x, sv_sel := y\<rparr>) = []" for x y
    by (simp add: stale_names_def)
  assume "lobby_ok s"
  with True show ?thesis
    by (simp add: unlink_def Let_def lobby_ok_def stale_names_def)
next
  case False
  then show ?thesis
    by (simp add: unlink_def Let_def stale_names_def)
qed

lemma core_unlink:
  assumes "core s"
  shows "core (unlink c why s)"
proof -
  from assms have p: "rooms_ok s" "names_ok s" "alive_named s" "conns_ok s" "tx_ok s" "lobby_ok s"
    by (auto simp: core_def)
  have keep: "g (client_of (unlink c why s) c') = g (client_of s c')"
    if "\<And>x. g (x\<lparr>cl_dead := True, cl_closed := True\<rparr>) = g x" for c' and g :: "client \<Rightarrow> 'a"
    using that by simp
  have "rooms_ok (unlink c why s)"
    using p(1) by (simp add: rooms_ok_def keep[of cl_name] keep[of cl_room] del: unlink_client)
  moreover have "tx_ok (unlink c why s)"
    using p(5) by (simp add: tx_ok_def keep[of cl_tx] del: unlink_client)
  moreover have "names_ok (unlink c why s)"
    using p(2) unlink_distinct_names[of s c why] unlink_by_name_set[of s c why]
    by (auto simp: names_ok_def keep[of cl_name] simp del: unlink_client unlink_sel(11))
  moreover have "alive_named (unlink c why s)"
    unfolding alive_named_def
  proof (intro allI impI)
    fix c' n
    assume alive: "\<not> cl_dead (client_of (unlink c why s) c')"
      and nm: "cl_name (client_of (unlink c why s) c') = Some n"
    then have "c' \<noteq> c" by auto
    with alive nm p(3) have "(n, c') \<in> set (sv_by_name s)" by (simp add: alive_named_def)
    with \<open>c' \<noteq> c\<close> p(2) show "(n, c') \<in> set (sv_by_name (unlink c why s))"
      by (simp add: unlink_by_name_set names_ok_def del: unlink_sel(11))
  qed
  moreover have "conns_ok (unlink c why s)"
    using p(4) by (auto simp: conns_ok_def distinct_removeAll)
  ultimately show ?thesis
    using p(6) by (simp add: core_def unlink_lobby)
qed

lemma events_unlink: "events_ok {c} s \<Longrightarrow> events_ok {} (unlink c why s)"
  by (auto simp: events_ok_def)

lemma settled_unlink: "settled R s \<Longrightarrow> settled R (unlink c why s)"
  by (auto simp: settled_def)

lemma events_dead: "core s \<Longrightarrow> cl_dead (client_of s c) \<Longrightarrow> events_ok {c} s \<Longrightarrow> events_ok {} s"
proof -
  assume "core s" "cl_dead (client_of s c)" "events_ok {c} s"
  then have "sv_sel s c = None" by (simp add: core_def conns_ok_def)
  with \<open>events_ok {c} s\<close> show ?thesis
    unfolding events_ok_def by (metis emptyE insertE option.distinct(1))
qed

lemma seat_unlink:
  assumes "core s"
  shows "seat (unlink c why s) c =
    (case cl_room (client_of s c) of None \<Rightarrow> None
     | Some r \<Rightarrow> Some (Inr (the (py_index c (members s r)))))"
proof (cases "cl_room (client_of s c)")
  case (Some r)
  then have "c \<in> set (members s r)" using assms by (auto simp: core_def rooms_ok_def)
  then obtain i where "py_index c (members s r) = Some i"
    using py_index_None[of c "members s r"] by fastforce
  with Some show ?thesis by (simp add: seat_def)
qed (simp add: seat_def)

lemma drop_client_Suc:
  assumes "core s" "\<not> cl_dead (client_of s c)"
  shows "drop_client (Suc d) c why s =
    (case cl_room (client_of s c) of
       None \<Rightarrow> Ok (unlink c why s)
     | Some r \<Rightarrow> leave_room_with (drop_client d) c r (the (py_index c (members s r))) (unlink c why s))"
  using assms by (simp add: seat_unlink Let_def split: option.split)

declare drop_client.simps(2) [simp del]

lemma drop_client_dead [simp]: "cl_dead (client_of s c) \<Longrightarrow> drop_client d c why s = Ok s"
  by (cases d) (simp_all add: drop_client.simps(2))

lemma drop_client_good: "good_dropper (drop_client d)"
proof (induction d)
  case 0
  show ?case
    by (intro good_dropper.intro drop_client_evolving good_dropper_axioms.intro)
       (auto simp: good_def intro: events_dead split: if_splits)
next
  case (Suc d)
  show ?case
  proof (intro good_dropper.intro drop_client_evolving good_dropper_axioms.intro)
    fix s c R why t
    assume a: "core s" "events_ok {c} s" "settled R s" "clear_of R c s" "drop_client (Suc d) c why s = Ok t"
    show "good R t"
    proof (cases "cl_dead (client_of s c)")
      case True
      with a show ?thesis by (auto simp: good_def intro: events_dead)
    next
      case False
      let ?u = "unlink c why s"
      have u: "core ?u" "events_ok {} ?u" "settled R ?u"
        using a core_unlink events_unlink settled_unlink by blast+
      show ?thesis
      proof (cases "cl_room (client_of s c)")
        case None
        with a(5) False u drop_client_Suc[OF a(1) False] show ?thesis by (simp add: good_def)
      next
        case (Some r)
        then have "r \<notin> R" using a(4) by (auto simp: clear_of_def)
        moreover have "cl_room (client_of ?u c) = Some r" using Some by simp
        moreover have "leave_room_with (drop_client d) c r (the (py_index c (members s r))) ?u = Ok t"
          using a(5) Some by (simp only: drop_client_Suc[OF a(1) False] option.case)
        ultimately show ?thesis
          using good_dropper.leave_room_good[OF Suc u] by blast
      qed
    qed
  qed
qed

section \<open>Drops always return\<close>

text \<open>
  A drop that is ready for a client returns normally.  A client without a room needs no further
  drop; a client in a room needs its former peer to be droppable, and by then the peer has no
  room.  So two levels of nesting are enough.
\<close>

locale dropper = good_dropper +
  fixes ready :: "cid \<Rightarrow> server \<Rightarrow> bool"
  assumes roomless_ready: "cl_room (client_of s c) = None \<Longrightarrow> ready c s"
    and ready_mono: "ready c s \<Longrightarrow> evolves s t \<Longrightarrow> ready c t"
    and drp_returns: "core s \<Longrightarrow> events_ok {c} s \<Longrightarrow> settled R s \<Longrightarrow> clear_of R c s \<Longrightarrow>
      ready c s \<Longrightarrow> \<exists>t. drp c why s = Ok t"
begin

lemma flush_returns:
  assumes "core s" "events_ok {c} s" "settled R s" "clear_of R c s" "ready c s"
    and alive: "\<not> cl_dead (client_of s c)"
  shows "\<exists>t. flush_with drp c s = Ok t"
proof -
  obtain script tx wire v where
    loop: "send_loop (sv_sends s) (cl_tx (client_of s c)) (cl_wire (client_of s c)) = (script, tx, wire, v)"
    by (metis prod_cases4)
  let ?s1 = "upd_client c (\<lambda>x. x\<lparr>cl_tx := tx, cl_wire := wire\<rparr>) (s\<lparr>sv_sends := script\<rparr>)"
  have "length tx \<le> MAX_TX_BACKLOG"
    using send_loop_tx_le[OF loop] assms(1) by (auto simp: core_def tx_ok_def intro: le_trans)
  then have "core ?s1" using assms(1) by (intro core_upd_tx) simp_all
  moreover have "events_ok {c} ?s1" using assms(2) by (simp add: events_upd_client)
  moreover have "settled R ?s1" using assms(3) by (simp add: pieces_upd_client)
  moreover have "clear_of R c ?s1" using assms(4) by (simp add: clear_of_def)
  moreover have "ready c ?s1"
    using assms(5) evolves_written[OF alive loop] by (rule ready_mono)
  ultimately show ?thesis
    using drp_returns[of ?s1 c R] by (cases v) (simp_all add: flush_with_def loop Let_def)
qed

lemma send_returns:
  assumes "good R s" "clear_of R c s" "ready c s" "is_frame data"
  shows "\<exists>t. send_with drp c data s = Ok t"
proof (cases "cl_dead (client_of s c)")
  case False
  from assms(1) have co: "core s" and ev: "events_ok {c} s" and se: "settled R s"
    by (auto simp: good_def intro: events_mono)
  let ?q = "upd_client c (\<lambda>x. x\<lparr>cl_tx := cl_tx x @ data\<rparr>) s"
  show ?thesis
  proof (cases "length (cl_tx (client_of s c)) + length data > MAX_TX_BACKLOG")
    case True
    have "ready c (s\<lparr>sv_stats := st\<rparr>)" for st
      using assms(3) by (rule ready_mono) (simp add: evolves_def)
    then have "\<exists>t. drp c why (s\<lparr>sv_stats := st\<rparr>) = Ok t" for why st
      using co ev se assms(2) by (intro drp_returns) (auto simp: clear_of_def)
    then show ?thesis
      using True False by (simp add: send_with_def)
  next
    case fits: False
    have "core ?q" using co fits by (intro core_upd_tx) simp_all
    moreover have "events_ok {c} ?q" using ev by (simp add: events_upd_client)
    moreover have "settled R ?q" using se by (simp add: pieces_upd_client)
    moreover have "clear_of R c ?q" using assms(2) by (simp add: clear_of_def)
    moreover have "ready c ?q"
      using assms(3) evolves_queue[OF False assms(4)] by (rule ready_mono)
    ultimately show ?thesis
      using flush_returns[of ?q c R] fits False by (simp add: send_with_def)
  qed
qed (simp add: send_with_def)

lemma send_each_returns:
  "good R s \<Longrightarrow> \<forall>m\<in>set ms. clear_of R m s \<and> ready m s \<Longrightarrow> is_frame data \<Longrightarrow>
   \<exists>t. send_each drp ms (Inr data) s = Ok t"
proof (induction ms arbitrary: s)
  case (Cons m ms)
  then obtain u where u: "send_with drp m data s = Ok u"
    using send_returns[of R s m data] by auto
  have ev: "evolves s u" using send_evolves[OF Cons.prems(3), of s m] u by simp
  have "good R u" using Cons.prems u by (auto intro: send_good)
  moreover have "\<forall>m\<in>set ms. clear_of R m u \<and> ready m u"
    using Cons.prems(2) ev by (auto intro: clear_of_evolves ready_mono)
  ultimately show ?case using Cons.IH[of u] Cons.prems(3) u by simp
qed simp

lemma send_peer_left_returns:
  "good R s \<Longrightarrow> \<forall>m\<in>set ms. clear_of R m s \<and> ready m s \<Longrightarrow> is_frame pl \<Longrightarrow>
   \<exists>t. send_peer_left drp ms pl s = Ok t"
proof (induction ms arbitrary: s)
  case (Cons m ms)
  then obtain u where u: "send_with drp m pl s = Ok u"
    using send_returns[of R s m pl] by auto
  let ?u = "add_log (Log_back_to_lobby m) u"
  have "evolves s u" using send_evolves[OF Cons.prems(3), of s m] u by simp
  then have ev: "evolves s ?u" using evolves_add_log by (rule evolves_trans)
  have "good R u" using Cons.prems u by (auto intro: send_good)
  then have "good R ?u" by simp
  moreover have "\<forall>m\<in>set ms. clear_of R m ?u \<and> ready m ?u"
    using Cons.prems(2) ev by (auto intro: clear_of_evolves ready_mono)
  ultimately show ?case using Cons.IH[of ?u] Cons.prems(3) u by simp
qed simp

lemma dissolve_returns:
  assumes "core s" "events_ok {} s" "settled (insert r R) s"
    and pts: "\<forall>m\<in>set (members s r). cl_room (client_of s m) = Some r"
    and "set ms \<subseteq> set (members s r)"
  shows "\<exists>t. dissolve_with drp r ms s = Ok t"
proof -
  let ?s1 = "unseat (members s r) s"
  obtain data where data: "frame T_ROOM ([0] @ replicate 32 0) = Inr data" "is_frame data"
    using is_frame_frame frame_ok[of "[0] @ replicate 32 0" T_ROOM] by auto
  have "good (insert r R) ?s1"
    using assms(1-3) pts by (simp add: good_def core_unseat events_unseat settled_unseat)
  moreover have "\<forall>m\<in>set ms. cl_room (client_of ?s1 m) = None"
    using assms(5) by auto
  ultimately obtain u where "send_each drp ms (Inr data) ?s1 = Ok u"
    using send_each_returns[of "insert r R" ?s1 ms data] data(2) clear_of_roomless roomless_ready
    by blast
  then show ?thesis by (simp add: dissolve_with_def Let_def data(1) del: append.simps)
qed

lemma leave_started_returns:
  assumes "core s" "events_ok {} s" "settled (insert r R) s" "st < 256"
    and "\<forall>m\<in>set (members s r). cl_room (client_of s m) = Some r"
    and "cl_name (client_of s c) = Some n"
  shows "\<exists>t. leave_started_with drp c r st s = Ok t"
proof -
  let ?s1 = "add_log (Log_match_ended (rm_crc_ok (room_of s r)) c st) s"
  have "valid_name n" using assms(1,6) by (auto simp: core_def names_ok_def)
  then have nm: "pad_name (cl_name (client_of ?s1 c)) = Inr (pad8 (map byte_of_char n))"
    using assms(6) by (simp add: pad_name_valid)
  define bs where "bs = [word_of_int (int st)] @ pad8 (map byte_of_char n)"
  then have "length bs = 9" by simp
  then obtain pl where pl: "frame T_PEER_LEFT bs = Inr pl" "is_frame pl"
    using is_frame_frame frame_ok[of bs T_PEER_LEFT] by fastforce
  obtain u where u: "dissolve_with drp r [] ?s1 = Ok u"
    using dissolve_returns[of ?s1 r R "[]"] assms by auto
  have "good R u"
    by (rule dissolve_good[OF _ _ _ _ _ u]) (use assms in auto)
  moreover have "cl_room (client_of u m) = None" if "m \<in> set (members s r)" for m
    using dissolve_roomless[OF _ u] that by simp
  ultimately obtain t where "send_peer_left drp (members s r) pl u = Ok t"
    using send_peer_left_returns[of R u "members s r" pl] pl(2) clear_of_roomless roomless_ready
    by blast
  then show ?thesis
    using pl(1) u nm assms(4)
    by (simp add: leave_started_with_def Let_def bs_def)
qed

lemma leave_forming_returns:
  assumes "core s" "events_ok {} s" "settled (insert r R) s"
    and "\<forall>m\<in>set (members s r). cl_room (client_of s m) = Some r"
    and "length (members s r) < 2"
  shows "\<exists>t. leave_forming_with drp r st s = Ok t"
  using assms dissolve_returns[of s r R "members s r"]
    dissolve_returns[of "add_log (Log_dissolved r) s" r R "members s r"]
  by (simp add: leave_forming_with_def)

lemma leave_room_returns:
  assumes "core s" "events_ok {} s" "settled R s" "cl_room (client_of s c) = Some r" "r \<notin> R" "st < 256"
  shows "\<exists>t. leave_room_with drp c r st s = Ok t"
proof -
  let ?u = "unseated c r s"
  have u: "core ?u" "events_ok {} ?u" "settled (insert r R) ?u" "length (members ?u r) < 2"
    "\<forall>m\<in>set (members ?u r). cl_room (client_of ?u m) = Some r"
    using assms(1-5) core_unseated events_unseated settled_unseated unseated_short unseated_points_back
    by blast+
  have "c \<in> set (members s r)" using assms(1,4) by (auto simp: core_def rooms_ok_def)
  then have "cl_name (client_of s c) \<noteq> None"
    using assms(1) unfolding core_def rooms_ok_def by blast
  then obtain n where "cl_name (client_of ?u c) = Some n" by auto
  then show ?thesis
    using leave_started_returns[OF u(1-3) assms(6) u(5)] leave_forming_returns[OF u(1-3,5,4), of st]
    unfolding leave_room_unseated by (auto simp: andthen_Ok_iff)
qed

end

lemma py_index_member_less:
  assumes "core s" "cl_room (client_of s c) = Some r"
  shows "the (py_index c (members s r)) < 2"
proof -
  have "c \<in> set (members s r)" "length (members s r) \<le> 2"
    using assms by (auto simp: core_def rooms_ok_def MAX_SEATS_def)
  moreover then obtain i where "py_index c (members s r) = Some i"
    using py_index_None[of c "members s r"] by fastforce
  ultimately show ?thesis using py_index_Some[of c "members s r" i] by simp
qed

text \<open>One level of nesting suffices for a client without a room.\<close>

lemma drop_client_dropper_1:
  "dropper (drop_client (Suc d)) (\<lambda>c s. cl_room (client_of s c) = None)"
proof (intro dropper.intro drop_client_good dropper_axioms.intro)
  fix s :: server and c why
  assume "core s" "cl_room (client_of s c) = None"
  then show "\<exists>t. drop_client (Suc d) c why s = Ok t"
    by (cases "cl_dead (client_of s c)") (simp_all add: drop_client_Suc)
qed (auto intro: evolves_roomless)

text \<open>Two levels suffice for every client of a state where the invariant holds.\<close>

lemma drop_client_returns:
  assumes "core s" "events_ok {c} s" "settled R s" "clear_of R c s"
  shows "\<exists>t. drop_client (Suc (Suc d)) c why s = Ok t"
proof (cases "cl_dead (client_of s c)")
  case False
  let ?u = "unlink c why s"
  have u: "core ?u" "events_ok {} ?u" "settled R ?u"
    using assms core_unlink events_unlink settled_unlink by blast+
  show ?thesis
  proof (cases "cl_room (client_of s c)")
    case (Some r)
    moreover have "r \<notin> R" using assms(4) Some by (auto simp: clear_of_def)
    moreover have "the (py_index c (members s r)) < 256"
      using py_index_member_less[OF assms(1) Some] by simp
    ultimately have "\<exists>t. leave_room_with (drop_client (Suc d)) c r (the (py_index c (members s r))) ?u = Ok t"
      using dropper.leave_room_returns[OF drop_client_dropper_1 u, of c r] by simp
    then show ?thesis
      by (simp only: drop_client_Suc[OF assms(1) False] Some option.case)
  qed (simp only: drop_client_Suc[OF assms(1) False] option.case, simp)
qed simp

lemma drop_client_dropper: "dropper (drop_client (Suc (Suc d))) (\<lambda>_ _. True)"
  by (intro dropper.intro drop_client_good dropper_axioms.intro) (auto intro: drop_client_returns)

interpretation relay: dropper drop "\<lambda>_ _. True"
  using drop_client_dropper[of 6] by (simp add: drop_def DEPTH_def numeral_eq_Suc)

section \<open>The bound on nested drops does not matter\<close>

text \<open>
  Two drops that agree on clients without a room give the same results wherever only such
  clients are written to.
\<close>

lemma send_with_cong:
  assumes "\<And>why s. cl_room (client_of s c) = None \<Longrightarrow> d1 c why s = d2 c why s"
    and "cl_room (client_of s c) = None"
  shows "send_with d1 c data s = send_with d2 c data s"
  using assms by (auto simp: send_with_def flush_with_def Let_def split: prod.split option.split)

lemma send_each_cong:
  assumes "\<And>c why s. cl_room (client_of s c) = None \<Longrightarrow> d1 c why s = d2 c why s"
    and "evolving_dropper d2" and "\<And>f. fr = Inr f \<Longrightarrow> is_frame f"
  shows "\<forall>m\<in>set ms. cl_room (client_of s m) = None \<Longrightarrow> send_each d1 ms fr s = send_each d2 ms fr s"
proof (induction ms arbitrary: s)
  case (Cons m ms)
  show ?case
  proof (cases fr)
    case (Inr data)
    have "send_with d1 m data s = send_with d2 m data s"
      using Cons.prems by (intro send_with_cong assms(1)) auto
    moreover have "send_each d1 ms fr t = send_each d2 ms fr t" if "send_with d2 m data s = Ok t" for t
      using Cons evolving_dropper.send_evolves[OF assms(2) assms(3)[OF Inr], of s m] that
      by (auto intro: evolves_roomless)
    ultimately show ?thesis
      using Inr by (cases "send_with d2 m data s") auto
  qed simp
qed simp

lemma send_peer_left_cong:
  assumes "\<And>c why s. cl_room (client_of s c) = None \<Longrightarrow> d1 c why s = d2 c why s"
    and "evolving_dropper d2" and "is_frame pl"
  shows "\<forall>m\<in>set ms. cl_room (client_of s m) = None \<Longrightarrow> send_peer_left d1 ms pl s = send_peer_left d2 ms pl s"
proof (induction ms arbitrary: s)
  case (Cons m ms)
  have "send_with d1 m pl s = send_with d2 m pl s"
    using Cons.prems by (intro send_with_cong assms(1)) auto
  moreover have "send_peer_left d1 ms pl (add_log (Log_back_to_lobby m) t) =
      send_peer_left d2 ms pl (add_log (Log_back_to_lobby m) t)" if "send_with d2 m pl s = Ok t" for t
  proof (rule Cons.IH, rule ballI)
    fix m' assume "m' \<in> set ms"
    then have "cl_room (client_of s m') = None" using Cons.prems by simp
    moreover have "evolves s t"
      using evolving_dropper.send_evolves[OF assms(2,3), of s m] that by simp
    ultimately show "cl_room (client_of (add_log (Log_back_to_lobby m) t) m') = None"
      by (simp add: evolves_roomless)
  qed
  ultimately show ?case by (cases "send_with d2 m pl s") auto
qed simp

lemma dissolve_cong:
  assumes "\<And>c why s. cl_room (client_of s c) = None \<Longrightarrow> d1 c why s = d2 c why s"
    and "evolving_dropper d2" and "set ms \<subseteq> set (members s r)"
  shows "dissolve_with d1 r ms s = dissolve_with d2 r ms s"
proof -
  have "\<forall>m\<in>set ms. cl_room (client_of (unseat (members s r) s) m) = None"
    using assms(3) by auto
  then show ?thesis
    unfolding dissolve_with_def Let_def
    by (subst send_each_cong[OF assms(1,2)]) (auto dest: is_frame_frame)
qed

lemma leave_room_cong:
  assumes agree: "\<And>c why s. cl_room (client_of s c) = None \<Longrightarrow> d1 c why s = d2 c why s"
    and "good_dropper d2" and "core s" "cl_room (client_of s c) = Some r"
  shows "leave_room_with d1 c r st s = leave_room_with d2 c r st s"
proof -
  have ev: "evolving_dropper d2" using assms(2) by (rule good_dropper.axioms)
  note dis = dissolve_cong[OF agree ev]
  let ?u = "unseated c r s"
  have short: "length (members ?u r) < 2" using assms(3,4) by (rule unseated_short)
  have "leave_forming_with d1 r st ?u = leave_forming_with d2 r st ?u"
    unfolding leave_forming_with_def
    using short dis[of "members ?u r" ?u r] dis[of "members ?u r" "add_log (Log_dissolved r) ?u" r]
    by simp
  moreover have "leave_started_with d1 c r st ?u = leave_started_with d2 c r st ?u"
  proof -
    let ?s1 = "add_log (Log_match_ended (rm_crc_ok (room_of ?u r)) c st) ?u"
    have d: "dissolve_with d1 r [] ?s1 = dissolve_with d2 r [] ?s1" by (rule dis) simp_all
    have "send_peer_left d1 (members ?s1 r) pl t = send_peer_left d2 (members ?s1 r) pl t"
      if "dissolve_with d2 r [] ?s1 = Ok t" "frame T_PEER_LEFT bs = Inr pl" for t pl bs
      using send_peer_left_cong[OF agree ev is_frame_frame[OF that(2)], of "members ?s1 r" t]
        good_dropper.dissolve_roomless[OF assms(2) _ that(1)] by blast
    then show ?thesis
      unfolding leave_started_with_def Let_def d
      by (intro attempt_cong andthen_cong) blast
  qed
  ultimately show ?thesis unfolding leave_room_unseated by simp
qed

lemma drop_client_roomless_agree:
  assumes "cl_room (client_of s c) = None"
  shows "drop_client (Suc d) c why s = drop_client (Suc e) c why s"
  using assms by (simp add: drop_client.simps(2) Let_def seat_def)

lemma drop_client_depth:
  assumes "core s"
  shows "drop_client (Suc (Suc d)) c why s = drop_client 2 c why s"
proof (cases "cl_dead (client_of s c)")
  case False
  have two: "(2 :: nat) = Suc (Suc 0)" by simp
  show ?thesis
  proof (cases "cl_room (client_of s c)")
    case (Some r)
    then have "cl_room (client_of (unlink c why s) c) = Some r" by simp
    then show ?thesis
      using leave_room_cong[OF drop_client_roomless_agree drop_client_good core_unlink[OF assms]] Some
      by (simp add: two drop_client_Suc[OF assms False] del: One_nat_def)
  qed (simp add: two drop_client_Suc[OF assms False])
qed simp

section \<open>Safe outcomes\<close>

text \<open>
  An operation is safe when it returns normally and the invariant holds afterwards.  These are
  the rules the protocol handlers are verified with.
\<close>

definition safe :: "outcome \<Rightarrow> bool" where
  "safe out \<longleftrightarrow> (\<exists>t. out = Ok t \<and> good {} t)"

lemma safe_Ok [simp]: "safe (Ok s) \<longleftrightarrow> good {} s"
  by (simp add: safe_def)

lemma safe_final: "safe out \<Longrightarrow> good {} (final out) \<and> out = Ok (final out)"
  by (auto simp: safe_def)

lemma safe_andthen:
  "safe o1 \<Longrightarrow> (\<And>t. o1 = Ok t \<Longrightarrow> good {} t \<Longrightarrow> safe (f t)) \<Longrightarrow> safe (andthen o1 f)"
  by (auto simp: safe_def)

lemma safe_attempt: "v = Inr x \<Longrightarrow> safe (f x) \<Longrightarrow> safe (attempt v s f)"
  by simp

lemma safe_send: "good {} s \<Longrightarrow> is_frame data \<Longrightarrow> safe (send c data s)"
  unfolding send_def safe_def using relay.send_returns[of "{}" s c data] relay.send_good[of "{}" s c data]
  by auto

lemma safe_drop: "good {} s \<Longrightarrow> safe (drop c why s)"
proof -
  assume "good {} s"
  then have s: "core s" "events_ok {c} s" "settled {} s"
    by (auto simp: good_def intro: events_mono)
  obtain t where "drop c why s = Ok t"
    using relay.drp_returns[OF s] by auto
  with relay.drp_good[OF s] show ?thesis by (auto simp: safe_def)
qed

lemma safe_flush: "good {} s \<Longrightarrow> \<not> cl_dead (client_of s c) \<Longrightarrow> safe (flush c s)"
proof -
  assume "good {} s" and alive: "\<not> cl_dead (client_of s c)"
  then have s: "core s" "events_ok {c} s" "settled {} s"
    by (auto simp: good_def intro: events_mono)
  obtain t where "flush_with drop c s = Ok t"
    using relay.flush_returns[OF s _ _ alive] by auto
  with relay.flush_good[OF s] show ?thesis by (auto simp: safe_def flush_def)
qed

lemma safe_live_loop:
  assumes "\<And>i m s. good {} s \<Longrightarrow> i < length (members s r) \<Longrightarrow> m = members s r ! i \<Longrightarrow> safe (body i m s)"
  shows "good {} s \<Longrightarrow> safe (live_loop n i r body s)"
proof (induction n arbitrary: i s)
  case (Suc n)
  then show ?case
    using assms by (auto intro!: safe_andthen)
qed simp

lemma good_member_name:
  assumes "good R s" "m \<in> set (members s r)"
  obtains n where "cl_name (client_of s m) = Some n" "valid_name n"
proof -
  have r: "rooms_ok s" and "names_ok s"
    using assms(1) by (auto simp: good_def core_def)
  from r assms(2) have "cl_name (client_of s m) \<noteq> None" unfolding rooms_ok_def by blast
  with \<open>names_ok s\<close> that show thesis by (auto simp: names_ok_def)
qed

lemma good_members_le: "good R s \<Longrightarrow> length (members s r) \<le> 2"
  by (simp add: good_def core_def rooms_ok_def MAX_SEATS_def)

lemma roster_ok:
  assumes "good R s"
  shows "\<exists>bs. roster s r = Inr bs \<and> length bs = 32"
proof -
  let ?f = "\<lambda>m. pad_name (cl_name (client_of s m))"
  let ?g = "\<lambda>m. pad8 (map byte_of_char (the (cl_name (client_of s m))))"
  have "?f m = Inr (?g m)" if "m \<in> set (members s r)" for m
    using good_member_name[OF assms that] by (metis option.sel pad_name_valid)
  then have "sum_map ?f (members s r) = Inr (map ?g (members s r))" by (rule sum_map_Inr)
  moreover have "length (concat (map ?g (members s r))) = 8 * length (members s r)"
    by (simp add: length_concat comp_def sum_list_triv)
  ultimately show ?thesis
    using good_members_le[OF assms, of r] by (simp add: roster_def ROSTER_SLOTS_def)
qed

lemma safe_room_broadcast:
  assumes "good {} s"
  shows "safe (room_broadcast r s)"
proof -
  obtain bs where bs: "roster s r = Inr bs" "length bs = 32" using roster_ok[OF assms] by blast
  obtain data where data: "frame T_ROOM ([word_of_int (int (length (members s r)))] @ bs) = Inr data"
    using frame_ok[of "[word_of_int (int (length (members s r)))] @ bs" T_ROOM] bs(2) by auto
  have count: "to_bytes [int (length (members s r))] = Inr [word_of_int (int (length (members s r)))]"
    using good_members_le[OF assms, of r] by (subst to_bytes_ok) simp_all
  have "safe (live_loop (length (members s r)) 0 r
     (\<lambda>i m s. attempt (Inr data) s (\<lambda>data. send_with drop m data s)) s)"
    by (rule safe_live_loop[OF _ assms])
       (use safe_send is_frame_frame[OF data] in \<open>simp add: send_def\<close>)
  then show ?thesis
    unfolding room_broadcast_def room_broadcast_with_def count bs(1) attempt.simps data .
qed

end
