(* ===== verification/Crc_Log.thy ===== *)
theory Crc_Log
  imports Relay_State
begin

text \<open>
  The CRC comparator of the relay (Server.log_crc, server/intv_relay_server.py lines 469-490):
  per tick, the checksums reported by the seats are collected in an insertion-ordered
  dictionary; when as many seats have reported as the room has members, the round is
  compared, logged and removed.  At most 64 ticks are pending; the numerically smallest tick
  is evicted beyond that.
\<close>

definition CRC_TABLE_MAX :: nat where "CRC_TABLE_MAX = 64"

definition note_crc :: "nat \<Rightarrow> nat \<Rightarrow> nat \<Rightarrow> room \<Rightarrow> room \<times> logmsg list" where
  "note_crc sn tick crc rm =
     (let entry = AList.update sn crc (case map_of (rm_crc rm) tick of None \<Rightarrow> [] | Some e \<Rightarrow> e);
          tbl = AList.update tick entry (rm_crc rm);
          tbl = (if length tbl > CRC_TABLE_MAX then AList.delete (Min (set (map fst tbl))) tbl else tbl)
      in if length entry < length (rm_members rm) then (rm\<lparr>rm_crc := tbl\<rparr>, [])
         else let tbl = AList.delete tick tbl in
           if length (remdups (map snd entry)) \<noteq> 1
           then (rm\<lparr>rm_crc := tbl\<rparr>, [Log_crc_mismatch tick (sort_key fst entry)])
           else let ok = rm_crc_ok rm + 1 in
             (rm\<lparr>rm_crc := tbl, rm_crc_ok := ok\<rparr>, if ok mod 4 = 0 then [Log_crc_ok tick ok] else []))"

definition log_crc :: "rid \<Rightarrow> byte list \<Rightarrow> server \<Rightarrow> server" where
  "log_crc r payload s =
     (let sn = unat (payload ! 0);
          tick = pair16 (payload ! 1) (payload ! 2);
          crc = pair16 (payload ! 3) (payload ! 4)
      in case note_crc sn tick crc (room_of s r) of
           (rm, msgs) \<Rightarrow> fold add_log msgs (upd_room r (\<lambda>_. rm) s))"

section \<open>The table\<close>

definition crc_table_ok :: "room \<Rightarrow> bool" where
  "crc_table_ok rm \<longleftrightarrow>
     length (rm_crc rm) \<le> CRC_TABLE_MAX \<and> distinct (map fst (rm_crc rm)) \<and>
     (\<forall>(t, e)\<in>set (rm_crc rm). e \<noteq> [] \<and> distinct (map fst e))"

lemma note_crc_frame:
  "rm_members (fst (note_crc sn tick crc rm)) = rm_members rm"
  "rm_started (fst (note_crc sn tick crc rm)) = rm_started rm"
  "rm_seed (fst (note_crc sn tick crc rm)) = rm_seed rm"
  by (simp_all add: note_crc_def Let_def)

lemma length_delete_le: "length (AList.delete k d) \<le> length d"
  by (simp add: AList.delete_eq)

lemma delete_absent: "k \<notin> set (map fst d) \<Longrightarrow> AList.delete k d = d"
  unfolding AList.delete_eq by (rule filter_True) (auto simp: image_iff)

lemma delete_snoc: "k \<notin> set (map fst d) \<Longrightarrow> AList.delete k (d @ [(k, v)]) = d"
  using delete_absent[of k d] by (simp add: AList.delete_eq)

lemma update_absent: "k \<notin> set (map fst d) \<Longrightarrow> AList.update k v d = d @ [(k, v)]"
  by (induction d) auto

lemma set_update_subset: "set (AList.update k v d) \<subseteq> insert (k, v) (set d)"
  by (induction d) auto

lemma length_update_le: "length (AList.update k v d) \<le> Suc (length d)"
  using pydict.length_keys_put[of k v d] by (auto split: if_splits)

lemma evict_length:
  assumes "distinct (map fst tbl)" "length tbl \<le> Suc n"
  shows "length (if length tbl > n then AList.delete (Min (set (map fst tbl))) tbl else tbl) \<le> n"
proof (cases "length tbl > n")
  case True
  then have "tbl \<noteq> []" by auto
  then have "Min (set (map fst tbl)) \<in> set (map fst tbl)"
    by (intro Min_in) auto
  then have "Suc (length (map fst (AList.delete (Min (set (map fst tbl))) tbl))) = length (map fst tbl)"
    by (rule pydict.length_keys_del_present[OF assms(1)])
  with True assms(2) show ?thesis by simp
qed (use assms in simp)

text \<open>The table as \<open>note_crc\<close> leaves it before the round is compared.\<close>

definition crc_stored :: "nat \<Rightarrow> (nat \<times> nat) list \<Rightarrow> room \<Rightarrow> (nat \<times> (nat \<times> nat) list) list" where
  "crc_stored tick entry rm =
     (let tbl = AList.update tick entry (rm_crc rm)
      in if length tbl > CRC_TABLE_MAX then AList.delete (Min (set (map fst tbl))) tbl else tbl)"

definition crc_entry :: "nat \<Rightarrow> nat \<Rightarrow> nat \<Rightarrow> room \<Rightarrow> (nat \<times> nat) list" where
  "crc_entry sn tick crc rm =
     AList.update sn crc (case map_of (rm_crc rm) tick of None \<Rightarrow> [] | Some e \<Rightarrow> e)"

lemma note_crc_unfold:
  "note_crc sn tick crc rm =
     (let entry = crc_entry sn tick crc rm; tbl = crc_stored tick entry rm in
      if length entry < length (rm_members rm) then (rm\<lparr>rm_crc := tbl\<rparr>, [])
      else if length (remdups (map snd entry)) \<noteq> 1
        then (rm\<lparr>rm_crc := AList.delete tick tbl\<rparr>, [Log_crc_mismatch tick (sort_key fst entry)])
        else (rm\<lparr>rm_crc := AList.delete tick tbl, rm_crc_ok := rm_crc_ok rm + 1\<rparr>,
              if (rm_crc_ok rm + 1) mod 4 = 0 then [Log_crc_ok tick (rm_crc_ok rm + 1)] else []))"
  by (simp only: note_crc_def crc_entry_def crc_stored_def Let_def)

lemma crc_stored_ok:
  assumes "crc_table_ok rm"
  shows "length (crc_stored tick entry rm) \<le> CRC_TABLE_MAX"
    and "distinct (map fst (crc_stored tick entry rm))"
    and "set (crc_stored tick entry rm) \<subseteq> insert (tick, entry) (set (rm_crc rm))"
proof -
  let ?tbl = "AList.update tick entry (rm_crc rm)"
  have d: "distinct (map fst ?tbl)"
    using assms by (intro pydict.keys_put_distinct) (simp add: crc_table_ok_def)
  have "length ?tbl \<le> Suc CRC_TABLE_MAX"
    using length_update_le[of tick entry "rm_crc rm"] assms by (simp add: crc_table_ok_def)
  from evict_length[OF d this] show "length (crc_stored tick entry rm) \<le> CRC_TABLE_MAX"
    by (simp add: crc_stored_def Let_def)
  show "distinct (map fst (crc_stored tick entry rm))"
    using d pydict.keys_del_distinct[OF d] by (simp add: crc_stored_def Let_def)
  have "set ?tbl \<subseteq> insert (tick, entry) (set (rm_crc rm))"
    by (rule set_update_subset)
  then show "set (crc_stored tick entry rm) \<subseteq> insert (tick, entry) (set (rm_crc rm))"
    by (auto simp: crc_stored_def Let_def AList.delete_eq)
qed

lemma crc_entry_ok:
  assumes "crc_table_ok rm"
  shows "distinct (map fst (crc_entry sn tick crc rm))" and "crc_entry sn tick crc rm \<noteq> []"
proof -
  have "distinct (map fst (case map_of (rm_crc rm) tick of None \<Rightarrow> [] | Some e \<Rightarrow> e))"
    using assms by (auto simp: crc_table_ok_def split: option.split dest: map_of_SomeD)
  then show "distinct (map fst (crc_entry sn tick crc rm))"
    unfolding crc_entry_def by (rule pydict.keys_put_distinct)
  show "crc_entry sn tick crc rm \<noteq> []" by (simp add: crc_entry_def)
qed

lemma note_crc_table_ok:
  assumes "crc_table_ok rm"
  shows "crc_table_ok (fst (note_crc sn tick crc rm))"
proof -
  let ?e = "crc_entry sn tick crc rm"
  let ?t = "crc_stored tick ?e rm"
  note st = crc_stored_ok[OF assms, of tick ?e]
  have old: "e \<noteq> [] \<and> distinct (map fst e)"
    if "(t, e) \<in> set (rm_crc rm)" for t e
    using assms that by (auto simp: crc_table_ok_def)
  show ?thesis
  proof (cases "length ?e < length (rm_members rm)")
    case True
    then have "fst (note_crc sn tick crc rm) = rm\<lparr>rm_crc := ?t\<rparr>"
      by (simp add: note_crc_unfold Let_def)
    moreover have "e \<noteq> [] \<and> distinct (map fst e)"
      if "(t, e) \<in> set ?t" for t e
      using that st(3) old[of t e] crc_entry_ok[OF assms, of sn tick crc] by auto
    ultimately show ?thesis
      using st(1,2) by (auto simp: crc_table_ok_def)
  next
    case False
    have "set (AList.delete tick ?t) \<subseteq> set (rm_crc rm)"
      using st(3) by (auto simp: AList.delete_eq)
    moreover have "distinct (map fst (AList.delete tick ?t))"
      using st(2) by (rule pydict.keys_del_distinct)
    moreover have "length (AList.delete tick ?t) \<le> CRC_TABLE_MAX"
      using length_delete_le st(1) by (rule le_trans)
    ultimately show ?thesis
      using False old by (auto simp: crc_table_ok_def note_crc_unfold Let_def)
  qed
qed

section \<open>Rounds\<close>

lemma crc_first_report:
  assumes "length (rm_crc rm) < CRC_TABLE_MAX" "tick \<notin> set (map fst (rm_crc rm))"
    and "1 < length (rm_members rm)"
  shows "note_crc sn tick x rm = (rm\<lparr>rm_crc := rm_crc rm @ [(tick, [(sn, x)])]\<rparr>, [])"
proof -
  have "crc_entry sn tick x rm = [(sn, x)]"
    using assms(2) by (simp add: crc_entry_def map_of_eq_None_iff [THEN iffD2])
  moreover have "crc_stored tick [(sn, x)] rm = rm_crc rm @ [(tick, [(sn, x)])]"
    using assms(1,2) by (simp add: crc_stored_def Let_def update_absent)
  ultimately show ?thesis
    using assms(3) by (simp add: note_crc_unfold Let_def)
qed

lemma crc_second_report:
  assumes "length (rm_crc rm) < CRC_TABLE_MAX" "tick \<notin> set (map fst (rm_crc rm))"
    and "length (rm_members rm) = 2" "a \<noteq> b"
  shows "note_crc b tick y (rm\<lparr>rm_crc := rm_crc rm @ [(tick, [(a, x)])]\<rparr>) =
    (if x = y then (rm\<lparr>rm_crc_ok := rm_crc_ok rm + 1\<rparr>,
                    if (rm_crc_ok rm + 1) mod 4 = 0 then [Log_crc_ok tick (rm_crc_ok rm + 1)] else [])
     else (rm, [Log_crc_mismatch tick (sort_key fst [(a, x), (b, y)])]))"
proof -
  let ?rm = "rm\<lparr>rm_crc := rm_crc rm @ [(tick, [(a, x)])]\<rparr>"
  have m: "map_of (rm_crc ?rm) tick = Some [(a, x)]"
    using assms(2) by (simp add: map_of_append map_add_def map_of_eq_None_iff [THEN iffD2])
  then have e: "crc_entry b tick y ?rm = [(a, x), (b, y)]"
    using assms(4) by (simp add: crc_entry_def)
  have "length (AList.update tick [(a, x), (b, y)] (rm_crc ?rm)) = length (rm_crc ?rm)"
    using pydict.length_keys_put[of tick "[(a, x), (b, y)]" "rm_crc ?rm"] m by simp
  then have st: "AList.delete tick (crc_stored tick [(a, x), (b, y)] ?rm) = rm_crc rm"
    using assms(1) delete_snoc[OF assms(2)]
    by (simp add: crc_stored_def Let_def delete_update_same)
  show ?thesis
  proof (cases "x = y")
    case True
    with e st assms(3) show ?thesis by (simp add: note_crc_unfold Let_def)
  next
    case False
    with e st assms(3) show ?thesis by (simp add: note_crc_unfold Let_def)
  qed
qed

lemma crc_evicted_report:
  assumes "length (rm_crc rm) = CRC_TABLE_MAX" "\<forall>t\<in>set (map fst (rm_crc rm)). tick < t"
    and "1 < length (rm_members rm)"
  shows "note_crc sn tick x rm = (rm, [])"
proof -
  have new: "tick \<notin> set (map fst (rm_crc rm))" using assms(2) by auto
  have e: "crc_entry sn tick x rm = [(sn, x)]"
    using new by (simp add: crc_entry_def map_of_eq_None_iff [THEN iffD2])
  let ?tbl = "rm_crc rm @ [(tick, [(sn, x)])]"
  have "Min (set (map fst ?tbl)) = tick"
    using assms(2) by (intro Min_eqI) auto
  moreover have "AList.delete tick ?tbl = rm_crc rm"
    using new by (rule delete_snoc)
  ultimately have "crc_stored tick [(sn, x)] rm = rm_crc rm"
    using assms(1) by (simp only: crc_stored_def update_absent[OF new] Let_def) simp
  then show ?thesis
    using assms(3) by (simp add: note_crc_unfold Let_def e)
qed

text \<open>
  Completed rounds do not linger: what is pending after a report has fewer reports than the
  room has members, if that was so before.
\<close>

definition crc_pending :: "room \<Rightarrow> bool" where
  "crc_pending rm \<longleftrightarrow> (\<forall>(t, e)\<in>set (rm_crc rm). length e < length (rm_members rm))"

lemma note_crc_pending:
  assumes "crc_table_ok rm" "crc_pending rm"
  shows "crc_pending (fst (note_crc sn tick crc rm))"
proof -
  let ?e = "crc_entry sn tick crc rm"
  note st = crc_stored_ok(3)[OF assms(1), of tick ?e]
  show ?thesis
  proof (cases "length ?e < length (rm_members rm)")
    case True
    then have "fst (note_crc sn tick crc rm) = rm\<lparr>rm_crc := crc_stored tick ?e rm\<rparr>"
      by (simp add: note_crc_unfold Let_def)
    moreover have "length e < length (rm_members rm)" if "(t, e) \<in> set (crc_stored tick ?e rm)" for t e
      using that st True assms(2) by (auto simp: crc_pending_def)
    ultimately show ?thesis by (auto simp: crc_pending_def)
  next
    case False
    have "set (AList.delete tick (crc_stored tick ?e rm)) \<subseteq> set (rm_crc rm)"
      using st by (auto simp: AList.delete_eq)
    with False assms(2) show ?thesis
      by (auto simp: crc_pending_def note_crc_unfold Let_def)
  qed
qed

section \<open>Properties\<close>

lemma pair16_inject: "pair16 a b = pair16 c d \<longleftrightarrow> a = c \<and> b = d"
proof
  assume "pair16 a b = pair16 c d"
  then have "unat a + 256 * unat b = unat c + 256 * unat d" by (simp add: pair16_eq)
  then have "(unat a + 256 * unat b) mod 256 = (unat c + 256 * unat d) mod 256"
    "(unat a + 256 * unat b) div 256 = (unat c + 256 * unat d) div 256" by simp_all
  then show "a = c \<and> b = d" by (simp add: word_unat_eq_iff)
qed simp

lemma log_crc_room:
  "log_crc r [sn, t0, t1, x0, x1] s =
     fold add_log (snd (note_crc (unat sn) (pair16 t0 t1) (pair16 x0 x1) (room_of s r)))
       (upd_room r (\<lambda>_. fst (note_crc (unat sn) (pair16 t0 t1) (pair16 x0 x1) (room_of s r))) s)"
  by (simp add: log_crc_def Let_def split: prod.split)

lemma fold_add_log_eq: "fold add_log ms s = s\<lparr>sv_log := sv_log s @ ms\<rparr>"
  by (induction ms arbitrary: s) (simp_all add: add_log_def)

lemma upd_room_twice [simp]: "upd_room r (\<lambda>_. y) (upd_room r (\<lambda>_. x) s) = upd_room r (\<lambda>_. y) s"
  by (simp add: upd_room_def)

lemma upd_room_same: "upd_room r (\<lambda>_. room_of s r) s = s"
  by (simp add: upd_room_def)

text \<open>
  C23 (CRC round): in a room of two with fewer than 64 pending ticks, the reports of the two
  seats for a tick leave the table as it was and are judged: equal checksums count one verified
  round (logged at every fourth), different checksums are logged as a mismatch with both
  seats' values, the little-endian words of the two payloads.
\<close>

theorem crc_round:
  assumes "length (members s r) = 2" "length (rm_crc (room_of s r)) < CRC_TABLE_MAX"
    and "pair16 t0 t1 \<notin> set (map fst (rm_crc (room_of s r)))" "a \<noteq> b"
  shows "log_crc r [b, t0, t1, y0, y1] (log_crc r [a, t0, t1, x0, x1] s) =
    (let tick = unat t0 + 256 * unat t1; ok = rm_crc_ok (room_of s r) + 1 in
     if (x0, x1) = (y0, y1)
     then fold add_log (if ok mod 4 = 0 then [Log_crc_ok tick ok] else [])
            (upd_room r (\<lambda>x. x\<lparr>rm_crc_ok := ok\<rparr>) s)
     else add_log (Log_crc_mismatch tick (sort_key fst
            [(unat a, unat x0 + 256 * unat x1), (unat b, unat y0 + 256 * unat y1)])) s)"
proof -
  let ?tick = "pair16 t0 t1" and ?x = "pair16 x0 x1" and ?y = "pair16 y0 y1"
  let ?rm1 = "(room_of s r)\<lparr>rm_crc := rm_crc (room_of s r) @ [(?tick, [(unat a, ?x)])]\<rparr>"
  have first: "log_crc r [a, t0, t1, x0, x1] s = upd_room r (\<lambda>_. ?rm1) s"
    using crc_first_report[OF assms(2,3)] assms(1) by (simp add: log_crc_room)
  have "unat a \<noteq> unat b" using assms(4) by (simp add: word_unat_eq_iff)
  note second = crc_second_report[OF assms(2,3,1) this, of ?y ?x]
  have both: "log_crc r [b, t0, t1, y0, y1] (log_crc r [a, t0, t1, x0, x1] s) =
      fold add_log (snd (note_crc (unat b) ?tick ?y ?rm1)) (upd_room r (\<lambda>_. fst (note_crc (unat b) ?tick ?y ?rm1)) s)"
    unfolding first by (subst log_crc_room) simp
  show ?thesis
  proof (cases "(x0, x1) = (y0, y1)")
    case True
    then show ?thesis unfolding both second by (simp add: Let_def pair16_eq upd_room_def)
  next
    case False
    then have "?x \<noteq> ?y" by (simp add: pair16_inject)
    with False show ?thesis
      unfolding both second by (auto simp: Let_def pair16_eq upd_room_same simp del: sort_key_simps)
  qed
qed

definition crc_demo :: server where
  "crc_demo = upd_room 0 (\<lambda>x. x\<lparr>rm_members := [0, 1], rm_started := True\<rparr>) (Server_init 0 3 None 0 [] [])"

theorem crc_round_witness:
  "sv_log (log_crc 0 [1, 60, 0, 9, 9] (log_crc 0 [0, 60, 0, 7, 1] crc_demo)) =
     [Log_crc_mismatch 60 [(0, 263), (1, 2313)]]"
  using crc_round[of crc_demo 0 60 0 0 1 9 9 7 1]
  by (simp add: crc_demo_def Server_init_def upd_room_def Room_init_def CRC_TABLE_MAX_def)

text \<open>
  Remark (CRC eviction): with 64 pending ticks that are all larger than the reported one (the
  16-bit tick counter has wrapped), a report is discarded as the smallest tick: the room and
  the log stay as they were, so the round of that tick can never be compared.
\<close>

theorem crc_wrap_blind:
  assumes "length (members s r) = 2" "length (rm_crc (room_of s r)) = CRC_TABLE_MAX"
    and "\<forall>t\<in>set (map fst (rm_crc (room_of s r))). pair16 t0 t1 < t"
  shows "log_crc r [b, t0, t1, y0, y1] (log_crc r [a, t0, t1, x0, x1] s) = s"
proof -
  have "log_crc r [sn, t0, t1, z0, z1] s = s" for sn z0 z1
    using crc_evicted_report[OF assms(2,3)] assms(1) by (simp add: log_crc_room upd_room_same)
  then show ?thesis by simp
qed

definition crc_full_demo :: server where
  "crc_full_demo =
     upd_room 0 (\<lambda>x. x\<lparr>rm_crc := map (\<lambda>t. (t, [(0, 5)])) [65000..<65064]\<rparr>) crc_demo"

theorem crc_wrap_blind_witness:
  "sv_log (log_crc 0 [1, 4, 0, 9, 9] (log_crc 0 [0, 4, 0, 7, 1] crc_full_demo)) = []"
proof -
  have "rm_crc (room_of crc_full_demo 0) = map (\<lambda>t. (t, [(0, 5)])) [65000..<65064]"
    "length (members crc_full_demo 0) = 2" "sv_log crc_full_demo = []"
    by (simp_all add: crc_full_demo_def crc_demo_def Server_init_def upd_room_def Room_init_def)
  moreover have "pair16 4 0 = 4" by (simp add: pair16_eq)
  ultimately show ?thesis
    using crc_wrap_blind[of crc_full_demo 0 4 0 1 9 9 0 7 1]
    by (simp add: CRC_TABLE_MAX_def del: upt_rec_numeral)
qed

end
