(* ===== verification/Relay_Protocol.thy ===== *)
theory Relay_Protocol
  imports Relay_Inv Crc_Log
begin

text \<open>
  The protocol handlers of the relay server (server/intv_relay_server.py, lines 352-467):
  \<open>handle\<close> and the operations it dispatches to.  Every handler is shown to be safe: in a
  state where the invariant holds it returns normally, or raises the ProtocolError its guards
  name, and the invariant holds again.
\<close>

section \<open>Handlers\<close>

definition status :: "server \<Rightarrow> cid \<Rightarrow> nat" where
  "status s c =
     (case cl_room (client_of s c) of
        None \<Rightarrow> 1
      | Some r \<Rightarrow>
          let n = length (members s r);
              busy = (if rm_started (room_of s r) \<or> n \<ge> MAX_SEATS then 0x80 else 0)
          in busy OR n)"

text \<open>\<open>c.name\<close> is true when it is neither None nor empty.\<close>

definition lobby_others :: "cid \<Rightarrow> server \<Rightarrow> cid list" where
  "lobby_others c s =
     take 8 (filter (\<lambda>c'. c' \<noteq> c \<and> cl_name (client_of s c') \<notin> {None, Some ''''})
               (map snd (sv_by_name s)))"

definition lobby_entry :: "server \<Rightarrow> cid \<Rightarrow> exn + byte list" where
  "lobby_entry s c =
     (case pad_name (cl_name (client_of s c)) of
        Inl e \<Rightarrow> Inl e
      | Inr nm \<Rightarrow> (case to_bytes [int (status s c)] of Inl e \<Rightarrow> Inl e | Inr b \<Rightarrow> Inr (nm @ b)))"

definition on_list :: "cid \<Rightarrow> server \<Rightarrow> outcome" where
  "on_list c s =
     (let others = lobby_others c s in
      attempt (to_bytes [int (length others)]) s (\<lambda>count.
      attempt (sum_map (lobby_entry s) others) s (\<lambda>entries.
      attempt (frame T_LOBBY (count @ concat entries)) s (\<lambda>data.
        send c data s))))"

definition randrange :: "server \<Rightarrow> nat \<times> server" where
  "randrange s = (case sv_rands s of
      [] \<Rightarrow> (1, s)
    | x # xs \<Rightarrow> (1 + x mod 0xFFFF, s\<lparr>sv_rands := xs\<rparr>))"

definition start_room :: "rid \<Rightarrow> server \<Rightarrow> outcome" where
  "start_room r s =
     (let s1 = upd_room r (\<lambda>x. x\<lparr>rm_started := True\<rparr>) s in
      case randrange s1 of (sd, s2) \<Rightarrow>
      let s3 = upd_room r (\<lambda>x. x\<lparr>rm_seed := sd, rm_crc := [], rm_crc_ok := 0\<rparr>) s2 in
      attempt (to_bytes [int (length (members s3 r)), int (sd AND 0xFF), int (drop_bit 8 sd), sv_delay s3]) s3
        (\<lambda>hdr. attempt (roster s3 r) s3 (\<lambda>names.
           let common = hdr @ names in
           andthen
             (live_loop (length (members s3 r)) 0 r
                (\<lambda>i m s. attempt (to_bytes [int i]) s (\<lambda>b.
                         attempt (frame T_START (b @ common)) s (\<lambda>data. send m data s))) s3)
             (\<lambda>s4. Ok (lobby_update (add_log (Log_match_started r (length (members s4 r)) sd) s4))))))"

definition on_go :: "cid \<Rightarrow> server \<Rightarrow> outcome" where
  "on_go c s =
     (case cl_room (client_of s c) of
        None \<Rightarrow> Ok s
      | Some r \<Rightarrow>
          if rm_started (room_of s r) then Ok s
          else case seat s c of
            Some (Inl e) \<Rightarrow> Raise e s
          | st \<Rightarrow>
              if st \<noteq> Some (Inr 0) then Ok s
              else if \<not> (2 \<le> length (members s r) \<and> length (members s r) \<le> MAX_SEATS) then Ok s
              else start_room r s)"

definition unjoinable :: "cid \<Rightarrow> cid option \<Rightarrow> server \<Rightarrow> bool" where
  "unjoinable c target s =
     (case target of
        None \<Rightarrow> True
      | Some t \<Rightarrow>
          t = c \<or> cl_name (client_of s t) = None \<or>
          (case cl_room (client_of s t) of
             None \<Rightarrow> False
           | Some r \<Rightarrow> rm_started (room_of s r) \<or> length (members s r) \<ge> MAX_SEATS))"

text \<open>\<open>room = target.room\<close>, or a new Room with the target as its host (lines 436-439).\<close>

definition room_for :: "cid \<Rightarrow> server \<Rightarrow> rid \<times> server" where
  "room_for t s =
     (case cl_room (client_of s t) of
        Some r \<Rightarrow> (r, s)
      | None \<Rightarrow>
          let r = sv_next_rid s;
              s1 = upd_room r (\<lambda>_. Room_init t) (s\<lparr>sv_next_rid := Suc r\<rparr>)
          in (r, upd_client t (\<lambda>x. x\<lparr>cl_room := Some r\<rparr>) s1))"

definition on_join :: "cid \<Rightarrow> byte list \<Rightarrow> server \<Rightarrow> outcome" where
  "on_join c payload s =
     (if cl_name (client_of s c) = None then Raise (ProtocolError Join_before_hello) s
      else if cl_room (client_of s c) \<noteq> None then Ok s
      else let target = map_of (sv_by_name s) (wire_name payload) in
        if unjoinable c target s then on_list c s
        else case room_for (the target) s of (r, s1) \<Rightarrow>
          let s2 = upd_room r (\<lambda>x. x\<lparr>rm_members := rm_members x @ [c]\<rparr>) s1;
              s3 = add_log (Log_join c r) (upd_client c (\<lambda>x. x\<lparr>cl_room := Some r\<rparr>) s2)
          in andthen (room_broadcast r s3) (\<lambda>s4.
               let s5 = lobby_update s4 in
               if sv_auto_go s5 \<noteq> 0 \<and> int (length (members s5 r)) \<ge> sv_auto_go s5
               then start_room r s5 else Ok s5))"

text \<open>Lines 390-396: the old alias goes, the new name is stored.\<close>

definition take_name :: "cid \<Rightarrow> string \<Rightarrow> server \<Rightarrow> server" where
  "take_name c n s =
     (let s1 = (case cl_name (client_of s c) of
            None \<Rightarrow> s
          | Some old \<Rightarrow>
              if old \<noteq> n then
                add_log (Log_rename c n)
                  (if map_of (sv_by_name s) old = Some c
                   then s\<lparr>sv_by_name := AList.delete old (sv_by_name s)\<rparr> else s)
              else s);
          s2 = upd_client c (\<lambda>x. x\<lparr>cl_name := Some n\<rparr>) s1
      in s2\<lparr>sv_by_name := AList.update n c (sv_by_name s2)\<rparr>)"

definition on_hello :: "cid \<Rightarrow> byte list \<Rightarrow> server \<Rightarrow> outcome" where
  "on_hello c payload s =
     (if length payload < 3 then Raise (ProtocolError Short_hello) s
      else if payload ! 0 \<noteq> PROTO_VER then Raise (ProtocolError (Bad_version (payload ! 0))) s
      else let n = wire_name (List.drop 1 payload) in
        if \<not> valid_name n then Raise (ProtocolError (Bad_name n)) s
        else andthen
          (case map_of (sv_by_name s) n of
             None \<Rightarrow> Ok s
           | Some old \<Rightarrow> if old \<noteq> c then drop old Replaced s else Ok s)
          (\<lambda>s1. on_list c (lobby_update (add_log (Log_hello c) (take_name c n s1)))))"

definition relay_frame :: "cid \<Rightarrow> byte \<Rightarrow> byte list \<Rightarrow> server \<Rightarrow> outcome" where
  "relay_frame c ftype payload s =
     (case cl_room (client_of s c) of
        None \<Rightarrow> Ok s
      | Some r \<Rightarrow>
          if \<not> rm_started (room_of s r) then Ok s
          else let s1 = (if ftype = T_CRC \<and> length payload = 5 then log_crc r payload s else s) in
            attempt (frame ftype payload) s1 (\<lambda>data.
              live_loop (length (members s1 r)) 0 r
                (\<lambda>i m s. if m \<noteq> c then send m data s else Ok s) s1))"

definition handle :: "cid \<Rightarrow> byte \<Rightarrow> byte list \<Rightarrow> server \<Rightarrow> outcome" where
  "handle c ftype payload s =
     (if ftype \<in> set RELAY_TYPES then relay_frame c ftype payload s
      else if ftype = T_HELLO then on_hello c payload s
      else if ftype = T_LIST then on_list c s
      else if ftype = T_JOIN then on_join c payload s
      else if ftype = T_GO then on_go c s
      else if ftype = T_BYE then drop c Bye s
      else if ftype = T_PING then attempt (frame T_PONG []) s (\<lambda>data. send c data s)
      else Raise (ProtocolError (Unknown_type ftype)) s)"

section \<open>Listing the lobby\<close>

lemma status_less: "good R s \<Longrightarrow> status s c < 256"
proof (cases "cl_room (client_of s c)")
  case (Some r)
  assume "good R s"
  then have "length (members s r) = 0 \<or> length (members s r) = 1 \<or> length (members s r) = 2"
    using good_members_le[of R s r] by linarith
  with Some show ?thesis by (elim disjE) (auto simp: status_def Let_def)
qed (simp add: status_def)

lemma lobby_entry_ok:
  assumes "good R s" "cl_name (client_of s c) = Some n"
  shows "lobby_entry s c = Inr (pad8 (map byte_of_char n) @ [word_of_int (int (status s c))])"
proof -
  have "valid_name n" using assms by (auto simp: good_def core_def names_ok_def)
  then have "pad_name (cl_name (client_of s c)) = Inr (pad8 (map byte_of_char n))"
    using assms(2) by (simp add: pad_name_valid)
  moreover have "to_bytes [int (status s c)] = Inr [word_of_int (int (status s c))]"
    using status_less[OF assms(1), of c] by (subst to_bytes_ok) simp_all
  ultimately show ?thesis by (simp add: lobby_entry_def)
qed

definition lobby_line :: "server \<Rightarrow> cid \<Rightarrow> byte list" where
  "lobby_line s c = pad8 (map byte_of_char (the (cl_name (client_of s c)))) @ [word_of_int (int (status s c))]"

definition lobby_payload_of :: "cid \<Rightarrow> server \<Rightarrow> byte list" where
  "lobby_payload_of c s =
     word_of_int (int (length (lobby_others c s))) # concat (map (lobby_line s) (lobby_others c s))"

lemma lobby_others_le: "length (lobby_others c s) \<le> 8"
  by (simp add: lobby_others_def)

lemma length_lobby_payload: "length (lobby_payload_of c s) = 1 + 9 * length (lobby_others c s)"
  by (simp add: lobby_payload_of_def lobby_line_def length_concat comp_def sum_list_triv)

lemma on_list_sends:
  assumes "good R s"
  shows "\<exists>data. frame T_LOBBY (lobby_payload_of c s) = Inr data \<and> on_list c s = send c data s"
proof -
  have "lobby_entry s c' = Inr (lobby_line s c')" if c': "c' \<in> set (lobby_others c s)" for c'
  proof -
    from c' obtain n where "cl_name (client_of s c') = Some n"
      by (auto simp: lobby_others_def dest!: in_set_takeD)
    with lobby_entry_ok[OF assms this] show ?thesis by (simp add: lobby_line_def)
  qed
  then have e: "sum_map (lobby_entry s) (lobby_others c s) = Inr (map (lobby_line s) (lobby_others c s))"
    by (rule sum_map_Inr)
  have n: "to_bytes [int (length (lobby_others c s))] = Inr [word_of_int (int (length (lobby_others c s)))]"
    using lobby_others_le[of c s] by (subst to_bytes_ok) simp_all
  have "length (lobby_payload_of c s) < 255"
    using lobby_others_le[of c s] by (simp add: length_lobby_payload)
  from frame_ok[OF this, of T_LOBBY] show ?thesis
    by (simp add: on_list_def Let_def n e lobby_payload_of_def)
qed

lemma safe_on_list: "good {} s \<Longrightarrow> safe (on_list c s)"
  using on_list_sends[of "{}" s c] safe_send is_frame_frame by fastforce

section \<open>Starting a match\<close>

lemma good_upd_room_same_members:
  assumes "\<And>x. rm_members (g x) = rm_members x"
  shows "good R (upd_room r g s) = good R s"
proof -
  have m: "members (upd_room r g s) r' = members s r'" for r' using assms by simp
  have "rooms_ok (upd_room r g s) = rooms_ok s" "settled R (upd_room r g s) = settled R s"
    by (simp_all add: rooms_ok_def settled_def m del: upd_room_sel(1))
  then show ?thesis by (simp add: good_def core_def)
qed

lemma randrange_good: "randrange s = (n, t) \<Longrightarrow> good R s \<Longrightarrow> good R t"
  by (auto simp: randrange_def split: list.splits)

lemma randrange_range: "randrange s = (n, t) \<Longrightarrow> 1 \<le> n \<and> n < 0x10000"
  by (auto simp: randrange_def split: list.splits)

lemma randrange_frame:
  "randrange s = (n, t) \<Longrightarrow> sv_room t = sv_room s \<and> sv_delay t = sv_delay s \<and> sv_client t = sv_client s"
  by (auto simp: randrange_def split: list.splits)

definition delay_ok :: "server \<Rightarrow> bool" where
  "delay_ok s \<longleftrightarrow> 0 \<le> sv_delay s \<and> sv_delay s < 256"

lemma and_255_less: "n AND 0xFF < (256 :: nat)"
proof -
  have "n AND 0xFF = take_bit 8 n" by (simp add: take_bit_eq_mask mask_eq_exp_minus_1)
  then show ?thesis by (simp add: take_bit_eq_mod)
qed

lemma safe_start_room:
  assumes "good {} s" "delay_ok s"
  shows "safe (start_room r s)"
proof -
  let ?s1 = "upd_room r (\<lambda>x. x\<lparr>rm_started := True\<rparr>) s"
  obtain sd s2 where rr: "randrange ?s1 = (sd, s2)" by fastforce
  let ?s3 = "upd_room r (\<lambda>x. x\<lparr>rm_seed := sd, rm_crc := [], rm_crc_ok := 0\<rparr>) s2"
  have g1: "good {} ?s1" using assms(1) by (simp add: good_upd_room_same_members)
  from randrange_good[OF rr this] have g3: "good {} ?s3" by (simp add: good_upd_room_same_members)
  obtain names where names: "roster ?s3 r = Inr names" "length names = 32"
    using roster_ok[OF g3] by blast
  have "sd < 0x10000" using randrange_range[OF rr] by simp
  then have hi: "drop_bit 8 sd < 256" by (simp add: drop_bit_eq_div)
  have dl: "0 \<le> sv_delay ?s3" "sv_delay ?s3 < 256"
    using assms(2) randrange_frame[OF rr] by (simp_all add: delay_ok_def)
  let ?hdr = "[int (length (members ?s3 r)), int (sd AND 0xFF), int (drop_bit 8 sd), sv_delay ?s3]"
  have hdr: "to_bytes ?hdr = Inr (map word_of_int ?hdr)"
    using hi dl and_255_less[of sd] good_members_le[OF g3, of r] by (subst to_bytes_ok) auto
  have body: "safe (attempt (to_bytes [int i]) t (\<lambda>b.
       attempt (frame T_START (b @ map word_of_int ?hdr @ names)) t (\<lambda>data. send m data t)))"
    if "good {} t" "i < length (members t r)" for i m t
  proof -
    have "i < 2" using that good_members_le[of "{}" t r] by simp
    then have i: "to_bytes [int i] = Inr [word_of_int (int i)]" by (subst to_bytes_ok) simp_all
    obtain data where "frame T_START ([word_of_int (int i)] @ map word_of_int ?hdr @ names) = Inr data"
      using frame_ok[of "[word_of_int (int i)] @ map word_of_int ?hdr @ names" T_START] names(2) by auto
    with safe_send[OF that(1) is_frame_frame[OF this], of m] show ?thesis by (simp only: i attempt.simps)
  qed
  show ?thesis
    unfolding start_room_def Let_def rr prod.case hdr names(1) attempt.simps append_assoc
    by (intro safe_andthen safe_live_loop g3) (use body in \<open>auto simp: good_lobby_update\<close>)
qed

lemma safe_on_go:
  assumes "good {} s" "delay_ok s"
  shows "safe (on_go c s)"
proof (cases "cl_room (client_of s c)")
  case (Some r)
  then have "c \<in> set (members s r)"
    using assms(1) by (auto simp: good_def core_def rooms_ok_def)
  then obtain i where "seat s c = Some (Inr i)"
    using Some py_index_None[of c "members s r"] by (fastforce simp: seat_def)
  then show ?thesis
    using assms Some safe_start_room by (simp add: on_go_def)
qed (use assms in \<open>simp add: on_go_def\<close>)

section \<open>Joining\<close>

text \<open>
  With two seats a room is full as soon as it exists, so a target that can be joined never has
  a room: every successful JOIN makes a new one.
\<close>

lemma joinable_roomless:
  assumes "good {} s" "\<not> unjoinable c (Some t) s"
  shows "cl_room (client_of s t) = None"
proof (rule ccontr)
  assume "cl_room (client_of s t) \<noteq> None"
  then obtain r where r: "cl_room (client_of s t) = Some r" by auto
  then have "t \<in> set (members s r)" using assms(1) by (auto simp: good_def core_def rooms_ok_def)
  then have "length (members s r) = 2"
    using assms(1) by (fastforce simp: good_def settled_def)
  with r assms(2) show False by (auto simp: unjoinable_def MAX_SEATS_def)
qed

definition joined :: "cid \<Rightarrow> cid \<Rightarrow> server \<Rightarrow> server" where
  "joined t c s =
     (let r = sv_next_rid s in
      add_log (Log_join c r)
       (upd_client c (\<lambda>x. x\<lparr>cl_room := Some r\<rparr>)
       (upd_room r (\<lambda>x. x\<lparr>rm_members := rm_members x @ [c]\<rparr>)
       (upd_client t (\<lambda>x. x\<lparr>cl_room := Some r\<rparr>)
       (upd_room r (\<lambda>_. Room_init t) (s\<lparr>sv_next_rid := Suc r\<rparr>))))))"

lemma joined_sel [simp]:
  "sv_next_rid (joined t c s) = Suc (sv_next_rid s)"
  "room_of (joined t c s) r =
     (if r = sv_next_rid s then (Room_init t)\<lparr>rm_members := [t, c]\<rparr> else room_of s r)"
  "client_of (joined t c s) c' =
     (if c' = c \<or> c' = t then (client_of s c')\<lparr>cl_room := Some (sv_next_rid s)\<rparr> else client_of s c')"
  "sv_sel (joined t c s) = sv_sel s" "sv_by_name (joined t c s) = sv_by_name s"
  "sv_clients (joined t c s) = sv_clients s" "sv_lobby (joined t c s) = sv_lobby s"
  "sv_next_cid (joined t c s) = sv_next_cid s" "sv_delay (joined t c s) = sv_delay s"
  "sv_auto_go (joined t c s) = sv_auto_go s" "sv_sends (joined t c s) = sv_sends s"
  by (simp_all add: joined_def Let_def Room_init_def)

lemma joined_keep:
  "(\<And>x. g (x\<lparr>cl_room := Some (sv_next_rid s)\<rparr>) = g x) \<Longrightarrow>
   g (client_of (joined t c s) c') = g (client_of s c')"
  by simp

lemma fresh_room:
  assumes "core s"
  shows "members s (sv_next_rid s) = []" "cl_room (client_of s c) \<noteq> Some (sv_next_rid s)"
proof -
  show n: "members s (sv_next_rid s) = []"
    using assms unfolding core_def rooms_ok_def by (metis less_irrefl)
  show "cl_room (client_of s c) \<noteq> Some (sv_next_rid s)"
    using assms n unfolding core_def rooms_ok_def by (metis empty_iff empty_set)
qed

lemma good_joined:
  assumes "good {} s" "t \<noteq> c" "cl_room (client_of s t) = None" "cl_room (client_of s c) = None"
    and "cl_name (client_of s t) \<noteq> None" "cl_name (client_of s c) \<noteq> None"
    and "t < sv_next_cid s" "c < sv_next_cid s"
  shows "good {} (joined t c s)"
proof -
  from assms(1) have co: "core s" and ev: "events_ok {} s" and se: "settled {} s"
    by (auto simp: good_def)
  then have ro: "rooms_ok s" by (simp add: core_def)
  have "names_ok (joined t c s) = names_ok s" "alive_named (joined t c s) = alive_named s"
    "conns_ok (joined t c s) = conns_ok s" "tx_ok (joined t c s) = tx_ok s"
    "lobby_ok (joined t c s) = lobby_ok s" "events_ok {} (joined t c s) = events_ok {} s"
    by (simp_all add: names_ok_def alive_named_def conns_ok_def tx_ok_def lobby_ok_def events_ok_def
        joined_keep del: joined_sel(3))
  moreover have "rooms_ok (joined t c s)"
    using ro assms(2,5-8) fresh_room[OF co] unfolding rooms_ok_def
    by (simp add: joined_keep[of cl_name] del: joined_sel(3))
       (auto simp: MAX_SEATS_def Room_init_def less_Suc_eq)
  moreover have "settled {} (joined t c s)"
    using se assms(3,4) unfolding settled_def by auto
  ultimately show ?thesis using co ev by (simp add: good_def core_def)
qed

lemma on_join_joins:
  assumes "good {} s" "cl_name (client_of s c) \<noteq> None" "cl_room (client_of s c) = None"
    and "map_of (sv_by_name s) (wire_name payload) = Some t" "\<not> unjoinable c (Some t) s"
  shows "on_join c payload s =
    andthen (room_broadcast (sv_next_rid s) (joined t c s)) (\<lambda>s4.
      let s5 = lobby_update s4; r = sv_next_rid s in
      if sv_auto_go s5 \<noteq> 0 \<and> int (length (members s5 r)) \<ge> sv_auto_go s5 then start_room r s5 else Ok s5)"
  using assms joinable_roomless[OF assms(1,5)]
  by (auto simp: on_join_def room_for_def joined_def Let_def)

lemma safe_on_join:
  assumes "good {} s" "delay_ok s" "c < sv_next_cid s" "cl_name (client_of s c) \<noteq> None"
  shows "safe (on_join c payload s)"
proof (cases "cl_room (client_of s c) \<noteq> None \<or>
    unjoinable c (map_of (sv_by_name s) (wire_name payload)) s")
  case True
  then show ?thesis
    using assms safe_on_list by (auto simp: on_join_def Let_def)
next
  case False
  then obtain t where t: "map_of (sv_by_name s) (wire_name payload) = Some t"
    by (auto simp: unjoinable_def split: option.splits)
  have c: "cl_room (client_of s c) = None" and j: "\<not> unjoinable c (Some t) s"
    using False t by auto
  have "t \<noteq> c" "cl_name (client_of s t) \<noteq> None" using j by (auto simp: unjoinable_def)
  moreover have "t < sv_next_cid s"
    using assms(1) map_of_SomeD[OF t] by (auto simp: good_def core_def names_ok_def)
  ultimately have g: "good {} (joined t c s)"
    using assms joinable_roomless[OF assms(1) j] c by (intro good_joined) auto
  have dl: "delay_ok u" if "room_broadcast (sv_next_rid s) (joined t c s) = Ok u" for u
    using plumbing.room_broadcast_evolves[of "joined t c s" "sv_next_rid s"] that assms(2)
    by (simp add: room_broadcast_def evolves_def delay_ok_def)
  show ?thesis
    unfolding on_join_joins[OF assms(1,4) c t j] Let_def
    by (intro safe_andthen safe_room_broadcast g)
       (auto simp: good_lobby_update delay_ok_def dest!: dl intro!: safe_start_room)
qed

section \<open>Saying hello\<close>

lemma take_name_sel [simp]:
  "client_of (take_name c n s) c' = (if c' = c then (client_of s c)\<lparr>cl_name := Some n\<rparr> else client_of s c')"
  "sv_room (take_name c n s) = sv_room s" "sv_sel (take_name c n s) = sv_sel s"
  "sv_clients (take_name c n s) = sv_clients s" "sv_lobby (take_name c n s) = sv_lobby s"
  "sv_next_cid (take_name c n s) = sv_next_cid s" "sv_next_rid (take_name c n s) = sv_next_rid s"
  "sv_delay (take_name c n s) = sv_delay s" "sv_auto_go (take_name c n s) = sv_auto_go s"
  "sv_sends (take_name c n s) = sv_sends s"
  by (simp_all add: take_name_def Let_def split: option.split)

lemma names_ok_map:
  "names_ok s \<Longrightarrow> (n, c) \<in> set (sv_by_name s) \<longleftrightarrow> map_of (sv_by_name s) n = Some c"
  by (auto simp: names_ok_def intro: map_of_is_SomeI dest: map_of_SomeD)

text \<open>The directory after \<open>take_name\<close>: the new name points to the client, its old one is gone.\<close>

lemma take_name_by_name:
  assumes "names_ok s"
  shows "distinct (map fst (sv_by_name (take_name c n s)))"
    and "map_of (sv_by_name (take_name c n s)) n' =
      (if n' = n then Some c
       else if map_of (sv_by_name s) n' = Some c then None else map_of (sv_by_name s) n')"
proof -
  let ?d = "sv_by_name s"
  define d1 where "d1 = (case cl_name (client_of s c) of
      None \<Rightarrow> ?d
    | Some old \<Rightarrow> if old \<noteq> n \<and> map_of ?d old = Some c then AList.delete old ?d else ?d)"
  have d: "distinct (map fst ?d)" using assms by (simp add: names_ok_def)
  have eq: "sv_by_name (take_name c n s) = AList.update n c d1"
    by (simp add: take_name_def d1_def Let_def split: option.split)
  have "distinct (map fst d1)"
    using d pydict.keys_del_distinct[OF d] by (simp add: d1_def split: option.split)
  then show "distinct (map fst (sv_by_name (take_name c n s)))"
    unfolding eq by (rule pydict.keys_put_distinct)
  have nm: "map_of ?d n' = Some c \<Longrightarrow> cl_name (client_of s c) = Some n'"
    using assms names_ok_map[OF assms] by (auto simp: names_ok_def)
  have "n' \<noteq> n \<Longrightarrow> map_of d1 n' = (if map_of ?d n' = Some c then None else map_of ?d n')"
    using nm by (auto simp: d1_def dict_simps split: option.split)
  then show "map_of (sv_by_name (take_name c n s)) n' =
      (if n' = n then Some c
       else if map_of ?d n' = Some c then None else map_of ?d n')"
    unfolding eq by (simp add: dict_simps)
qed

lemma names_take_name:
  assumes "names_ok s" "valid_name n" "c < sv_next_cid s"
  shows "names_ok (take_name c n s)"
proof -
  have "cl_name (client_of (take_name c n s) c') = Some n' \<and> c' < sv_next_cid s"
    if "(n', c') \<in> set (sv_by_name (take_name c n s))" for n' c'
  proof (cases "n' = n")
    case True
    from that have "map_of (sv_by_name (take_name c n s)) n' = Some c'"
      using take_name_by_name(1)[OF assms(1)] by (simp add: map_of_is_SomeI)
    with True assms(3) show ?thesis by (simp add: take_name_by_name(2)[OF assms(1)])
  next
    case False
    from that have "map_of (sv_by_name (take_name c n s)) n' = Some c'"
      using take_name_by_name(1)[OF assms(1)] by (simp add: map_of_is_SomeI)
    with False have "map_of (sv_by_name s) n' = Some c'" "c' \<noteq> c"
      by (auto simp: take_name_by_name(2)[OF assms(1)] split: if_splits)
    then show ?thesis using assms(1) names_ok_map[OF assms(1)] by (auto simp: names_ok_def)
  qed
  then show ?thesis
    using take_name_by_name(1)[OF assms(1)] assms(1,2) by (auto simp: names_ok_def)
qed

lemma alive_take_name:
  assumes "names_ok s" "alive_named s"
    and "\<And>c'. c' \<noteq> c \<Longrightarrow> \<not> cl_dead (client_of s c') \<Longrightarrow> cl_name (client_of s c') \<noteq> Some n"
  shows "alive_named (take_name c n s)"
  unfolding alive_named_def
proof (intro allI impI)
  fix c' n'
  assume a: "\<not> cl_dead (client_of (take_name c n s) c')"
    "cl_name (client_of (take_name c n s) c') = Some n'"
  have "map_of (sv_by_name (take_name c n s)) n' = Some c'"
  proof (cases "c' = c")
    case True
    with a show ?thesis by (simp add: take_name_by_name(2)[OF assms(1)])
  next
    case False
    with a assms(2) have "map_of (sv_by_name s) n' = Some c'"
      by (auto simp: alive_named_def names_ok_map[OF assms(1)])
    moreover have "n' \<noteq> n" using False a assms(3)[of c'] by auto
    ultimately show ?thesis using False by (simp add: take_name_by_name(2)[OF assms(1)])
  qed
  then show "(n', c') \<in> set (sv_by_name (take_name c n s))" by (rule map_of_SomeD)
qed

lemma good_take_name:
  assumes "good {} s" "valid_name n" "c < sv_next_cid s"
    and "\<And>c'. c' \<noteq> c \<Longrightarrow> \<not> cl_dead (client_of s c') \<Longrightarrow> cl_name (client_of s c') \<noteq> Some n"
  shows "good {} (lobby_update (add_log m (take_name c n s)))"
proof -
  from assms(1) have p: "rooms_ok s" "names_ok s" "alive_named s" "conns_ok s" "tx_ok s"
    "events_ok {} s" "settled {} s"
    by (auto simp: good_def core_def)
  have keep: "g (client_of (take_name c n s) c') = g (client_of s c')"
    if "\<And>x. g (x\<lparr>cl_name := Some n\<rparr>) = g x" for c' and g :: "client \<Rightarrow> 'a"
    using that by simp
  have "tx_ok (take_name c n s) = tx_ok s" "events_ok {} (take_name c n s) = events_ok {} s"
    "settled {} (take_name c n s) = settled {} s" "conns_ok (take_name c n s) = conns_ok s"
    by (simp_all add: tx_ok_def events_ok_def settled_def conns_ok_def keep del: take_name_sel(1))
  moreover have "rooms_ok (take_name c n s)"
    using p(1) unfolding rooms_ok_def by (simp add: keep[of cl_room] del: take_name_sel(1)) simp
  moreover have "names_ok (take_name c n s)"
    using p(2) assms(2,3) by (rule names_take_name)
  moreover have "alive_named (take_name c n s)"
    using p(2,3) assms(4) by (rule alive_take_name)
  moreover have "rooms_ok (add_log m t) = rooms_ok t" "names_ok (add_log m t) = names_ok t"
    "alive_named (add_log m t) = alive_named t" "conns_ok (add_log m t) = conns_ok t"
    "tx_ok (add_log m t) = tx_ok t" for t
    by (simp_all add: rooms_ok_def names_ok_def alive_named_def conns_ok_def tx_ok_def)
  ultimately show ?thesis using p by (simp add: good_def core_def)
qed

lemma drop_client_kills:
  assumes "drop_client (Suc d) c why s = Ok t"
  shows "cl_dead (client_of t c)"
proof (cases "cl_dead (client_of s c)")
  case False
  have "evolves (unlink c why s) t"
    using assms False evolving_dropper.leave_room_evolves[OF drop_client_evolving, of "unlink c why s" d]
    by (auto simp: drop_client.simps(2) Let_def split: option.splits sum.splits) (metis final.simps(1))
  then show ?thesis by (rule evolves_dead) simp
qed (use assms in simp)

lemma drop_kills: "drop c why s = Ok t \<Longrightarrow> cl_dead (client_of t c)"
  unfolding drop_def DEPTH_def by (rule drop_client_kills[of 7]) (simp add: numeral_eq_Suc)

lemma drop_evolves: "drop c why s = Ok t \<Longrightarrow> evolves s t"
  using plumbing.drp_evolves[of s c why] by simp

definition hello_accepts :: "byte list \<Rightarrow> bool" where
  "hello_accepts payload \<longleftrightarrow>
     3 \<le> length payload \<and> payload ! 0 = PROTO_VER \<and> valid_name (wire_name (List.drop 1 payload))"

text \<open>The holder of the name, if it is another client, is dropped first.\<close>

definition evict_holder :: "cid \<Rightarrow> string \<Rightarrow> server \<Rightarrow> outcome" where
  "evict_holder c n s =
     (case map_of (sv_by_name s) n of
        None \<Rightarrow> Ok s
      | Some old \<Rightarrow> if old \<noteq> c then drop old Replaced s else Ok s)"

lemma on_hello_accepted:
  "hello_accepts payload \<Longrightarrow> n = wire_name (List.drop 1 payload) \<Longrightarrow>
   on_hello c payload s = andthen (evict_holder c n s)
     (\<lambda>s1. on_list c (lobby_update (add_log (Log_hello c) (take_name c n s1))))"
  by (simp add: hello_accepts_def on_hello_def evict_holder_def Let_def)

lemma on_hello_rejected:
  "\<not> hello_accepts payload \<Longrightarrow> \<exists>e. on_hello c payload s = Raise (ProtocolError e) s"
  by (auto simp: hello_accepts_def on_hello_def Let_def)

lemma safe_evict_holder: "good {} s \<Longrightarrow> safe (evict_holder c n s)"
  by (auto simp: evict_holder_def safe_drop split: option.split)

lemma evict_holder_evolves: "evict_holder c n s = Ok t \<Longrightarrow> evolves s t"
  by (auto simp: evict_holder_def split: option.splits if_splits dest: drop_evolves)

lemma evict_holder_frees:
  assumes "good {} s" "evict_holder c n s = Ok t" "c' \<noteq> c" "\<not> cl_dead (client_of t c')"
  shows "cl_name (client_of t c') \<noteq> Some n"
proof
  assume "cl_name (client_of t c') = Some n"
  moreover have ev: "evolves s t" by (rule evict_holder_evolves[OF assms(2)])
  ultimately have "cl_name (client_of s c') = Some n" "\<not> cl_dead (client_of s c')"
    using assms(4) evolves_dead[OF ev] by (auto simp: evolves_name[OF ev])
  then have "map_of (sv_by_name s) n = Some c'"
    using assms(1) by (auto simp: good_def core_def alive_named_def names_ok_map)
  with assms(2-4) drop_kills show False by (auto simp: evict_holder_def)
qed

lemma safe_on_hello:
  assumes "good {} s" "c < sv_next_cid s" "hello_accepts payload"
  shows "safe (on_hello c payload s)"
  unfolding on_hello_accepted[OF assms(3) refl]
proof (intro safe_andthen safe_evict_holder safe_on_list good_take_name)
  show "valid_name (wire_name (List.drop 1 payload))"
    using assms(3) by (simp add: hello_accepts_def)
qed (use assms evict_holder_frees in \<open>auto dest!: evict_holder_evolves simp: evolves_def\<close>)

section \<open>Relaying\<close>

lemma fold_add_log_sel [simp]:
  "sv_room (fold add_log ms s) = sv_room s" "sv_client (fold add_log ms s) = sv_client s"
  "sv_by_name (fold add_log ms s) = sv_by_name s" "sv_delay (fold add_log ms s) = sv_delay s"
  "sv_sends (fold add_log ms s) = sv_sends s" "sv_next_cid (fold add_log ms s) = sv_next_cid s"
  "sv_log (fold add_log ms s) = sv_log s @ ms"
  by (induction ms arbitrary: s) simp_all

lemma good_fold_add_log [simp]: "good R (fold add_log ms s) = good R s"
  by (induction ms arbitrary: s) simp_all

lemma good_log_crc: "good R s \<Longrightarrow> good R (log_crc r payload s)"
proof -
  assume g: "good R s"
  define rm where "rm = fst (note_crc (unat (payload ! 0)) (pair16 (payload ! 1) (payload ! 2))
    (pair16 (payload ! 3) (payload ! 4)) (room_of s r))"
  have m: "rm_members rm = members s r" by (simp add: rm_def note_crc_frame(1))
  have "rm\<lparr>rm_members := members s r\<rparr> = rm" unfolding m [symmetric] by simp
  then have "upd_room r (\<lambda>_. rm) s = upd_room r (\<lambda>x. rm\<lparr>rm_members := rm_members x\<rparr>) s"
    by (simp add: upd_room_def)
  then have "good R (upd_room r (\<lambda>_. rm) s)"
    using g by (simp add: good_upd_room_same_members)
  then show ?thesis
    by (auto simp: log_crc_def Let_def rm_def split: prod.split)
qed

lemma log_crc_members [simp]: "members (log_crc r payload s) r' = members s r'"
  by (simp add: log_crc_def Let_def note_crc_frame split: prod.split)
     (metis fst_conv note_crc_frame(1))

lemma safe_relay_frame:
  assumes "good {} s" "length payload < 255"
  shows "safe (relay_frame c ftype payload s)"
proof -
  obtain data where data: "frame ftype payload = Inr data"
    using frame_ok[OF assms(2)] by blast
  have loop: "safe (live_loop n 0 r (\<lambda>i m s. if m \<noteq> c then send m data s else Ok s) t)"
    if "good {} t" for n r t
    using that by (intro safe_live_loop) (auto intro: safe_send is_frame_frame[OF data])
  have "good {} (if b then log_crc r payload s else s)" for b r
    using assms(1) good_log_crc by simp
  then show ?thesis
    using loop assms(1) by (auto simp: relay_frame_def Let_def data split: option.split)
qed

section \<open>Dispatch\<close>

definition handled :: "server \<Rightarrow> outcome \<Rightarrow> bool" where
  "handled s out \<longleftrightarrow> safe out \<or> (\<exists>e. out = Raise (ProtocolError e) s)"

lemma handled_safe: "safe out \<Longrightarrow> handled s out"
  by (simp add: handled_def)

lemma handle_handled:
  assumes "good {} s" "delay_ok s" "c < sv_next_cid s" "length payload < 255"
  shows "handled s (handle c ftype payload s)"
proof -
  have "handled s (on_hello c payload s)"
    using safe_on_hello[OF assms(1,3)] on_hello_rejected by (fastforce simp: handled_def)
  moreover have "handled s (on_join c payload s)"
    using safe_on_join[OF assms(1-3)] by (fastforce simp: handled_def on_join_def)
  moreover obtain pong where "frame T_PONG [] = Inr pong"
    using frame_ok[of "[]" T_PONG] by auto
  then have "safe (attempt (frame T_PONG []) s (\<lambda>data. send c data s))"
    using safe_send[OF assms(1) is_frame_frame] by (auto intro: safe_attempt)
  moreover have "safe (relay_frame c ftype payload s)" "safe (on_list c s)" "safe (on_go c s)"
    "safe (drop c Bye s)"
    using assms safe_relay_frame safe_on_list safe_on_go safe_drop by blast+
  ultimately show ?thesis
    unfolding handle_def by (auto intro: handled_safe) (auto simp: handled_def)
qed

end
