(* ===== verification/Relay_Loop.thy ===== *)
theory Relay_Loop
  imports Relay_Protocol
begin

text \<open>
  The event loop of the relay server (server/intv_relay_server.py, lines 154-204, 240-255 and
  320-349): \<open>accept\<close>, \<open>service\<close> with its frame reassembly, \<open>sweep\<close>,
  \<open>log_stats\<close> and one iteration of \<open>run\<close> per event.  The sockets' side is data:
  an event carries what \<open>accept\<close>, \<open>recv\<close> and the clock returned.
\<close>

section \<open>Receiving\<close>

datatype recv_result = Recv "byte list" | Recv_blocks | Recv_fails

text \<open>
  The loop of \<open>service\<close>.  Every iteration that continues consumes at least two bytes of the
  buffer, so the length of the buffer bounds the iterations; with the bound used up the buffer
  is empty, where the loop returns (\<open>service_loop_delivers\<close> in Relay\_Frames).
\<close>

fun service_loop :: "nat \<Rightarrow> cid \<Rightarrow> server \<Rightarrow> outcome" where
  "service_loop 0 c s = Ok s"
| "service_loop (Suc n) c s =
     (let rx = cl_rx (client_of s c) in
      if rx = [] then Ok s
      else let need = unat (rx ! 0) + 1 in
        if need < 2 \<or> unat (rx ! 0) > 200 then drop c (Bad_frame_length (rx ! 0)) s
        else if length rx < need then Ok s
        else let body = List.drop 1 (take need rx);
                 s1 = upd_client c (\<lambda>x. x\<lparr>cl_rx := List.drop need (cl_rx x)\<rparr>) s
          in case handle c (body ! 0) (List.drop 1 body) s1 of
               Raise (ProtocolError e) s2 \<Rightarrow> drop c (Protocol_violation e) s2
             | Raise e s2 \<Rightarrow> Raise e s2
             | Ok s2 \<Rightarrow> if cl_dead (client_of s2 c) then Ok s2 else service_loop n c s2)"

definition service :: "cid \<Rightarrow> recv_result \<Rightarrow> server \<Rightarrow> outcome" where
  "service c result s =
     (case result of
        Recv_blocks \<Rightarrow> Ok s
      | Recv_fails \<Rightarrow> drop c Recv_error s
      | Recv data \<Rightarrow>
          if data = [] then drop c Peer_closed s
          else let s1 = upd_client c (\<lambda>x. x\<lparr>cl_rx := cl_rx x @ data\<rparr>) s in
            service_loop (length (cl_rx (client_of s1 c))) c s1)"

section \<open>Accepting, sweeping, statistics\<close>

text \<open>
  \<open>srv.accept()\<close> and the two socket calls after the limits were checked may raise; the first
  component says so.
\<close>

datatype accept_result = Accept_fails | Accepted "string \<times> nat" bool

definition bump_rejections :: "server \<Rightarrow> server" where
  "bump_rejections s =
     s\<lparr>sv_stats := (sv_stats s)\<lparr>st_connection_limit_rejections := st_connection_limit_rejections (sv_stats s) + 1\<rparr>\<rparr>"

definition per_ip :: "string \<Rightarrow> server \<Rightarrow> nat" where
  "per_ip ip s = length (filter (\<lambda>c. fst (cl_addr (client_of s c)) = ip) (sv_clients s))"

definition accept :: "accept_result \<Rightarrow> time \<Rightarrow> server \<Rightarrow> outcome" where
  "accept result now s =
     (case result of
        Accept_fails \<Rightarrow> Raise OSError s
      | Accepted addr opts_ok \<Rightarrow>
          if length (sv_clients s) \<ge> MAX_CLIENTS then
            Ok (add_log (Log_reject_full (length (sv_clients s))) (bump_rejections s))
          else if per_ip (fst addr) s \<ge> MAX_CONNECTIONS_PER_IP then
            Ok (add_log (Log_reject_ip (per_ip (fst addr) s)) (bump_rejections s))
          else if \<not> opts_ok then Raise OSError s
          else let c = sv_next_cid s;
                   s1 = upd_client c (\<lambda>_. Client_init addr now) (s\<lparr>sv_next_cid := Suc c\<rparr>);
                   s2 = s1\<lparr>sv_clients := sv_clients s1 @ [c]\<rparr>;
                   s3 = s2\<lparr>sv_sel := (sv_sel s2)(c := Some False)\<rparr>
            in Ok (add_log (Log_connect (fst addr) (snd addr)) s3))"

text \<open>
  \<open>sweep\<close> walks a copy of the set of clients; \<open>order\<close> is the order in which the set
  is iterated.
\<close>

fun sweep :: "cid list \<Rightarrow> time \<Rightarrow> server \<Rightarrow> outcome" where
  "sweep [] now s = Ok s"
| "sweep (c # order) now s =
     (if cl_name (client_of s c) = None \<and> now - cl_connected_at (client_of s c) > HELLO_TIMEOUT then
        andthen
          (drop c No_hello
            (s\<lparr>sv_stats := (sv_stats s)\<lparr>st_hello_timeouts := st_hello_timeouts (sv_stats s) + 1\<rparr>\<rparr>))
          (sweep order now)
      else sweep order now s)"

definition log_stats :: "server \<Rightarrow> server" where
  "log_stats s =
     (let counts = (sv_stats s, case sv_lobby s of None \<Rightarrow> 0 | Some p \<Rightarrow> pb_failures p) in
      if counts = sv_last_stats s then s
      else add_log
        (Log_stats (length (sv_clients s))
           (length (filter (\<lambda>c. cl_name (client_of s c) = None) (sv_clients s))))
        (s\<lparr>sv_last_stats := counts\<rparr>))"

section \<open>The loop\<close>

text \<open>
  One event of \<open>run\<close>: the listening socket is readable; a client's socket is writable
  and/or readable (what the read returned); the periodic sweep and statistics; a step of the
  lobby's worker thread.  An exception while a client is served drops that client; an
  exception in \<open>accept\<close> leaves \<open>run\<close>.
\<close>

datatype event =
    Ev_accept accept_result time
  | Ev_client cid bool "recv_result option"
  | Ev_sweep "cid list" time
  | Ev_stats
  | Ev_lobby publisher

text \<open>The body of the \<open>try\<close> for one client (lines 169-173), and its handler.\<close>

definition serve_try :: "cid \<Rightarrow> bool \<Rightarrow> recv_result option \<Rightarrow> server \<Rightarrow> outcome" where
  "serve_try c writable readable s =
     andthen (if writable \<and> \<not> cl_dead (client_of s c) then flush c s else Ok s)
       (\<lambda>s1. case readable of
          None \<Rightarrow> Ok s1
        | Some result \<Rightarrow> if \<not> cl_dead (client_of s1 c) then service c result s1 else Ok s1)"

definition serve_client :: "cid \<Rightarrow> bool \<Rightarrow> recv_result option \<Rightarrow> server \<Rightarrow> outcome" where
  "serve_client c writable readable s =
     (case serve_try c writable readable s of
        Ok s2 \<Rightarrow> Ok s2
      | Raise e s2 \<Rightarrow> drop c Internal_error (add_log (Log_unexpected c e) s2))"

fun run_event :: "event \<Rightarrow> server \<Rightarrow> outcome" where
  "run_event (Ev_accept result now) s = accept result now s"
| "run_event (Ev_client c writable readable) s = serve_client c writable readable s"
| "run_event (Ev_sweep order now) s = sweep order now s"
| "run_event Ev_stats s = Ok (log_stats s)"
| "run_event (Ev_lobby p) s = Ok (s\<lparr>sv_lobby := Some p\<rparr>)"

text \<open>
  Which events can happen: only registered clients are selected, the sweep covers the clients,
  and the lobby moves by a step of its worker.
\<close>

fun enabled :: "event \<Rightarrow> server \<Rightarrow> bool" where
  "enabled (Ev_accept result now) s = True"
| "enabled (Ev_client c writable readable) s = (c < sv_next_cid s)"
| "enabled (Ev_sweep order now) s = (distinct order \<and> set order = set (sv_clients s))"
| "enabled Ev_stats s = True"
| "enabled (Ev_lobby p) s = (\<exists>q. sv_lobby s = Some q \<and> worker_step q p)"

inductive loop_step :: "server \<Rightarrow> server \<Rightarrow> bool" where
  "enabled e s \<Longrightarrow> run_event e s = Ok t \<Longrightarrow> loop_step s t"

inductive_cases loop_stepE: "loop_step s t"

definition server_initial :: "server \<Rightarrow> bool" where
  "server_initial s \<longleftrightarrow>
     (\<exists>port delay lobby auto_go sends rands.
        0 \<le> delay \<and> delay < 256 \<and> 
        (\<forall>p. lobby = Some p \<longrightarrow> pub_reach p \<and> pb_main p = M_running \<and> lp_curplayers (pb_payload p) = 0) \<and>
        s = Server_init port delay lobby auto_go sends rands)"

abbreviation server_reach :: "server \<Rightarrow> bool" where
  "server_reach \<equiv> reach server_initial loop_step"

section \<open>What serving a client may change\<close>

text \<open>
  The counterpart of \<open>evolves\<close> for whole handlers, which also seat, name and start: streams
  grow by whole frames, nobody is revived, buffers are left alone except those of the clients
  in \<open>X\<close>, and the checksum tables stay within their bounds.
\<close>

definition client_progress :: "bool \<Rightarrow> client \<Rightarrow> client \<Rightarrow> bool" where
  "client_progress own x y \<longleftrightarrow>
     cl_addr y = cl_addr x \<and> cl_connected_at y = cl_connected_at x \<and> (own \<or> cl_rx y = cl_rx x) \<and>
     (cl_name x \<noteq> None \<longrightarrow> cl_name y \<noteq> None) \<and>
     (cl_dead x \<longrightarrow> cl_dead y \<and> cl_tx y = cl_tx x \<and> cl_wire y = cl_wire x) \<and>
     (\<exists>w. cl_wire y = cl_wire x @ w) \<and>
     framed_ext (cl_wire x @ cl_tx x) (cl_wire y @ cl_tx y)"

definition progress :: "cid set \<Rightarrow> server \<Rightarrow> server \<Rightarrow> bool" where
  "progress X s t \<longleftrightarrow>
     (\<forall>c. client_progress (c \<in> X) (client_of s c) (client_of t c)) \<and>
     (\<forall>r. crc_table_ok (room_of s r) \<longrightarrow> crc_table_ok (room_of t r)) \<and>
     sv_next_cid t = sv_next_cid s \<and> sv_delay t = sv_delay s \<and> sv_auto_go t = sv_auto_go s \<and>
     set (sv_clients t) \<subseteq> set (sv_clients s) \<and> published (sv_lobby s) (sv_lobby t)"

lemma client_progress_refl [simp]: "client_progress own x x"
  by (simp add: client_progress_def)

lemma client_progress_trans:
  "client_progress own x y \<Longrightarrow> client_progress own y z \<Longrightarrow> client_progress own x z"
  unfolding client_progress_def by (auto intro: framed_ext_trans)

lemma progress_refl [simp, intro]: "progress X s s"
  by (simp add: progress_def)

lemma progress_trans [trans]: "progress X s t \<Longrightarrow> progress X t u \<Longrightarrow> progress X s u"
  unfolding progress_def by (auto intro: client_progress_trans published_trans)

lemma progress_mono: "progress X s t \<Longrightarrow> X \<subseteq> Y \<Longrightarrow> progress Y s t"
  unfolding progress_def client_progress_def by (meson subsetD)

lemma progress_rx: "progress X s t \<Longrightarrow> c \<notin> X \<Longrightarrow> cl_rx (client_of t c) = cl_rx (client_of s c)"
  by (auto simp: progress_def client_progress_def)

lemma evolves_progress: "evolves s t \<Longrightarrow> progress X s t"
  unfolding evolves_def progress_def client_evolves_def client_progress_def room_evolves_def crc_table_ok_def
  by simp

lemma progress_andthen:
  "progress X s (final o1) \<Longrightarrow> (\<And>t. o1 = Ok t \<Longrightarrow> progress X s t \<Longrightarrow> progress X s (final (f t))) \<Longrightarrow>
   progress X s (final (andthen o1 f))"
  by (cases o1) auto

lemma progress_attempt:
  "progress X s u \<Longrightarrow> (\<And>x. v = Inr x \<Longrightarrow> progress X s (final (f x))) \<Longrightarrow>
   progress X s (final (attempt v u f))"
  by (cases v) auto

lemma progress_lobby_update: "progress X s t \<Longrightarrow> progress X s (lobby_update t)"
  by (simp add: progress_def)

lemma progress_add_log: "progress X s t \<Longrightarrow> progress X s (add_log m t)"
  by (simp add: progress_def)

lemma progress_evolves: "progress X s t \<Longrightarrow> evolves t u \<Longrightarrow> progress X s u"
  using evolves_progress progress_trans by blast

lemma send_progress: "progress X s t \<Longrightarrow> is_frame data \<Longrightarrow> progress X s (final (send c data t))"
  unfolding send_def using plumbing.send_evolves progress_evolves by blast

lemma on_list_progress: "progress X s t \<Longrightarrow> progress X s (final (on_list c t))"
  unfolding on_list_def Let_def
  by (intro progress_attempt send_progress) (auto dest: is_frame_frame)

lemma randrange_progress: "randrange s = (n, t) \<Longrightarrow> progress X s t"
  by (auto simp: randrange_def progress_def split: list.splits)

lemma progress_upd_room:
  "progress X s t \<Longrightarrow> (\<And>x. crc_table_ok x \<Longrightarrow> crc_table_ok (g x)) \<Longrightarrow> progress X s (upd_room r g t)"
  by (auto simp: progress_def)

lemma start_room_progress:
  assumes "progress X s t"
  shows "progress X s (final (start_room r t))"
proof -
  let ?t1 = "upd_room r (\<lambda>x. x\<lparr>rm_started := True\<rparr>) t"
  obtain sd t2 where rr: "randrange ?t1 = (sd, t2)" by fastforce
  let ?t3 = "upd_room r (\<lambda>x. x\<lparr>rm_seed := sd, rm_crc := [], rm_crc_ok := 0\<rparr>) t2"
  have "progress X s ?t1"
    using assms by (rule progress_upd_room) (simp add: crc_table_ok_def)
  then have "progress X s t2" using randrange_progress[OF rr] by (rule progress_trans)
  then have t3: "progress X s ?t3"
    by (rule progress_upd_room) (simp add: crc_table_ok_def)
  have loop: "evolves u (final (live_loop n i r (\<lambda>i m s. attempt (to_bytes [int i]) s (\<lambda>b.
       attempt (frame T_START (b @ common)) s (\<lambda>data. send m data s))) u))" for u n i common
    unfolding send_def
    by (intro plumbing.live_loop_evolves evolves_attempt plumbing.send_evolves) (auto dest: is_frame_frame)
  show ?thesis
    unfolding start_room_def Let_def rr prod.case
    by (intro progress_attempt progress_andthen)
       (auto intro: t3 progress_evolves[OF t3 loop] progress_lobby_update progress_add_log)
qed

lemma on_go_progress: "progress X s (final (on_go c s))"
  using start_room_progress[OF progress_refl]
  by (auto simp: on_go_def split: option.split sum.split)

lemma on_join_progress: "progress X s (final (on_join c payload s))"
proof -
  have rf: "progress X s u" if "room_for t s = (r, u)" for t r u
    using that
    by (auto simp: room_for_def Let_def progress_def client_progress_def crc_table_ok_def Room_init_def
        split: option.splits if_splits)
  let ?seated = "\<lambda>r u. add_log (Log_join c r) (upd_client c (\<lambda>x. x\<lparr>cl_room := Some r\<rparr>)
     (upd_room r (\<lambda>x. x\<lparr>rm_members := rm_members x @ [c]\<rparr>) u))"
  have se: "progress X s (?seated r u)" if "progress X s u" for r u
    using that by (auto simp: progress_def client_progress_def crc_table_ok_def)
  have "progress X s (final (room_broadcast r (?seated r u)))" if "progress X s u" for r u
    unfolding room_broadcast_def
    by (rule progress_evolves[OF se[OF that] plumbing.room_broadcast_evolves])
  then have "progress X s (final (andthen (room_broadcast r (?seated r u)) (\<lambda>s4.
               let s5 = lobby_update s4 in
               if sv_auto_go s5 \<noteq> 0 \<and> int (length (members s5 r)) \<ge> sv_auto_go s5
               then start_room r s5 else Ok s5)))" if "progress X s u" for r u
    using that by (intro progress_andthen) (auto simp: Let_def intro: start_room_progress progress_lobby_update)
  then show ?thesis
    using on_list_progress[OF progress_refl] rf
    by (auto simp: on_join_def Let_def split: prod.split)
qed

lemma on_hello_progress: "progress X s (final (on_hello c payload s))"
proof (cases "hello_accepts payload")
  case True
  have tn: "progress X s (take_name c n t)" if "progress X s t" for n t
    using that by (auto simp: progress_def client_progress_def)
  have "progress X s (final (evict_holder c n s))" for n
    using evolves_progress[OF plumbing.drp_evolves, of X s]
    by (auto simp: evict_holder_def split: option.split)
  then show ?thesis
    unfolding on_hello_accepted[OF True refl]
    by (intro progress_andthen on_list_progress progress_lobby_update progress_add_log tn)
next
  case False
  with on_hello_rejected[of payload c s] show ?thesis by auto
qed

lemma log_crc_progress: "progress X s t \<Longrightarrow> progress X s (log_crc r payload t)"
proof -
  assume p: "progress X s t"
  define rm where "rm = fst (note_crc (unat (payload ! 0)) (pair16 (payload ! 1) (payload ! 2))
    (pair16 (payload ! 3) (payload ! 4)) (room_of t r))"
  have "crc_table_ok (room_of t r) \<Longrightarrow> crc_table_ok rm"
    unfolding rm_def by (rule note_crc_table_ok)
  with p have "progress X s (upd_room r (\<lambda>_. rm) t)" by (auto simp: progress_def)
  moreover have "progress X s u \<Longrightarrow> progress X s (fold add_log ms u)" for u ms
    by (induction ms arbitrary: u) (auto intro: progress_add_log)
  ultimately show ?thesis
    by (auto simp: log_crc_def Let_def rm_def split: prod.split)
qed

lemma relay_frame_progress: "progress X s (final (relay_frame c ftype payload s))"
proof -
  have loop: "evolves u (final (live_loop n i r (\<lambda>i m s. if m \<noteq> c then send m data s else Ok s) u))"
    if "is_frame data" for u n i r data
    unfolding send_def using that by (intro plumbing.live_loop_evolves) (auto intro: plumbing.send_evolves)
  have "progress X s (log_crc r payload s)" for r
    by (rule log_crc_progress) simp
  then show ?thesis
    by (auto simp: relay_frame_def Let_def intro!: progress_attempt progress_evolves[OF _ loop]
        dest: is_frame_frame split: option.split)
qed

lemma handle_progress: "progress X s (final (handle c ftype payload s))"
  unfolding handle_def
  using relay_frame_progress on_hello_progress on_list_progress[OF progress_refl] on_join_progress
    on_go_progress evolves_progress[OF plumbing.drp_evolves]
  by (auto intro!: progress_attempt send_progress is_frame_frame)

section \<open>The reassembly loop\<close>

lemma good_upd_rx: "good R (upd_client c (\<lambda>x. x\<lparr>cl_rx := f x\<rparr>) s) = good R s"
proof -
  have "tx_ok (upd_client c (\<lambda>x. x\<lparr>cl_rx := f x\<rparr>) s) = tx_ok s"
    "events_ok {} (upd_client c (\<lambda>x. x\<lparr>cl_rx := f x\<rparr>) s) = events_ok {} s"
    by (simp_all add: tx_ok_def events_ok_def upd_client_keep[of cl_tx] del: upd_client_sel(1))
  then show ?thesis by (simp add: good_def core_def pieces_upd_client)
qed

lemma progress_upd_rx: "c \<in> X \<Longrightarrow> progress X s t \<Longrightarrow> progress X s (upd_client c (\<lambda>x. x\<lparr>cl_rx := f x\<rparr>) t)"
  by (auto simp: progress_def client_progress_def)

text \<open>Serving is safe, and it leaves only an incomplete frame in the buffer of a live client.\<close>

definition rx_short :: "server \<Rightarrow> cid \<Rightarrow> bool" where
  "rx_short s c \<longleftrightarrow> cl_dead (client_of s c) \<or> length (cl_rx (client_of s c)) \<le> 200"

lemma delay_ok_progress: "progress X s t \<Longrightarrow> delay_ok s \<Longrightarrow> delay_ok t"
  by (simp add: progress_def delay_ok_def)

lemma service_dropped:
  assumes "good {} u" "progress {c} s u"
  shows "safe (drop c why u) \<and> rx_short (final (drop c why u)) c \<and> progress {c} s (final (drop c why u))"
  using safe_drop[OF assms(1), of c why] drop_kills[of c why u] plumbing.drp_evolves[of u c why]
    progress_evolves[OF assms(2)]
  by (auto simp: safe_def rx_short_def)

text \<open>The state with the first frame taken off the buffer, and the body of that frame.\<close>

definition rx_need :: "server \<Rightarrow> cid \<Rightarrow> nat" where
  "rx_need s c = unat (cl_rx (client_of s c) ! 0) + 1"

definition rx_taken :: "server \<Rightarrow> cid \<Rightarrow> server" where
  "rx_taken s c = upd_client c (\<lambda>x. x\<lparr>cl_rx := List.drop (rx_need s c) (cl_rx x)\<rparr>) s"

definition rx_body :: "server \<Rightarrow> cid \<Rightarrow> byte list" where
  "rx_body s c = List.drop 1 (take (rx_need s c) (cl_rx (client_of s c)))"

definition rx_frame_ready :: "server \<Rightarrow> cid \<Rightarrow> bool" where
  "rx_frame_ready s c \<longleftrightarrow> cl_rx (client_of s c) \<noteq> [] \<and> 2 \<le> rx_need s c \<and> rx_need s c \<le> 201 \<and>
     rx_need s c \<le> length (cl_rx (client_of s c))"

definition rx_frame_bad :: "server \<Rightarrow> cid \<Rightarrow> bool" where
  "rx_frame_bad s c \<longleftrightarrow> cl_rx (client_of s c) \<noteq> [] \<and> (rx_need s c < 2 \<or> 201 < rx_need s c)"

lemma service_loop_ready:
  "rx_frame_ready s c \<Longrightarrow> service_loop (Suc n) c s =
     (case handle c (rx_body s c ! 0) (List.drop 1 (rx_body s c)) (rx_taken s c) of
        Raise (ProtocolError e) s2 \<Rightarrow> drop c (Protocol_violation e) s2
      | Raise e s2 \<Rightarrow> Raise e s2
      | Ok s2 \<Rightarrow> if cl_dead (client_of s2 c) then Ok s2 else service_loop n c s2)"
  by (auto simp: rx_frame_ready_def rx_body_def rx_taken_def rx_need_def Let_def)

lemma service_loop_bad:
  "rx_frame_bad s c \<Longrightarrow>
   service_loop (Suc n) c s = drop c (Bad_frame_length (cl_rx (client_of s c) ! 0)) s"
  by (auto simp: rx_frame_bad_def rx_need_def Let_def)

lemma service_loop_wait:
  "\<not> rx_frame_bad s c \<Longrightarrow> \<not> rx_frame_ready s c \<Longrightarrow> service_loop (Suc n) c s = Ok s"
  by (auto simp: rx_frame_bad_def rx_frame_ready_def rx_need_def Let_def)

lemma rx_taken_facts:
  assumes "good {} s" "delay_ok s" "c < sv_next_cid s"
  shows "good {} (rx_taken s c)" "delay_ok (rx_taken s c)" "c < sv_next_cid (rx_taken s c)"
    "progress {c} s (rx_taken s c)"
  using assms by (simp_all add: rx_taken_def good_upd_rx progress_upd_rx delay_ok_def)

lemma rx_taken_shorter:
  "rx_frame_ready s c \<Longrightarrow>
   length (cl_rx (client_of (rx_taken s c) c)) + 2 \<le> length (cl_rx (client_of s c))"
  by (auto simp: rx_taken_def rx_frame_ready_def)

lemma rx_body_short: "rx_frame_ready s c \<Longrightarrow> length (List.drop 1 (rx_body s c)) < 255"
  by (auto simp: rx_frame_ready_def rx_body_def)

lemma rx_wait_short: "\<not> rx_frame_bad s c \<Longrightarrow> \<not> rx_frame_ready s c \<Longrightarrow> rx_short s c"
  by (auto simp: rx_frame_bad_def rx_frame_ready_def rx_short_def)

lemma service_loop_safe:
  assumes "good {} s" "delay_ok s" "c < sv_next_cid s" "length (cl_rx (client_of s c)) \<le> n"
  shows "safe (service_loop n c s) \<and> rx_short (final (service_loop n c s)) c \<and>
    progress {c} s (final (service_loop n c s))"
  using assms
proof (induction n arbitrary: s)
  case 0
  then show ?case by (simp add: rx_short_def)
next
  case (Suc n)
  note t = rx_taken_facts[OF Suc.prems(1-3)]
  let ?h = "handle c (rx_body s c ! 0) (List.drop 1 (rx_body s c)) (rx_taken s c)"
  consider (bad) "rx_frame_bad s c" | (ready) "rx_frame_ready s c"
    | (wait) "\<not> rx_frame_bad s c" "\<not> rx_frame_ready s c" by blast
  then show ?case
  proof cases
    case bad
    then show ?thesis using service_dropped[OF Suc.prems(1) progress_refl] by (simp only: service_loop_bad)
  next
    case wait
    then show ?thesis using Suc.prems(1) rx_wait_short[OF wait]
      by (simp only: service_loop_wait safe_Ok final.simps progress_refl simp_thms)
  next
    case ready
    note step = service_loop_ready[OF ready, of n]
    from handle_handled[OF t(1-3) rx_body_short[OF ready], of "rx_body s c ! 0"]
    consider (ok) s2 where "?h = Ok s2" "good {} s2" | (err) e where "?h = Raise (ProtocolError e) (rx_taken s c)"
      by (auto simp: handled_def safe_def)
    then show ?thesis
    proof cases
      case err
      with step show ?thesis using service_dropped[OF t(1,4)] by simp
    next
      case ok
      have p: "progress {} (rx_taken s c) s2" using handle_progress[of "{}" "rx_taken s c" c] ok(1)
        by (metis final.simps(1))
      have "length (cl_rx (client_of s2 c)) \<le> n"
        using progress_rx[OF p, of c] rx_taken_shorter[OF ready] Suc.prems(4) by simp
      moreover have "delay_ok s2" "c < sv_next_cid s2"
        using p t(2,3) by (simp_all add: progress_def delay_ok_def)
      ultimately have "safe (service_loop n c s2) \<and> rx_short (final (service_loop n c s2)) c \<and>
          progress {c} s2 (final (service_loop n c s2))"
        using Suc.IH[OF ok(2)] by blast
      moreover have "progress {c} s s2"
        using t(4) progress_mono[OF p] by (blast intro: progress_trans)
      ultimately show ?thesis
        using ok step progress_trans[of "{c}" s s2] by (simp add: rx_short_def)
    qed
  qed
qed

lemma service_safe:
  assumes "good {} s" "delay_ok s" "c < sv_next_cid s" "rx_short s c"
  shows "safe (service c result s) \<and> rx_short (final (service c result s)) c \<and>
    progress {c} s (final (service c result s))"
proof (cases result)
  case (Recv data)
  let ?s1 = "upd_client c (\<lambda>x. x\<lparr>cl_rx := cl_rx x @ data\<rparr>) s"
  have "good {} ?s1" "delay_ok ?s1" "c < sv_next_cid ?s1" "progress {c} s ?s1"
    using assms by (simp_all add: good_upd_rx progress_upd_rx delay_ok_def)
  with service_loop_safe[of ?s1 c "length (cl_rx (client_of ?s1 c))"] Recv
    service_dropped[OF assms(1) progress_refl] show ?thesis
    by (auto simp: service_def Let_def intro: progress_trans)
qed (use assms service_dropped[OF assms(1) progress_refl] in \<open>simp_all add: service_def\<close>)

section \<open>The invariant of the loop\<close>

definition limits_ok :: "server \<Rightarrow> bool" where
  "limits_ok s \<longleftrightarrow>
     length (sv_clients s) \<le> MAX_CLIENTS \<and> (\<forall>ip. per_ip ip s \<le> MAX_CONNECTIONS_PER_IP)"

definition server_inv :: "server \<Rightarrow> bool" where
  "server_inv s \<longleftrightarrow>
     good {} s \<and> delay_ok s \<and> limits_ok s \<and> (\<forall>c. rx_short s c) \<and>
     (\<forall>r. crc_table_ok (room_of s r)) \<and> (\<forall>c. framed_ext [] (stream s c))"

lemma per_ip_card:
  "distinct (sv_clients s) \<Longrightarrow>
   per_ip ip s = card {c \<in> set (sv_clients s). fst (cl_addr (client_of s c)) = ip}"
  using distinct_card[OF distinct_filter[of "sv_clients s" "\<lambda>c. fst (cl_addr (client_of s c)) = ip"]]
  by (simp add: per_ip_def)

lemma limits_progress:
  assumes "progress X s t" "limits_ok s" "distinct (sv_clients s)" "distinct (sv_clients t)"
  shows "limits_ok t"
proof -
  have sub: "set (sv_clients t) \<subseteq> set (sv_clients s)"
    and addr: "\<And>c. cl_addr (client_of t c) = cl_addr (client_of s c)"
    using assms(1) by (auto simp: progress_def client_progress_def)
  have "length (sv_clients t) \<le> length (sv_clients s)"
    using assms(3,4) sub by (metis card_mono distinct_card finite_set)
  moreover have "per_ip ip t \<le> per_ip ip s" for ip
    unfolding per_ip_card[OF assms(3)] per_ip_card[OF assms(4)] addr
    using sub by (intro card_mono) auto
  ultimately show ?thesis using assms(2) by (auto simp: limits_ok_def intro: le_trans)
qed

lemma good_distinct_clients: "good R s \<Longrightarrow> distinct (sv_clients s)"
  by (simp add: good_def core_def conns_ok_def)

lemma stream_progress:
  "progress X s t \<Longrightarrow> framed_ext (stream s c) (stream t c)"
  by (simp add: progress_def client_progress_def stream_def)

lemma rx_short_progress: "progress X s t \<Longrightarrow> c \<notin> X \<Longrightarrow> rx_short s c \<Longrightarrow> rx_short t c"
  using progress_rx[of X s t c] by (auto simp: rx_short_def progress_def client_progress_def)

lemma server_inv_progress:
  assumes "server_inv s" "progress X s t" "good {} t" "\<forall>c\<in>X. rx_short t c"
  shows "server_inv t"
proof -
  have "limits_ok t"
    using assms by (intro limits_progress[OF assms(2)]) (auto simp: server_inv_def intro: good_distinct_clients)
  moreover have "rx_short t c" for c
    using assms(1,4) rx_short_progress[OF assms(2), of c] by (auto simp: server_inv_def)
  moreover have "framed_ext [] (stream t c)" for c
    using assms(1) framed_ext_trans[OF _ stream_progress[OF assms(2)]] by (auto simp: server_inv_def)
  moreover have "crc_table_ok (room_of t r)" for r
    using assms(1,2) by (auto simp: server_inv_def progress_def)
  ultimately show ?thesis
    using assms delay_ok_progress[OF assms(2)] by (simp add: server_inv_def)
qed

subsection \<open>Accepting\<close>

definition admitted :: "string \<times> nat \<Rightarrow> time \<Rightarrow> server \<Rightarrow> server" where
  "admitted addr now s =
     (let c = sv_next_cid s in
      (upd_client c (\<lambda>_. Client_init addr now) s)
        \<lparr>sv_next_cid := Suc c, sv_clients := sv_clients s @ [c], sv_sel := (sv_sel s)(c := Some False),
         sv_log := sv_log s @ [Log_connect (fst addr) (snd addr)]\<rparr>)"

lemma accept_admits:
  assumes "length (sv_clients s) < MAX_CLIENTS" "per_ip (fst addr) s < MAX_CONNECTIONS_PER_IP"
  shows "accept (Accepted addr True) now s = Ok (admitted addr now s)"
  using assms by (simp add: accept_def admitted_def Let_def upd_client_def add_log_def)

lemma admitted_sel [simp]:
  "client_of (admitted addr now s) c = (if c = sv_next_cid s then Client_init addr now else client_of s c)"
  "sv_room (admitted addr now s) = sv_room s" "sv_by_name (admitted addr now s) = sv_by_name s"
  "sv_next_cid (admitted addr now s) = Suc (sv_next_cid s)"
  "sv_next_rid (admitted addr now s) = sv_next_rid s"
  "sv_clients (admitted addr now s) = sv_clients s @ [sv_next_cid s]"
  "sv_sel (admitted addr now s) = (sv_sel s)(sv_next_cid s := Some False)"
  "sv_lobby (admitted addr now s) = sv_lobby s" "sv_delay (admitted addr now s) = sv_delay s"
  by (simp_all add: admitted_def Let_def)

lemma good_admitted:
  assumes "good {} s"
  shows "good {} (admitted addr now s)"
proof -
  let ?n = "sv_next_cid s" and ?t = "admitted addr now s"
  from assms have p: "rooms_ok s" "names_ok s" "alive_named s" "conns_ok s" "tx_ok s" "lobby_ok s"
    "events_ok {} s" "settled {} s"
    by (auto simp: good_def core_def)
  have unused: "(n, ?n) \<notin> set (sv_by_name s)" "?n \<notin> set (members s r)" "?n \<notin> set (sv_clients s)" for n r
    using p(1,2,4) by (auto simp: names_ok_def rooms_ok_def conns_ok_def)
  have "rooms_ok ?t"
    using p(1) unused(2) unfolding rooms_ok_def by (auto simp: Client_init_def less_Suc_eq)
  moreover have "names_ok ?t"
    using p(2) unused(1) unfolding names_ok_def by (auto simp: Client_init_def less_Suc_eq)
  moreover have "alive_named ?t"
    using p(3) unfolding alive_named_def by (auto simp: Client_init_def)
  moreover have "conns_ok ?t"
    using p(4) unused(3) unfolding conns_ok_def by (auto simp: Client_init_def less_Suc_eq)
  moreover have "tx_ok ?t" using p(5) by (simp add: tx_ok_def Client_init_def)
  moreover have "lobby_ok ?t" using p(6) by (simp add: lobby_ok_def)
  moreover have "events_ok {} ?t" using p(7) by (auto simp: events_ok_def Client_init_def)
  moreover have "settled {} ?t" using p(8) unused(2) unfolding settled_def by auto
  ultimately show ?thesis by (simp add: good_def core_def)
qed

lemma server_inv_admitted:
  assumes "server_inv s" "length (sv_clients s) < MAX_CLIENTS"
    "per_ip (fst addr) s < MAX_CONNECTIONS_PER_IP"
  shows "server_inv (admitted addr now s)"
proof -
  have n: "sv_next_cid s \<notin> set (sv_clients s)"
    using assms(1) by (auto simp: server_inv_def good_def core_def conns_ok_def)
  have "per_ip ip (admitted addr now s) = (if ip = fst addr then Suc (per_ip ip s) else per_ip ip s)" for ip
  proof -
    have "filter (\<lambda>c. fst (cl_addr (client_of (admitted addr now s) c)) = ip) (sv_clients s) =
        filter (\<lambda>c. fst (cl_addr (client_of s c)) = ip) (sv_clients s)"
      using n by (intro filter_cong) auto
    then show ?thesis by (auto simp: per_ip_def Client_init_def)
  qed
  then have "limits_ok (admitted addr now s)"
    using assms by (auto simp: limits_ok_def server_inv_def)
  then show ?thesis
    using assms(1) good_admitted
    by (auto simp: server_inv_def delay_ok_def rx_short_def stream_def Client_init_def)
qed

lemma server_inv_irrelevant [simp]:
  "server_inv (add_log m s) = server_inv s" "server_inv (s\<lparr>sv_stats := st\<rparr>) = server_inv s"
  "server_inv (s\<lparr>sv_last_stats := ls\<rparr>) = server_inv s"
  by (simp_all add: server_inv_def delay_ok_def limits_ok_def per_ip_def rx_short_def stream_def good_def
      core_defs events_ok_def settled_def)

lemma accept_inv:
  assumes "server_inv s" "accept result now s = Ok t"
  shows "server_inv t"
proof (cases result)
  case (Accepted addr opts_ok)
  then show ?thesis
    using assms server_inv_admitted[OF assms(1), of addr now] accept_admits[of s addr now]
    by (cases "length (sv_clients s) < MAX_CLIENTS"; cases "per_ip (fst addr) s < MAX_CONNECTIONS_PER_IP"; cases opts_ok)
       (auto simp: accept_def bump_rejections_def)
qed (use assms in \<open>simp add: accept_def\<close>)

subsection \<open>Sweeping and serving\<close>

lemma sweep_safe: "good {} s \<Longrightarrow> safe (sweep order now s) \<and> progress {} s (final (sweep order now s))"
proof (induction order arbitrary: s)
  case (Cons c order)
  let ?s1 = "s\<lparr>sv_stats := (sv_stats s)\<lparr>st_hello_timeouts := st_hello_timeouts (sv_stats s) + 1\<rparr>\<rparr>"
  obtain t where t: "drop c No_hello ?s1 = Ok t" "good {} t"
    using safe_drop[of ?s1 c No_hello] Cons.prems by (auto simp: safe_def)
  have "progress {} s ?s1" by (simp add: progress_def)
  then have "progress {} s t"
    using plumbing.drp_evolves[of ?s1 c No_hello] t(1) by (auto intro: progress_evolves)
  then show ?case
    using Cons.IH[OF t(2)] Cons.IH[OF Cons.prems] t(1) progress_trans[of "{}" s t] by simp
qed simp

lemma serve_try_safe:
  assumes "server_inv s" "c < sv_next_cid s"
  shows "\<exists>t. serve_try c writable readable s = Ok t \<and> server_inv t \<and> progress {c} s t"
proof -
  let ?flushed = "if writable \<and> \<not> cl_dead (client_of s c) then flush c s else Ok s"
  have g: "good {} s" using assms(1) by (simp add: server_inv_def)
  have "safe ?flushed" using g safe_flush by simp
  then obtain s1 where s1: "?flushed = Ok s1" "good {} s1" by (auto simp: safe_def)
  have "evolves s (final ?flushed)"
    using plumbing.flush_evolves by (simp add: flush_def)
  then have p1: "progress {} s s1" using s1(1) by (auto intro: evolves_progress)
  have i1: "server_inv s1" using server_inv_progress[OF assms(1) p1 s1(2)] by simp
  have c1: "c < sv_next_cid s1" using p1 assms(2) by (simp add: progress_def)
  have p2: "progress {c} s s1" using p1 by (rule progress_mono) simp
  have served: "\<exists>t. service c result s1 = Ok t \<and> server_inv t \<and> progress {c} s t" for result
  proof -
    have pre: "good {} s1" "delay_ok s1" "rx_short s1 c" using i1 by (simp_all add: server_inv_def)
    from service_safe[OF pre(1,2) c1 pre(3), of result] obtain t
      where t: "service c result s1 = Ok t" "good {} t" "rx_short t c" "progress {c} s1 t"
      by (auto simp: safe_def)
    then have "server_inv t" using server_inv_progress[OF i1 t(4,2)] by simp
    with t(1) progress_trans[OF p2 t(4)] show ?thesis by blast
  qed
  show ?thesis
  proof (cases readable)
    case None
    then show ?thesis using i1 p2 by (simp add: serve_try_def s1(1))
  next
    case (Some result)
    obtain t where "service c result s1 = Ok t" "server_inv t" "progress {c} s t" using served by blast
    with Some i1 p2 show ?thesis by (simp add: serve_try_def s1(1))
  qed
qed

lemma serve_client_safe:
  assumes "server_inv s" "c < sv_next_cid s"
  shows "\<exists>t. serve_try c writable readable s = Ok t \<and> serve_client c writable readable s = Ok t \<and> server_inv t"
  using serve_try_safe[OF assms, of writable readable] by (auto simp: serve_client_def)

lemma serve_client_progress:
  assumes "server_inv s" "c < sv_next_cid s" "serve_client c writable readable s = Ok t"
  shows "progress {c} s t"
  using serve_try_safe[OF assms(1,2), of writable readable] assms(3) by (auto simp: serve_client_def)

lemma worker_step_frame:
  "worker_step p q \<Longrightarrow> pb_payload q = pb_payload p \<and> pb_stopping q = pb_stopping p"
  by (erule worker_step.cases) (auto simp: pub_defs split: post_result.splits)

lemma server_inv_lobby:
  assumes "server_inv s" "sv_lobby s = Some p" "worker_step p q"
  shows "server_inv (s\<lparr>sv_lobby := Some q\<rparr>)"
proof -
  have "lobby_ok (s\<lparr>sv_lobby := Some q\<rparr>)"
    using assms worker_step_frame[OF assms(3)] by (auto simp: server_inv_def good_def core_def lobby_ok_def)
  moreover have "rooms_ok (s\<lparr>sv_lobby := Some q\<rparr>) = rooms_ok s" "names_ok (s\<lparr>sv_lobby := Some q\<rparr>) = names_ok s"
    "alive_named (s\<lparr>sv_lobby := Some q\<rparr>) = alive_named s" "conns_ok (s\<lparr>sv_lobby := Some q\<rparr>) = conns_ok s"
    "tx_ok (s\<lparr>sv_lobby := Some q\<rparr>) = tx_ok s" "events_ok {} (s\<lparr>sv_lobby := Some q\<rparr>) = events_ok {} s"
    "settled {} (s\<lparr>sv_lobby := Some q\<rparr>) = settled {} s"
    by (simp_all add: rooms_ok_def names_ok_def alive_named_def conns_ok_def tx_ok_def events_ok_def settled_def)
  ultimately show ?thesis
    using assms(1)
    by (simp add: server_inv_def good_def core_def delay_ok_def limits_ok_def per_ip_def rx_short_def stream_def)
qed

text \<open>Every event that can happen is handled without an exception, except a failing accept.\<close>

fun accept_failure :: "event \<Rightarrow> server \<Rightarrow> bool" where
  "accept_failure (Ev_accept Accept_fails now) s = True"
| "accept_failure (Ev_accept (Accepted addr opts_ok) now) s =
     (\<not> opts_ok \<and> length (sv_clients s) < MAX_CLIENTS \<and> per_ip (fst addr) s < MAX_CONNECTIONS_PER_IP)"
| "accept_failure _ s = False"

lemma run_event_inv:
  assumes "server_inv s" "enabled e s" "\<not> accept_failure e s"
  shows "\<exists>t. run_event e s = Ok t \<and> server_inv t"
proof (cases e)
  case (Ev_accept result now)
  then have "\<exists>t. accept result now s = Ok t"
    using assms(3) by (cases result) (auto simp: accept_def Let_def)
  with Ev_accept accept_inv[OF assms(1)] show ?thesis by auto
next
  case (Ev_client c writable readable)
  with assms(2) serve_client_safe[OF assms(1), of c writable readable] show ?thesis by auto
next
  case (Ev_sweep order now)
  with assms(1) sweep_safe[of s order now] server_inv_progress[OF assms(1), of "{}"] show ?thesis
    by (auto simp: server_inv_def safe_def)
next
  case Ev_stats
  with assms(1) show ?thesis by (simp add: log_stats_def Let_def)
next
  case (Ev_lobby p)
  with assms server_inv_lobby show ?thesis by auto
qed

lemma loop_step_inv: "server_inv s \<Longrightarrow> loop_step s t \<Longrightarrow> server_inv t"
proof (erule loop_stepE)
  fix e assume a: "server_inv s" "enabled e s" "run_event e s = Ok t"
  have "\<not> accept_failure e s"
    using a(3) by (cases "(e, s)" rule: accept_failure.cases) (auto simp: accept_def)
  with run_event_inv[OF a(1,2)] a(3) show "server_inv t" by auto
qed

lemma server_inv_init: "server_initial s \<Longrightarrow> server_inv s"
  by (auto simp: server_initial_def server_inv_def Server_init_def good_def core_defs events_ok_def
      settled_def delay_ok_def limits_ok_def per_ip_def rx_short_def stream_def crc_table_ok_def
      Client_init_def Room_init_def)

lemma server_reach_init:
  assumes "0 \<le> delay" "delay < 256"
  shows "server_reach (Server_init port delay None auto_go sends rands)"
proof (rule reach.reach_init)
  show "server_initial (Server_init port delay None auto_go sends rands)"
    unfolding server_initial_def
    by (rule exI[of _ port], rule exI[of _ delay], rule exI[of _ None], rule exI[of _ auto_go],
        rule exI[of _ sends], rule exI[of _ rands]) (use assms in simp)
qed

interpretation loop: invariant_system server_initial loop_step server_inv
  by unfold_locales (auto intro: server_inv_init loop_step_inv)

end
