(* ===== verification/Relay_Frames.thy ===== *)
theory Relay_Frames
  imports Relay_Loop
begin

text \<open>
  Framing as the peers see it.  The decoding performed by \<open>service\<close> is a frame reader in
  the sense of Wire (interpreted here on the server's own length rules), the handlers do not
  look at the receive buffer, and therefore what the server does with a connection depends on
  the bytes received and not on how TCP cut them into segments.
\<close>

section \<open>The server's reader\<close>

definition server_read :: "byte list \<Rightarrow> (byte \<times> byte list) read" where
  "server_read rx =
     (if rx = [] then More
      else let need = unat (rx ! 0) + 1 in
        if need < 2 \<or> unat (rx ! 0) > 200 then Bad
        else if length rx < need then More
        else let body = List.drop 1 (take need rx) in Msg (body ! 0, List.drop 1 body) (List.drop need rx))"

lemma server_read_append: "server_read xs = Msg m rest \<Longrightarrow> server_read (xs @ ys) = Msg m (rest @ ys)"
  by (auto simp: server_read_def Let_def nth_append split: if_splits)

lemma server_read_encoded:
  assumes "length (snd m) < 200"
  shows "server_read (encode_msg m @ rest) = Msg m rest"
proof -
  have "unat (word_of_nat (Suc (length (snd m))) :: byte) = Suc (length (snd m))"
    using assms by (simp add: unat_of_nat del: of_nat_Suc)
  then show ?thesis
    using assms by (cases m) (simp add: server_read_def encode_msg_def Let_def)
qed

interpretation server_reader: frame_codec server_read encode_msg "\<lambda>m. length (snd m) < 200"
proof unfold_locales
  show "server_read xs = Msg m rest \<Longrightarrow> server_read (xs @ ys) = Msg m (rest @ ys)" for xs ys m rest
    by (rule server_read_append)
  show "server_read xs = Bad \<Longrightarrow> server_read (xs @ ys) = Bad" for xs ys
    by (auto simp: server_read_def Let_def nth_append split: if_splits)
  show "server_read xs = Msg m rest \<Longrightarrow> length rest < length xs" for xs m rest
    by (auto simp: server_read_def Let_def split: if_splits)
  show "length (snd m) < 200 \<Longrightarrow> server_read (encode_msg m @ rest) = Msg m rest" for m rest
    by (rule server_read_encoded)
  show "server_read [] = More" by (simp add: server_read_def)
qed

section \<open>Operations that do not look at a receive buffer\<close>

definition rx_set :: "cid \<Rightarrow> byte list \<Rightarrow> server \<Rightarrow> server" where
  "rx_set c x s = upd_client c (\<lambda>y. y\<lparr>cl_rx := x\<rparr>) s"

fun omap :: "(server \<Rightarrow> server) \<Rightarrow> outcome \<Rightarrow> outcome" where
  "omap f (Ok s) = Ok (f s)"
| "omap f (Raise e s) = Raise e (f s)"

lemma rx_set_sel [simp]:
  "sv_room (rx_set c x s) = sv_room s" "sv_sel (rx_set c x s) = sv_sel s"
  "sv_by_name (rx_set c x s) = sv_by_name s" "sv_clients (rx_set c x s) = sv_clients s"
  "sv_lobby (rx_set c x s) = sv_lobby s" "sv_next_cid (rx_set c x s) = sv_next_cid s"
  "sv_next_rid (rx_set c x s) = sv_next_rid s" "sv_sends (rx_set c x s) = sv_sends s"
  "sv_rands (rx_set c x s) = sv_rands s" "sv_stats (rx_set c x s) = sv_stats s"
  "sv_delay (rx_set c x s) = sv_delay s" "sv_auto_go (rx_set c x s) = sv_auto_go s"
  "sv_log (rx_set c x s) = sv_log s"
  by (simp_all add: rx_set_def)

lemma rx_set_client [simp]:
  "cl_tx (client_of (rx_set c x s) c') = cl_tx (client_of s c')"
  "cl_wire (client_of (rx_set c x s) c') = cl_wire (client_of s c')"
  "cl_name (client_of (rx_set c x s) c') = cl_name (client_of s c')"
  "cl_room (client_of (rx_set c x s) c') = cl_room (client_of s c')"
  "cl_dead (client_of (rx_set c x s) c') = cl_dead (client_of s c')"
  "cl_rx (client_of (rx_set c x s) c') = (if c' = c then x else cl_rx (client_of s c'))"
  by (simp_all add: rx_set_def)

text \<open>Updates that commute with \<open>rx_set\<close>.\<close>

lemma rx_set_upd_client:
  assumes "\<And>y x. f (y\<lparr>cl_rx := x\<rparr>) = (f y)\<lparr>cl_rx := x\<rparr>"
  shows "upd_client c' f (rx_set c x s) = rx_set c x (upd_client c' f s)"
  using assms by (auto simp: rx_set_def upd_client_def fun_upd_twist)

lemma rx_set_commute:
  "upd_room r g (rx_set c x s) = rx_set c x (upd_room r g s)"
  "add_log m (rx_set c x s) = rx_set c x (add_log m s)"
  "update_events c' (rx_set c x s) = rx_set c x (update_events c' s)"
  "lobby_update (rx_set c x s) = rx_set c x (lobby_update s)"
  "(rx_set c x s)\<lparr>sv_sends := sc\<rparr> = rx_set c x (s\<lparr>sv_sends := sc\<rparr>)"
  "(rx_set c x s)\<lparr>sv_stats := st\<rparr> = rx_set c x (s\<lparr>sv_stats := st\<rparr>)"
  "(rx_set c x s)\<lparr>sv_sel := se\<rparr> = rx_set c x (s\<lparr>sv_sel := se\<rparr>)"
  "(rx_set c x s)\<lparr>sv_clients := cs\<rparr> = rx_set c x (s\<lparr>sv_clients := cs\<rparr>)"
  "(rx_set c x s)\<lparr>sv_by_name := bn\<rparr> = rx_set c x (s\<lparr>sv_by_name := bn\<rparr>)"
  "(rx_set c x s)\<lparr>sv_rands := rs\<rparr> = rx_set c x (s\<lparr>sv_rands := rs\<rparr>)"
  "(rx_set c x s)\<lparr>sv_next_rid := n\<rparr> = rx_set c x (s\<lparr>sv_next_rid := n\<rparr>)"
  by (simp_all add: rx_set_def upd_client_def upd_room_def add_log_def update_events_def lobby_update_def
      split: option.split)

lemma omap_andthen:
  "(\<And>s. g (F s) = omap F (g s)) \<Longrightarrow> andthen (omap F o1) g = omap F (andthen o1 g)"
  by (cases o1) auto

lemma omap_attempt:
  "(\<And>y. f y = omap F (g y)) \<Longrightarrow> attempt v (F s) f = omap F (attempt v s g)"
  by (cases v) auto

lemma rx_set_fold:
  "(\<And>m s. f m (rx_set c x s) = rx_set c x (f m s)) \<Longrightarrow> fold f ms (rx_set c x s) = rx_set c x (fold f ms s)"
  by (induction ms arbitrary: s) simp_all

lemma roster_rx_set [simp]: "roster (rx_set c x s) r = roster s r"
  by (simp add: roster_def split: sum.split)

lemma seat_rx_set [simp]: "seat (rx_set c x s) c' = seat s c'"
  by (simp add: seat_def split: option.split)

lemma unlink_rx_set: "unlink c' why (rx_set c x s) = rx_set c x (unlink c' why s)"
  by (simp add: unlink_def Let_def stale_names_def rx_set_commute rx_set_upd_client)

locale blind_dropper =
  fixes drp :: drop_op
  assumes drp_blind: "drp c' why (rx_set c x s) = omap (rx_set c x) (drp c' why s)"
begin

lemma flush_blind: "flush_with drp c' (rx_set c x s) = omap (rx_set c x) (flush_with drp c' s)"
  by (simp add: flush_with_def Let_def rx_set_commute rx_set_upd_client drp_blind split: prod.split option.split)

lemma send_blind: "send_with drp c' data (rx_set c x s) = omap (rx_set c x) (send_with drp c' data s)"
  by (simp add: send_with_def rx_set_commute rx_set_upd_client drp_blind flush_blind)

lemma send_each_blind: "send_each drp ms fr (rx_set c x s) = omap (rx_set c x) (send_each drp ms fr s)"
  by (induction ms arbitrary: s) (simp_all add: send_blind omap_andthen omap_attempt)

lemma send_peer_left_blind:
  "send_peer_left drp ms pl (rx_set c x s) = omap (rx_set c x) (send_peer_left drp ms pl s)"
  by (induction ms arbitrary: s) (simp_all add: send_blind omap_andthen rx_set_commute)

lemma live_loop_blind:
  assumes "\<And>i m s. body i m (rx_set c x s) = omap (rx_set c x) (body i m s)"
  shows "live_loop n i r body (rx_set c x s) = omap (rx_set c x) (live_loop n i r body s)"
  by (induction n arbitrary: i s) (simp_all add: assms omap_andthen)

lemma room_broadcast_blind:
  "room_broadcast_with drp r (rx_set c x s) = omap (rx_set c x) (room_broadcast_with drp r s)"
  by (simp add: room_broadcast_with_def omap_attempt live_loop_blind send_blind)

lemma dissolve_blind: "dissolve_with drp r ms (rx_set c x s) = omap (rx_set c x) (dissolve_with drp r ms s)"
  by (simp add: dissolve_with_def Let_def rx_set_fold rx_set_upd_client send_each_blind omap_andthen rx_set_commute)

lemma leave_started_blind:
  "leave_started_with drp c' r st (rx_set c x s) = omap (rx_set c x) (leave_started_with drp c' r st s)"
  by (simp add: leave_started_with_def Let_def rx_set_commute dissolve_blind send_peer_left_blind
      omap_andthen omap_attempt)

lemma leave_room_blind:
  "leave_room_with drp c' r st (rx_set c x s) = omap (rx_set c x) (leave_room_with drp c' r st s)"
  by (simp add: leave_room_with_def leave_forming_with_def Let_def rx_set_commute rx_set_upd_client
      leave_started_blind dissolve_blind room_broadcast_blind omap_andthen)

end


lemma drop_client_blind: "blind_dropper (drop_client d)"
proof (induction d)
  case 0
  show ?case by unfold_locales simp
next
  case (Suc d)
  show ?case
    by unfold_locales
      (simp add: drop_client.simps(2) Let_def unlink_rx_set blind_dropper.leave_room_blind[OF Suc] split: option.split sum.split)
qed

interpretation blind: blind_dropper drop
  unfolding drop_def by (rule drop_client_blind)

subsection \<open>The handlers\<close>

lemma on_list_blind: "on_list c' (rx_set c x s) = omap (rx_set c x) (on_list c' s)"
proof -
  have st: "status (rx_set c x s) d = status s d" for d
    by (simp add: status_def Let_def split: option.split)
  have "lobby_others c' (rx_set c x s) = lobby_others c' s" by (simp add: lobby_others_def)
  moreover have "lobby_entry (rx_set c x s) = lobby_entry s"
    by (rule ext) (simp add: lobby_entry_def st split: sum.split)
  ultimately show ?thesis
    by (simp add: on_list_def Let_def omap_attempt send_def blind.send_blind)
qed

lemma randrange_blind: "randrange (rx_set c x s) = map_prod id (rx_set c x) (randrange s)"
  by (simp add: randrange_def rx_set_commute split: list.split)

lemma start_room_blind: "start_room r (rx_set c x s) = omap (rx_set c x) (start_room r s)"
  by (simp add: start_room_def Let_def rx_set_commute randrange_blind split: prod.split)
     (simp add: omap_attempt omap_andthen blind.live_loop_blind send_def blind.send_blind rx_set_commute)

lemma on_go_blind: "on_go c' (rx_set c x s) = omap (rx_set c x) (on_go c' s)"
  by (auto simp: on_go_def start_room_blind split: option.split sum.split)

lemma room_for_blind: "room_for t (rx_set c x s) = map_prod id (rx_set c x) (room_for t s)"
  by (simp add: room_for_def Let_def rx_set_commute rx_set_upd_client split: option.split)

lemma on_join_blind: "on_join c' payload (rx_set c x s) = omap (rx_set c x) (on_join c' payload s)"
proof -
  have "unjoinable c' target (rx_set c x s) = unjoinable c' target s" for target
    by (simp add: unjoinable_def split: option.split)
  then show ?thesis
    by (simp add: on_join_def Let_def on_list_blind room_for_blind split: prod.split)
       (simp add: rx_set_commute rx_set_upd_client room_broadcast_def blind.room_broadcast_blind
         omap_andthen start_room_blind)
qed

lemma take_name_blind: "take_name c' n (rx_set c x s) = rx_set c x (take_name c' n s)"
  by (simp add: take_name_def Let_def rx_set_commute rx_set_upd_client split: option.split)

lemma on_hello_blind: "on_hello c' payload (rx_set c x s) = omap (rx_set c x) (on_hello c' payload s)"
  by (simp add: on_hello_def Let_def split: option.split)
     (simp add: blind.drp_blind omap_andthen take_name_blind rx_set_commute on_list_blind)

lemma log_crc_blind: "log_crc r payload (rx_set c x s) = rx_set c x (log_crc r payload s)"
  by (simp add: log_crc_def Let_def rx_set_commute rx_set_fold split: prod.split)

lemma fanout_blind:
  "live_loop n i r (\<lambda>i m s. if m \<noteq> c' then send m data s else Ok s) (rx_set c x s) =
   omap (rx_set c x) (live_loop n i r (\<lambda>i m s. if m \<noteq> c' then send m data s else Ok s) s)"
  by (rule blind.live_loop_blind) (simp add: send_def blind.send_blind)

lemma relay_frame_blind:
  "relay_frame c' ftype payload (rx_set c x s) = omap (rx_set c x) (relay_frame c' ftype payload s)"
proof (cases "cl_room (client_of s c')")
  case (Some r)
  let ?s1 = "if ftype = T_CRC \<and> length payload = 5 then log_crc r payload s else s"
  have "(if ftype = T_CRC \<and> length payload = 5 then log_crc r payload (rx_set c x s) else rx_set c x s) =
      rx_set c x ?s1" by (simp add: log_crc_blind)
  with Some show ?thesis
    by (simp add: relay_frame_def Let_def omap_attempt fanout_blind del: if_split cong: if_cong)
qed (simp add: relay_frame_def)

lemma handle_blind: "handle c' ftype payload (rx_set c x s) = omap (rx_set c x) (handle c' ftype payload s)"
  by (simp add: handle_def relay_frame_blind on_hello_blind on_list_blind on_join_blind on_go_blind
      blind.drp_blind omap_attempt send_def blind.send_blind)


section \<open>Delivering decoded messages\<close>

text \<open>
  What \<open>service\<close> means: the decoded messages are handled one after the other until one
  of them drops the client; after the last one, bytes that can never become a frame drop it.
\<close>

fun deliver :: "cid \<Rightarrow> (byte \<times> byte list) list \<Rightarrow> server \<Rightarrow> outcome" where
  "deliver c [] s = Ok s"
| "deliver c ((ftype, payload) # ms) s =
     (case handle c ftype payload s of
        Raise (ProtocolError e) s2 \<Rightarrow> drop c (Protocol_violation e) s2
      | Raise e s2 \<Rightarrow> Raise e s2
      | Ok s2 \<Rightarrow> if cl_dead (client_of s2 c) then Ok s2 else deliver c ms s2)"

definition receive :: "cid \<Rightarrow> (byte \<times> byte list) list \<times> byte list \<times> bool \<Rightarrow> server \<Rightarrow> outcome" where
  "receive c d s =
     (case d of (ms, left, bad) \<Rightarrow>
        andthen (deliver c ms s) (\<lambda>s2. if bad then drop c (Bad_frame_length (left ! 0)) s2 else Ok s2))"

definition decode :: "byte list \<Rightarrow> (byte \<times> byte list) list \<times> byte list \<times> bool" where
  "decode xs = drain server_read (length xs) xs"

lemmas decode_step = server_reader.drain_step [folded decode_def]
lemmas decode_append = server_reader.drain_append [folded decode_def]
lemmas decode_left = server_reader.drain_left [folded decode_def]
lemmas decode_encoded = server_reader.drain_encoded [folded decode_def]

lemma decode_Nil [simp]: "decode [] = ([], [], False)"
  by (simp add: decode_def server_read_def)

definition forget_rx :: "cid \<Rightarrow> outcome \<Rightarrow> outcome" where
  "forget_rx c out = omap (rx_set c []) out"

lemma rx_set_twice [simp]: "rx_set c x (rx_set c y s) = rx_set c x s"
  by (simp add: rx_set_def upd_client_def)

lemma forget_rx_omap [simp]: "forget_rx c (omap (rx_set c x) out) = forget_rx c out"
  by (cases out) (simp_all add: forget_rx_def)

lemma forget_rx_set [simp]:
  "forget_rx c (Ok (rx_set c x s)) = forget_rx c (Ok s)"
  "forget_rx c (Raise e (rx_set c x s)) = forget_rx c (Raise e s)"
  by (simp_all add: forget_rx_def)

lemma forget_rx_Ok_iff: "forget_rx c (Ok s) = forget_rx c (Ok t) \<longleftrightarrow> rx_set c [] s = rx_set c [] t"
  by (simp add: forget_rx_def)

lemma deliver_blind: "deliver c' ms (rx_set c x s) = omap (rx_set c x) (deliver c' ms s)"
proof (induction ms arbitrary: s)
  case (Cons m ms)
  show ?case
    by (cases m; cases "handle c' (fst m) (snd m) s")
       (simp_all add: handle_blind Cons.IH blind.drp_blind split: exn.split)
qed simp

lemma receive_blind: "receive c' d (rx_set c x s) = omap (rx_set c x) (receive c' d s)"
  by (simp add: receive_def deliver_blind omap_andthen blind.drp_blind split: prod.split)

lemma drop_of_dead [simp]: "cl_dead (client_of s c) \<Longrightarrow> drop c why s = Ok s"
  by (simp add: drop_def)

lemma receive_Msg:
  "receive c ((ftype, payload) # ms, left, bad) s =
     (case handle c ftype payload s of
        Raise (ProtocolError e) s2 \<Rightarrow> drop c (Protocol_violation e) s2
      | Raise e s2 \<Rightarrow> Raise e s2
      | Ok s2 \<Rightarrow> if cl_dead (client_of s2 c) then Ok s2 else receive c (ms, left, bad) s2)"
proof -
  have "andthen (drop c why t) (\<lambda>s2. if bad then drop c w s2 else Ok s2) = drop c why t" for why w t
    by (cases "drop c why t") (auto dest: drop_kills)
  then show ?thesis by (simp add: receive_def split: outcome.split exn.split)
qed

text \<open>One iteration of the loop in terms of the reader.\<close>

lemma service_loop_read:
  assumes "rx = cl_rx (client_of s c)"
  shows "service_loop (Suc n) c s =
    (case server_read rx of
       More \<Rightarrow> Ok s
     | Bad \<Rightarrow> drop c (Bad_frame_length (rx ! 0)) s
     | Msg m rest \<Rightarrow>
         (case handle c (fst m) (snd m) (rx_set c rest s) of
            Raise (ProtocolError e) s2 \<Rightarrow> drop c (Protocol_violation e) s2
          | Raise e s2 \<Rightarrow> Raise e s2
          | Ok s2 \<Rightarrow> if cl_dead (client_of s2 c) then Ok s2 else service_loop n c s2))"
proof -
  have "upd_client c (\<lambda>x. x\<lparr>cl_rx := List.drop k (cl_rx x)\<rparr>) s = rx_set c (List.drop k rx) s" for k
    by (simp add: rx_set_def upd_client_def assms)
  then show ?thesis
    by (simp add: server_read_def Let_def assms [symmetric])
qed

lemma service_loop_delivers:
  "length (cl_rx (client_of s c)) \<le> n \<Longrightarrow>
   forget_rx c (service_loop n c s) = forget_rx c (receive c (decode (cl_rx (client_of s c))) s)"
proof (induction n arbitrary: s)
  case 0
  then show ?case by (simp add: receive_def)
next
  case (Suc n)
  let ?rx = "cl_rx (client_of s c)"
  show ?case
  proof (cases "server_read ?rx")
    case More
    then show ?thesis
      by (simp add: service_loop_read[OF refl] decode_step[of ?rx] receive_def del: service_loop.simps)
  next
    case Bad
    then show ?thesis
      by (simp add: service_loop_read[OF refl] decode_step[of ?rx] receive_def del: service_loop.simps)
  next
    case (Msg m rest)
    obtain ms left bad where d: "decode rest = (ms, left, bad)" by (metis prod_cases3)
    have dec: "decode ?rx = ((fst m, snd m) # ms, left, bad)"
      by (simp add: decode_step[of ?rx] Msg d)
    have len: "length rest \<le> n" using server_reader.read_shorter[OF Msg] Suc.prems by simp
    have go_on: "forget_rx c (service_loop n c (rx_set c rest t)) = forget_rx c (receive c (ms, left, bad) t)" for t
      using Suc.IH[of "rx_set c rest t"] len by (simp add: d receive_blind)
    show ?thesis
      unfolding dec receive_Msg service_loop_read[OF refl] Msg read.case handle_blind
      by (cases "handle c (fst m) (snd m) s")
         (simp_all add: go_on blind.drp_blind split: exn.split)
  qed
qed

text \<open>A client that is still connected has the undecoded rest of its bytes in the buffer.\<close>

lemma service_loop_left:
  assumes "length (cl_rx (client_of s c)) \<le> n" "service_loop n c s = Ok t" "\<not> cl_dead (client_of t c)"
  shows "\<exists>ms. decode (cl_rx (client_of s c)) = (ms, cl_rx (client_of t c), False)"
  using assms
proof (induction n arbitrary: s)
  case 0
  then show ?case by simp
next
  case (Suc n)
  let ?rx = "cl_rx (client_of s c)"
  show ?case
  proof (cases "server_read ?rx")
    case More
    then have "decode ?rx = ([], ?rx, False)" by (simp add: decode_step[of ?rx])
    with Suc.prems More show ?thesis
      by (auto simp: service_loop_read[OF refl] simp del: service_loop.simps)
  next
    case Bad
    with Suc.prems show ?thesis
      by (auto simp: service_loop_read[OF refl] simp del: service_loop.simps dest: drop_kills)
  next
    case (Msg m rest)
    from Suc.prems Msg obtain u where
      u: "handle c (fst m) (snd m) (rx_set c rest s) = Ok u" "service_loop n c u = Ok t"
      by (auto simp: service_loop_read[OF refl] simp del: service_loop.simps dest: drop_kills
          split: outcome.splits exn.splits if_splits)
    have "cl_rx (client_of u c) = rest"
      using handle_progress[of "{}" "rx_set c rest s" c "fst m" "snd m"] u(1)
        progress_rx[of "{}" "rx_set c rest s" u c] by simp
    moreover have "length rest \<le> n" using server_reader.read_shorter[OF Msg] Suc.prems(1) by simp
    ultimately show ?thesis
      using Suc.IH[OF _ u(2) Suc.prems(3)] Msg
      by (auto simp: decode_step[of ?rx])
  qed
qed

lemma service_Recv:
  "data \<noteq> [] \<Longrightarrow> service c (Recv data) s =
     service_loop (length (cl_rx (client_of s c) @ data)) c (rx_set c (cl_rx (client_of s c) @ data) s)"
  by (simp add: service_def Let_def rx_set_def upd_client_def)

lemma service_delivers:
  assumes "data \<noteq> []"
  shows "forget_rx c (service c (Recv data) s) =
    forget_rx c (receive c (decode (cl_rx (client_of s c) @ data)) s)"
  using service_loop_delivers[of "rx_set c (cl_rx (client_of s c) @ data) s" c]
  by (simp add: service_Recv[OF assms] receive_blind)

lemma service_left:
  assumes "data \<noteq> []" "service c (Recv data) s = Ok t" "\<not> cl_dead (client_of t c)"
  shows "\<exists>ms. decode (cl_rx (client_of s c) @ data) = (ms, cl_rx (client_of t c), False)"
  using service_loop_left[of "rx_set c (cl_rx (client_of s c) @ data) s" c
      "length (cl_rx (client_of s c) @ data)" t] assms
  by (simp add: service_Recv[OF assms(1)])


lemma deliver_append:
  "deliver c (ms @ ns) s =
     andthen (deliver c ms s) (\<lambda>t. if cl_dead (client_of t c) \<and> ms \<noteq> [] then Ok t else deliver c ns t)"
proof (induction ms arbitrary: s)
  case (Cons m ms)
  have dropped: "andthen (drop c why u) (\<lambda>t. if cl_dead (client_of t c) then Ok t else f t) = drop c why u"
    for why u and f :: "server \<Rightarrow> outcome"
    by (cases "drop c why u") (auto dest: drop_kills)
  show ?case
  proof (cases "handle c (fst m) (snd m) s")
    case (Ok u)
    then show ?thesis
      by (cases m; cases "ms = []") (auto simp: Cons.IH)
  next
    case (Raise e u)
    then show ?thesis
      by (cases m) (simp add: dropped split: exn.split)
  qed
qed simp

lemma receive_dead_stays:
  assumes "deliver c ms s = Ok u" "cl_dead (client_of u c)"
  shows "receive c (ms, left, bad) s = Ok u"
  using assms by (simp add: receive_def)

section \<open>Properties\<close>

lemma service_returns:
  assumes "server_inv s" "c < sv_next_cid s"
  shows "\<exists>t. service c result s = Ok t \<and> server_inv t \<and> c < sv_next_cid t"
proof -
  have pre: "good {} s" "delay_ok s" "rx_short s c" using assms(1) by (simp_all add: server_inv_def)
  from service_safe[OF pre(1,2) assms(2) pre(3), of result] obtain t
    where t: "service c result s = Ok t" "good {} t" "rx_short t c" "progress {c} s t"
    by (auto simp: safe_def)
  have "server_inv t" using server_inv_progress[OF assms(1) t(4,2)] t(3) by simp
  with t assms(2) show ?thesis by (auto simp: progress_def)
qed

lemma rx_set_eqI:
  assumes "rx_set c [] s = rx_set c [] t" "cl_rx (client_of s c) = cl_rx (client_of t c)"
  shows "s = t"
proof -
  have "rx_set c (cl_rx (client_of u c)) (rx_set c [] u) = u" for u
    by (simp add: rx_set_def upd_client_def)
  with assms show ?thesis by metis
qed

lemma rx_set_dead: "rx_set c [] s = rx_set c [] t \<Longrightarrow> cl_dead (client_of s c') = cl_dead (client_of t c')"
  by (metis rx_set_client(5))

text \<open>The case of a connection that survives the first segment.\<close>

lemma segments_alive:
  assumes "xs \<noteq> []" "ys \<noteq> []" "service c (Recv xs) s = Ok t" "\<not> cl_dead (client_of t c)"
  shows "forget_rx c (service c (Recv ys) t) = forget_rx c (service c (Recv (xs @ ys)) s)"
proof -
  let ?rx = "cl_rx (client_of s c)" and ?left = "cl_rx (client_of t c)"
  obtain ms where d1: "decode (?rx @ xs) = (ms, ?left, False)"
    using service_left[OF assms(1,3,4)] by blast
  obtain ns left bad where d2: "decode (?left @ ys) = (ns, left, bad)" by (metis prod_cases3)
  have d12: "decode (?rx @ xs @ ys) = (ms @ ns, left, bad)"
    using decode_append[of "?rx @ xs" ys] by (simp add: d1 d2)
  have "forget_rx c (deliver c ms s) = forget_rx c (Ok t)"
    using service_delivers[OF assms(1), of c s] by (simp add: assms(3) d1 receive_def)
  then obtain u where u: "deliver c ms s = Ok u" "rx_set c [] u = rx_set c [] t"
    by (cases "deliver c ms s") (auto simp: forget_rx_def)
  then have alive: "\<not> cl_dead (client_of u c)" using assms(4) rx_set_dead by metis
  have "receive c (ms @ ns, left, bad) s = receive c (ns, left, bad) u"
    using alive by (simp add: receive_def deliver_append u(1))
  moreover have "forget_rx c (receive c d u) = forget_rx c (receive c d t)" for d
    using receive_blind[of c d c "[]" u] receive_blind[of c d c "[]" t] u(2) by (simp add: forget_rx_def)
  moreover have "xs @ ys \<noteq> []" using assms(1) by simp
  ultimately show ?thesis
    using service_delivers[OF assms(2), of c t] service_delivers[of "xs @ ys" c s] by (simp add: d2 d12)
qed

lemma segments_dead:
  assumes "xs \<noteq> []" "service c (Recv xs) s = Ok t" "cl_dead (client_of t c)" "\<not> cl_dead (client_of s c)"
  shows "forget_rx c (service c (Recv (xs @ ys)) s) = forget_rx c (Ok t)"
proof -
  let ?rx = "cl_rx (client_of s c)"
  obtain ms left bad where d1: "decode (?rx @ xs) = (ms, left, bad)" by (metis prod_cases3)
  have r1: "forget_rx c (receive c (ms, left, bad) s) = forget_rx c (Ok t)"
    using service_delivers[OF assms(1), of c s] by (simp add: assms(2) d1)
  obtain ns left' bad' where d2: "decode (left @ ys) = (ns, left', bad')" by (metis prod_cases3)
  have r12: "forget_rx c (service c (Recv (xs @ ys)) s) = forget_rx c (receive c (decode (?rx @ xs @ ys)) s)"
    using service_delivers[of "xs @ ys" c s] assms(1) by simp
  show ?thesis
  proof (cases bad)
    case True
    have "left \<noteq> []" using decode_left[OF d1] True by (auto simp: server_read_def)
    with True have "receive c (decode (?rx @ xs @ ys)) s = receive c (ms, left, bad) s"
      using decode_append[of "?rx @ xs" ys] by (simp add: d1 receive_def nth_append)
    with r1 r12 show ?thesis by simp
  next
    case False
    then obtain u where u: "deliver c ms s = Ok u" "rx_set c [] u = rx_set c [] t"
      using r1 by (cases "deliver c ms s") (auto simp: forget_rx_def receive_def)
    then have dead: "cl_dead (client_of u c)" using assms(3) rx_set_dead by metis
    then have "ms \<noteq> []" using u(1) assms(4) by auto
    with dead False have "receive c (decode (?rx @ xs @ ys)) s = Ok u"
      using decode_append[of "?rx @ xs" ys] by (simp add: d1 d2 receive_def deliver_append u(1))
    with r12 u(2) show ?thesis by (simp add: forget_rx_def)
  qed
qed


definition demo_one :: server where
  "demo_one = admitted (''10.0.0.1'', 4000) 0 (Server_init 9112 3 None 0 [] [])"

lemma demo_one_inv: "server_inv demo_one"
proof -
  let ?s = "Server_init 9112 3 None 0 [] []"
  have "server_inv ?s" by (rule loop.invar_reach, rule server_reach_init) simp_all
  then show ?thesis
    unfolding demo_one_def
    by (rule server_inv_admitted) (simp_all add: Server_init_def per_ip_def MAX_CLIENTS_def MAX_CONNECTIONS_PER_IP_def)
qed

lemma demo_one_sel [simp]:
  "sv_next_cid demo_one = 1" "client_of demo_one 0 = Client_init (''10.0.0.1'', 4000) 0"
  by (simp_all add: demo_one_def Server_init_def)

text \<open>
  C13 (frame reassembly): receiving bytes does exactly what handling, in order, the messages
  decoded from the buffered and the new bytes does, up to the first one that drops the client,
  and then dropping it if the bytes that are left can never become a frame; a client that is
  still connected keeps the undecoded rest, an incomplete frame, in its buffer.  (The receive
  buffer of a dropped client is never read again and is left out of the comparison.)
\<close>

theorem service_handles_decoded:
  assumes "data \<noteq> []"
  shows "forget_rx c (service c (Recv data) s) = forget_rx c (receive c (decode (cl_rx (client_of s c) @ data)) s) \<and>
    (\<forall>t. service c (Recv data) s = Ok t \<and> \<not> cl_dead (client_of t c) \<longrightarrow>
       cl_rx (client_of t c) = fst (snd (decode (cl_rx (client_of s c) @ data))) \<and>
       server_read (cl_rx (client_of t c)) = More)"
proof (intro conjI allI impI)
  show "forget_rx c (service c (Recv data) s) =
      forget_rx c (receive c (decode (cl_rx (client_of s c) @ data)) s)"
    by (rule service_delivers[OF assms])
next
  fix t assume t: "service c (Recv data) s = Ok t \<and> \<not> cl_dead (client_of t c)"
  then obtain ms where d: "decode (cl_rx (client_of s c) @ data) = (ms, cl_rx (client_of t c), False)"
    using service_left[OF assms] by blast
  then show "cl_rx (client_of t c) = fst (snd (decode (cl_rx (client_of s c) @ data)))" by simp
  from decode_left[OF d] show "server_read (cl_rx (client_of t c)) = More" by simp
qed

theorem service_handles_decoded_witness:
  "decode [1, 0x0C, 9] = ([(0x0C, [])], [9], False) \<and>
   forget_rx 0 (service 0 (Recv [1, 0x0C, 9]) demo_one) = forget_rx 0 (deliver 0 [(0x0C, [])] demo_one)"
proof -
  have "decode [1, 0x0C, 9] = ([(0x0C, [])], [9], False)"
    by (simp add: decode_def server_read_def Let_def)
  then show ?thesis
    using service_handles_decoded[of "[1, 0x0C, 9]" 0 demo_one] by (simp add: Client_init_def receive_def)
qed

text \<open>
  C3 (segmentation does not matter): whether bytes arrive in one segment or in two makes no
  difference.  If the first segment already drops the client, the rest is ignored; otherwise
  reading the second one leads to the same state as reading both at once.  In particular a
  frame split over two segments is neither lost nor an error.
\<close>

theorem service_segmentation:
  assumes "server_inv s" "c < sv_next_cid s" "\<not> cl_dead (client_of s c)" "xs \<noteq> []" "ys \<noteq> []"
  shows "\<exists>t u. service c (Recv xs) s = Ok t \<and> service c (Recv (xs @ ys)) s = Ok u \<and>
    (if cl_dead (client_of t c) then rx_set c [] u = rx_set c [] t
     else \<exists>v. service c (Recv ys) t = Ok v \<and> rx_set c [] v = rx_set c [] u \<and>
            (\<not> cl_dead (client_of u c) \<longrightarrow> v = u))"
proof -
  obtain t where t: "service c (Recv xs) s = Ok t" "server_inv t" "c < sv_next_cid t"
    using service_returns[OF assms(1,2)] by blast
  obtain u where u: "service c (Recv (xs @ ys)) s = Ok u"
    using service_returns[OF assms(1,2)] by blast
  obtain v where v: "service c (Recv ys) t = Ok v" using service_returns[OF t(2,3)] by blast
  show ?thesis
  proof (cases "cl_dead (client_of t c)")
    case True
    then show ?thesis
      using segments_dead[OF assms(4) t(1) True assms(3), of ys] t(1) u by (auto simp: forget_rx_Ok_iff)
  next
    case False
    have eq: "rx_set c [] v = rx_set c [] u"
      using segments_alive[OF assms(4,5) t(1) False] u v by (simp add: forget_rx_Ok_iff)
    have "v = u" if alive: "\<not> cl_dead (client_of u c)"
    proof (rule rx_set_eqI[OF eq])
      have "xs @ ys \<noteq> []" using assms(4) by simp
      then obtain ms where "decode (cl_rx (client_of s c) @ xs @ ys) = (ms, cl_rx (client_of u c), False)"
        using service_left[OF _ u alive] by blast
      moreover obtain ns where "decode (cl_rx (client_of s c) @ xs) = (ns, cl_rx (client_of t c), False)"
        using service_left[OF assms(4) t(1) False] by blast
      moreover obtain ks where "decode (cl_rx (client_of t c) @ ys) = (ks, cl_rx (client_of v c), False)"
        using service_left[OF assms(5) v] alive rx_set_dead[OF eq, of c] by auto
      ultimately show "cl_rx (client_of v c) = cl_rx (client_of u c)"
        using decode_append[of "cl_rx (client_of s c) @ xs" ys] by simp
    qed
    with False eq t(1) u v show ?thesis by auto
  qed
qed

theorem service_segmentation_witness:
  "\<exists>t u. service 0 (Recv [1]) demo_one = Ok t \<and> service 0 (Recv [1, 0x0C]) demo_one = Ok u \<and>
    (if cl_dead (client_of t 0) then rx_set 0 [] u = rx_set 0 [] t
     else \<exists>v. service 0 (Recv [0x0C]) t = Ok v \<and> rx_set 0 [] v = rx_set 0 [] u \<and>
            (\<not> cl_dead (client_of u 0) \<longrightarrow> v = u))"
  using service_segmentation[OF demo_one_inv, of 0 "[1]" "[0x0C]"] by (simp add: Client_init_def)

text \<open>
  Remark (frames round trip): the server's decoder recovers exactly the messages whose frames were
  sent, in order and with nothing left over, for every sequence of messages with payloads of
  up to 199 bytes (\<open>service\<close> refuses a longer frame; \<open>frame\<close> builds them up to 254).
\<close>

theorem frame_roundtrip:
  assumes "list_all (\<lambda>m. length (snd m) < 200) ms"
  shows "\<exists>fs. sum_map (\<lambda>m. frame (fst m) (snd m)) ms = Inr fs \<and> decode (concat fs) = (ms, [], False)"
proof (intro exI conjI)
  show "sum_map (\<lambda>m. frame (fst m) (snd m)) ms = Inr (map encode_msg ms)"
  proof (rule sum_map_Inr)
    fix m assume "m \<in> set ms"
    with assms have "length (snd m) < 255" by (auto simp: list_all_iff)
    then show "frame (fst m) (snd m) = Inr (encode_msg m)" using encode_msg_frame[of "snd m" "fst m"] by simp
  qed
  show "decode (concat (map encode_msg ms)) = (ms, [], False)"
    by (rule decode_encoded) (rule assms)
qed

theorem frame_roundtrip_witness:
  "\<exists>fs. sum_map (\<lambda>m. frame (fst m) (snd m)) [(T_PING, []), (T_JOIN, [65, 66])] = Inr fs \<and>
     decode (concat fs) = ([(T_PING, []), (T_JOIN, [65, 66])], [], False)"
  using frame_roundtrip[of "[(T_PING, []), (T_JOIN, [65, 66])]"] by simp

end
