(* ===== verification/Relay_Deliver.thy ===== *)
theory Relay_Deliver
  imports Relay_Frames
begin

text \<open>
  What the peers get to see.  A frame handed to \<open>send\<close> for a client that is still
  connected afterwards was appended to the byte stream of that client and changed nothing
  else; from this the effect of every operation on every stream follows: relaying, leaving,
  joining, starting and listing.
\<close>

section \<open>Delivery\<close>

definition delivered :: "cid \<Rightarrow> byte list \<Rightarrow> server \<Rightarrow> server \<Rightarrow> bool" where
  "delivered c data s t \<longleftrightarrow>
     stream t c = stream s c @ data \<and>
     (\<exists>tx wire sends sel. t = upd_client c (\<lambda>x. x\<lparr>cl_tx := tx, cl_wire := wire\<rparr>)
        (s\<lparr>sv_sends := sends, sv_sel := sel\<rparr>))"

lemma delivered_sel:
  assumes "delivered c data s t"
  shows "stream t c = stream s c @ data"
    and "c' \<noteq> c \<Longrightarrow> client_of t c' = client_of s c'"
    and "cl_room (client_of t c') = cl_room (client_of s c')"
    and "cl_name (client_of t c') = cl_name (client_of s c')"
    and "cl_dead (client_of t c') = cl_dead (client_of s c')"
    and "sv_room t = sv_room s" and "sv_by_name t = sv_by_name s" and "sv_clients t = sv_clients s"
    and "sv_log t = sv_log s" and "sv_lobby t = sv_lobby s" and "sv_delay t = sv_delay s"
    and "sv_next_cid t = sv_next_cid s" and "sv_next_rid t = sv_next_rid s"
proof -
  from assms obtain tx wire sends sel where
    t: "t = upd_client c (\<lambda>x. x\<lparr>cl_tx := tx, cl_wire := wire\<rparr>) (s\<lparr>sv_sends := sends, sv_sel := sel\<rparr>)"
    by (auto simp: delivered_def)
  show "stream t c = stream s c @ data" using assms by (simp add: delivered_def)
  show "c' \<noteq> c \<Longrightarrow> client_of t c' = client_of s c'"
    "cl_room (client_of t c') = cl_room (client_of s c')"
    "cl_name (client_of t c') = cl_name (client_of s c')"
    "cl_dead (client_of t c') = cl_dead (client_of s c')"
    "sv_room t = sv_room s" "sv_by_name t = sv_by_name s" "sv_clients t = sv_clients s"
    "sv_log t = sv_log s" "sv_lobby t = sv_lobby s" "sv_delay t = sv_delay s"
    "sv_next_cid t = sv_next_cid s" "sv_next_rid t = sv_next_rid s"
    by (simp_all add: t)
qed

lemma delivered_stream:
  assumes "delivered c data s t"
  shows "stream t c' = stream s c' @ (if c' = c then data else [])"
proof (cases "c' = c")
  case False
  then show ?thesis using delivered_sel(2)[OF assms] by (simp add: stream_def)
qed (simp add: delivered_sel(1)[OF assms])

text \<open>
  The part of a drop's contract that delivery rests on: a client that was dropped is dead.
  Under it, a write after which the client is alive delivers.
\<close>

locale killing_dropper = evolving_dropper +
  assumes drp_kills: "drp c why s = Ok t \<Longrightarrow> cl_dead (client_of t c)"
begin

lemma write_delivers:
  assumes "send_with drp c data s = Ok t" "\<not> cl_dead (client_of t c)"
  shows "delivered c data s t"
proof -
  let ?q = "upd_client c (\<lambda>x. x\<lparr>cl_tx := cl_tx x @ data\<rparr>) s"
  obtain sc tx w v where loop:
    "send_loop (sv_sends ?q) (cl_tx (client_of ?q c)) (cl_wire (client_of ?q c)) = (sc, tx, w, v)"
    by (rule prod_cases4)
  have alive: "\<not> cl_dead (client_of s c)"
  proof
    assume "cl_dead (client_of s c)"
    then have "send_with drp c data s = Ok s" by (simp add: send_with_def)
    with assms \<open>cl_dead (client_of s c)\<close> show False by simp
  qed
  let ?w = "upd_client c (\<lambda>x. x\<lparr>cl_tx := tx, cl_wire := w\<rparr>) (?q\<lparr>sv_sends := sc\<rparr>)"
  have no_drop: "drp c why u \<noteq> Ok t" for why u using drp_kills[of c why u t] assms(2) by auto
  have "flush_with drp c ?q = Ok t"
    using assms(1) alive no_drop by (simp add: send_with_def split: if_splits)
  then have t: "t = update_events c ?w"
    unfolding flush_with_def loop Let_def prod.case using no_drop by (cases v) simp_all
  have t': "t = upd_client c (\<lambda>x. x\<lparr>cl_tx := tx, cl_wire := w\<rparr>)
      (s\<lparr>sv_sends := sc, sv_sel := sv_sel (update_events c ?w)\<rparr>)"
    unfolding t by (rule server.equality) (simp_all add: upd_client_def update_events_def)
  have "w @ tx = stream s c @ data"
    using send_loop_bytes[OF loop] by (auto simp: stream_def)
  then have "stream t c = stream s c @ data" by (simp add: t stream_def)
  with t' show ?thesis unfolding delivered_def by (intro conjI exI)
qed

end

lemma drop_client_killing: "killing_dropper (drop_client (Suc d))"
  using drop_client_evolving drop_client_kills
  by (auto simp: killing_dropper_def killing_dropper_axioms_def)

interpretation killing: killing_dropper drop
  unfolding drop_def DEPTH_def using drop_client_killing[of 7] by (simp add: numeral_eq_Suc)

lemmas send_delivers = killing.write_delivers [folded send_def]

lemma sent_evolves: "is_frame data \<Longrightarrow> send c data s = Ok t \<Longrightarrow> evolves s t"
  using plumbing.send_evolves[of data s c] by (simp add: send_def)

lemma alive_before: "evolves s t \<Longrightarrow> \<not> cl_dead (client_of t c) \<Longrightarrow> \<not> cl_dead (client_of s c)"
  using evolves_dead by blast

text \<open>Walking over a room of two whose members both survive.\<close>

lemma live_loop_pair:
  assumes "members s r = [a, b]" "live_loop 2 0 r body s = Ok t"
    and "\<And>i m s t. body i m s = Ok t \<Longrightarrow> evolves s t"
    and "\<And>i m s t. body i m s = Ok t \<Longrightarrow> \<not> cl_dead (client_of t m) \<Longrightarrow> sv_room t = sv_room s"
    and "\<not> cl_dead (client_of t a)"
  shows "\<exists>u. body 0 a s = Ok u \<and> body 1 b u = Ok t"
proof -
  obtain u where u: "body 0 a s = Ok u" "live_loop 1 1 r body u = Ok t"
    using assms(1,2) by (auto simp: numeral_2_eq_2 andthen_Ok_iff)
  have "evolves u t"
  proof (cases "1 < length (members u r)")
    case True
    with u(2) show ?thesis by (auto simp: andthen_Ok_iff intro: assms(3))
  qed (use u(2) in auto)
  with assms(5) have "\<not> cl_dead (client_of u a)" by (rule alive_before[rotated])
  with assms(4)[OF u(1)] have "members u r = [a, b]" using assms(1) by simp
  with u show ?thesis by (auto simp: andthen_Ok_iff)
qed

definition name_bytes :: "server \<Rightarrow> cid \<Rightarrow> byte list" where
  "name_bytes s c = pad8 (map byte_of_char (the (cl_name (client_of s c))))"

lemma length_name_bytes [simp]: "length (name_bytes s c) = 8"
  by (simp add: name_bytes_def)

lemma pad_name_member:
  assumes "good R s" "m \<in> set (members s r)"
  shows "pad_name (cl_name (client_of s m)) = Inr (name_bytes s m)"
  using good_member_name[OF assms] by (metis name_bytes_def option.sel pad_name_valid)

lemma roster_pair:
  assumes "good R s" "members s r = [a, b]"
  shows "roster s r = Inr (name_bytes s a @ name_bytes s b @ replicate 16 0)"
proof -
  have "sum_map (\<lambda>m. pad_name (cl_name (client_of s m))) (members s r) = Inr (map (name_bytes s) (members s r))"
    by (rule sum_map_Inr) (rule pad_name_member[OF assms(1)])
  with assms(2) show ?thesis by (simp add: roster_def ROSTER_SLOTS_def)
qed

lemma name_bytes_delivered [simp]: "delivered c data s t \<Longrightarrow> name_bytes t m = name_bytes s m"
  by (simp add: name_bytes_def delivered_sel)


text \<open>When no write of the script fails, a frame that fits the queue is delivered.\<close>

definition healthy :: "server \<Rightarrow> bool" where
  "healthy s \<longleftrightarrow> list_all (\<lambda>r. r \<noteq> Send_fails \<and> r \<noteq> Sent 0) (sv_sends s)"

definition fits :: "server \<Rightarrow> cid \<Rightarrow> byte list \<Rightarrow> bool" where
  "fits s c data \<longleftrightarrow> length (cl_tx (client_of s c)) + length data \<le> MAX_TX_BACKLOG"

lemma send_loop_healthy:
  "list_all (\<lambda>r. r \<noteq> Send_fails \<and> r \<noteq> Sent 0) script \<Longrightarrow>
   send_loop script tx wire = (script', tx', wire', v) \<Longrightarrow>
   v = None \<and> list_all (\<lambda>r. r \<noteq> Send_fails \<and> r \<noteq> Sent 0) script'"
  by (induction script tx wire rule: send_loop.induct) (auto simp: Let_def split: if_splits)

lemma send_healthy:
  assumes "healthy s" "\<not> cl_dead (client_of s c)" "fits s c data"
  shows "\<exists>t. send c data s = Ok t \<and> \<not> cl_dead (client_of t c) \<and> healthy t"
proof -
  let ?q = "upd_client c (\<lambda>x. x\<lparr>cl_tx := cl_tx x @ data\<rparr>) s"
  obtain sc tx w v where loop:
    "send_loop (sv_sends ?q) (cl_tx (client_of ?q c)) (cl_wire (client_of ?q c)) = (sc, tx, w, v)"
    by (rule prod_cases4)
  have v: "v = None" "list_all (\<lambda>r. r \<noteq> Send_fails \<and> r \<noteq> Sent 0) sc"
    using send_loop_healthy[OF _ loop] assms(1) by (simp_all add: healthy_def)
  let ?t = "update_events c (upd_client c (\<lambda>x. x\<lparr>cl_tx := tx, cl_wire := w\<rparr>) (?q\<lparr>sv_sends := sc\<rparr>))"
  have "\<not> length (cl_tx (client_of s c)) + length data > MAX_TX_BACKLOG" using assms(3) by (simp add: fits_def)
  then have "send c data s = Ok ?t"
    using assms(2) unfolding send_def send_with_def flush_with_def loop prod.case v(1) Let_def option.case
    by (simp only: if_False)
  moreover have "\<not> cl_dead (client_of ?t c)" using assms(2) by simp
  moreover have "healthy ?t" using v(2) by (simp add: healthy_def)
  ultimately show ?thesis by blast
qed

section \<open>Relaying\<close>

text \<open>\<open>c\<close> and \<open>m\<close> are the two members of room \<open>r\<close>.\<close>

definition pair_in :: "server \<Rightarrow> rid \<Rightarrow> cid \<Rightarrow> cid \<Rightarrow> bool" where
  "pair_in s r c m \<longleftrightarrow> members s r = [c, m] \<or> members s r = [m, c]"

lemma pair_in_neq: "good R s \<Longrightarrow> pair_in s r c m \<Longrightarrow> c \<noteq> m"
  by (auto simp: pair_in_def good_def core_def rooms_ok_def) (metis distinct_length_2_or_more)+

lemma fanout_pair:
  assumes "pair_in s r c m" "c \<noteq> m" "is_frame data" "\<not> cl_dead (client_of t m)"
    and "live_loop (length (members s r)) 0 r (\<lambda>i m s. if m \<noteq> c then send m data s else Ok s) s = Ok t"
  shows "delivered m data s t"
proof (cases "members s r = [c, m]")
  case True
  with assms(2,5) have "send m data s = Ok t" by (simp add: andthen_Ok_iff)
  with assms(4) show ?thesis by (rule send_delivers[rotated])
next
  case False
  with assms(1) have mem: "members s r = [m, c]" by (simp add: pair_in_def)
  have "\<exists>u. (if m \<noteq> c then send m data s else Ok s) = Ok u \<and> (if c \<noteq> c then send c data u else Ok u) = Ok t"
  proof (rule live_loop_pair[OF mem, where body = "\<lambda>i m s. if m \<noteq> c then send m data s else Ok s"])
    show "live_loop 2 0 r (\<lambda>i m s. if m \<noteq> c then send m data s else Ok s) s = Ok t"
      using assms(5) mem by (simp add: numeral_2_eq_2)
  qed (use assms(3,4) in \<open>auto split: if_splits intro: sent_evolves dest: send_delivers delivered_sel(6)\<close>)
  then have "send m data s = Ok t" using assms(2) by auto
  with assms(4) show ?thesis by (rule send_delivers[rotated])
qed

lemma fanout_healthy:
  assumes "pair_in s r c m" "c \<noteq> m" "healthy s" "\<not> cl_dead (client_of s m)" "fits s m data"
  shows "\<exists>t. live_loop (length (members s r)) 0 r (\<lambda>i m s. if m \<noteq> c then send m data s else Ok s) s = Ok t \<and>
    \<not> cl_dead (client_of t m)"
proof -
  obtain t where t: "send m data s = Ok t" "\<not> cl_dead (client_of t m)"
    using send_healthy[OF assms(3-5)] by blast
  have "sv_room t = sv_room s" using send_delivers[OF t] by (rule delivered_sel(6))
  with t assms(1,2) show ?thesis by (auto simp: pair_in_def)
qed

lemma stream_log_crc [simp]: "stream (log_crc r payload s) c = stream s c"
  by (simp add: log_crc_def Let_def stream_def split: prod.split)

lemma log_crc_frame:
  "sv_client (log_crc r payload s) = sv_client s" "sv_sends (log_crc r payload s) = sv_sends s"
  by (simp_all add: log_crc_def Let_def split: prod.split)

lemma relay_frame_pair:
  assumes "good {} s" "cl_room (client_of s c) = Some r" "rm_started (room_of s r)" "pair_in s r c m"
    and "length payload < 255" "relay_frame c ftype payload s = Ok t" "\<not> cl_dead (client_of t m)"
  shows "delivered m (encode_msg (ftype, payload))
    (if ftype = T_CRC \<and> length payload = 5 then log_crc r payload s else s) t"
proof -
  let ?s1 = "if ftype = T_CRC \<and> length payload = 5 then log_crc r payload s else s"
  have f: "frame ftype payload = Inr (encode_msg (ftype, payload))" by (rule encode_msg_frame[OF assms(5)])
  have "pair_in ?s1 r c m" using assms(4) by (simp add: pair_in_def)
  then show ?thesis
    using assms(2,3,6) by (intro fanout_pair[OF _ pair_in_neq[OF assms(1,4)] is_frame_frame[OF f] assms(7)])
       (simp_all add: relay_frame_def Let_def f)
qed


section \<open>Leaving\<close>

lemma drop_roomless:
  assumes "cl_room (client_of s c) = None"
  shows "drop_client (Suc d) c why s = (if cl_dead (client_of s c) then Ok s else Ok (unlink c why s))"
  using assms by (simp add: drop_client.simps(2) Let_def seat_def)

text \<open>Writing to a client without a room touches no other client and no room.\<close>

definition only_client :: "cid \<Rightarrow> server \<Rightarrow> server \<Rightarrow> bool" where
  "only_client c s t \<longleftrightarrow>
     (\<forall>c'. c' \<noteq> c \<longrightarrow> client_of t c' = client_of s c') \<and> sv_room t = sv_room s"

lemma send_roomless:
  assumes "cl_room (client_of s c) = None" "send_with (drop_client (Suc d)) c data s = Ok t"
  shows "only_client c s t"
proof -
  have drp: "only_client c u v"
    if "drop_client (Suc d) c why u = Ok v" "cl_room (client_of u c) = None" for u v why
    using that by (auto simp: drop_roomless only_client_def split: if_splits)
  obtain sc tx w v where loop: "send_loop (sv_sends s) (cl_tx (client_of s c) @ data) (cl_wire (client_of s c)) = (sc, tx, w, v)"
    by (rule prod_cases4)
  consider (dead) "cl_dead (client_of s c)"
    | (full) "\<not> cl_dead (client_of s c)" "length (cl_tx (client_of s c)) + length data > MAX_TX_BACKLOG"
    | (fits) "\<not> cl_dead (client_of s c)" "length (cl_tx (client_of s c)) + length data \<le> MAX_TX_BACKLOG"
    by linarith
  then show ?thesis
  proof cases
    case dead
    with assms(2) show ?thesis by (simp add: send_with_def only_client_def)
  next
    case full
    let ?st = "(sv_stats s)\<lparr>st_tx_backlog_drops := st_tx_backlog_drops (sv_stats s) + 1\<rparr>"
    have "drop_client (Suc d) c Backlog_exceeded (s\<lparr>sv_stats := ?st\<rparr>) = Ok t"
      using assms(2) full unfolding send_with_def by (simp only: if_True if_False)
    from drp[OF this] assms(1) show ?thesis by (simp add: only_client_def)
  next
    case fits
    let ?w = "upd_client c (\<lambda>x. x\<lparr>cl_tx := tx, cl_wire := w\<rparr>)
      ((upd_client c (\<lambda>x. x\<lparr>cl_tx := cl_tx x @ data\<rparr>) s)\<lparr>sv_sends := sc\<rparr>)"
    have base: "only_client c s ?w" "cl_room (client_of ?w c) = None"
      using assms(1) by (simp_all add: only_client_def)
    from fits assms(2) have "(case v of None \<Rightarrow> Ok (update_events c ?w) | Some why \<Rightarrow> drop_client (Suc d) c why ?w) = Ok t"
      by (simp add: send_with_def flush_with_def loop Let_def)
    moreover have "only_client c ?w (update_events c ?w)" by (simp add: only_client_def)
    ultimately have "only_client c ?w t"
      using drp[OF _ base(2)] by (cases v) (simp_all only: option.case outcome.inject)
    with base(1) show ?thesis by (simp add: only_client_def)
  qed
qed


text \<open>The message the other member gets when \<open>c\<close> leaves room \<open>r\<close>.\<close>

definition leave_notice :: "server \<Rightarrow> cid \<Rightarrow> rid \<Rightarrow> byte \<times> byte list" where
  "leave_notice s c r =
     (if rm_started (room_of s r)
      then (T_PEER_LEFT, word_of_nat (the (py_index c (members s r))) # name_bytes s c)
      else (T_ROOM, 0 # replicate 32 0))"

text \<open>The state in which the other member is notified.\<close>

definition left_behind :: "cid \<Rightarrow> rid \<Rightarrow> cid \<Rightarrow> server \<Rightarrow> server \<Rightarrow> bool" where
  "left_behind c r m s u \<longleftrightarrow>
     (\<forall>c'. c' \<noteq> c \<and> c' \<noteq> m \<longrightarrow> client_of u c' = client_of s c') \<and>
     client_of u m = (client_of s m)\<lparr>cl_room := None\<rparr> \<and>
     client_of u c = (client_of s c)\<lparr>cl_room := None, cl_dead := True, cl_closed := True\<rparr> \<and>
     (\<forall>r'. r' \<noteq> r \<longrightarrow> members u r' = members s r') \<and>
     sv_by_name u = fold AList.delete (stale_names c s) (sv_by_name s) \<and>
     sv_clients u = removeAll c (sv_clients s) \<and> sv_sends u = sv_sends s"

lemma leave_started_pair:
  assumes "good {} s" "pair_in s r c m" "rm_started (room_of s r)" "st = the (py_index c (members s r))" "st < 256"
    and "leave_started_with drp c r st (unseated c r (unlink c why s)) = Ok t"
  shows "\<exists>u v. left_behind c r m s u \<and> members u r = [] \<and>
    send_with drp m (encode_msg (leave_notice s c r)) u = Ok v \<and> t = add_log (Log_back_to_lobby m) v"
proof -
  have cm: "c \<noteq> m" using pair_in_neq[OF assms(1,2)] .
  let ?s2 = "unseated c r (unlink c why s)"
  let ?s3 = "add_log (Log_match_ended (rm_crc_ok (room_of ?s2 r)) c st) ?s2"
  let ?u = "upd_room r (\<lambda>x. x\<lparr>rm_members := []\<rparr>) (unseat [m] ?s3)"
  have mem: "members ?s3 r = [m]" using assms(2) cm by (auto simp: pair_in_def)
  have "c \<in> set (members s r)" using assms(2) by (auto simp: pair_in_def)
  then have nm: "pad_name (cl_name (client_of ?s3 c)) = Inr (name_bytes s c)"
    using pad_name_member[OF assms(1)] by simp
  have b: "to_bytes [int st] = Inr [word_of_nat st]"
    using assms(5) by (subst to_bytes_ok) simp_all
  have fr: "frame T_PEER_LEFT ([word_of_nat st] @ name_bytes s c) = Inr (encode_msg (leave_notice s c r))"
    using assms(3,4) by (subst encode_msg_frame) (simp_all add: leave_notice_def)
  have "left_behind c r m s ?u" "members ?u r = []"
    using cm by (auto simp: left_behind_def)
  moreover have "\<exists>v. send_with drp m (encode_msg (leave_notice s c r)) ?u = Ok v \<and> t = add_log (Log_back_to_lobby m) v"
    using assms(6) unfolding leave_started_with_def Let_def b nm fr attempt.simps mem
    by (simp only: dissolve_with_def mem andthen_Ok_iff send_each.simps andthen.simps send_peer_left.simps
        Let_def outcome.inject) blast
  ultimately show ?thesis by blast
qed

lemma leave_forming_pair:
  assumes "good {} s" "pair_in s r c m" "\<not> rm_started (room_of s r)"
    and "leave_forming_with drp r st (unseated c r (unlink c why s)) = Ok t"
  shows "\<exists>u v. left_behind c r m s u \<and>
    send_with drp m (encode_msg (leave_notice s c r)) u = Ok v \<and> t = upd_room r (\<lambda>x. x\<lparr>rm_members := []\<rparr>) v"
proof -
  have cm: "c \<noteq> m" using pair_in_neq[OF assms(1,2)] .
  let ?s2 = "unseated c r (unlink c why s)"
  have mem: "members ?s2 r = [m]" using assms(2) cm by (auto simp: pair_in_def)
  have fr: "frame T_ROOM ([0] @ replicate 32 0) = Inr (encode_msg (leave_notice s c r))"
    using assms(3) by (subst encode_msg_frame) (simp_all add: leave_notice_def)
  let ?w = "if st = 0 then add_log (Log_dissolved r) ?s2 else ?s2"
  have w: "left_behind c r m s (unseat [m] ?w)" "members ?w r = [m]"
    using cm mem by (auto simp: left_behind_def)
  have d: "dissolve_with drp r [m] ?w = Ok t"
    using assms(4) mem by (simp add: leave_forming_with_def split: if_splits)
  then obtain v where "send_with drp m (encode_msg (leave_notice s c r)) (unseat [m] ?w) = Ok v"
    "t = upd_room r (\<lambda>x. x\<lparr>rm_members := []\<rparr>) v"
    unfolding dissolve_with_def Let_def fr w(2) by (auto simp: andthen_Ok_iff)
  with w(1) show ?thesis by blast
qed

lemma drop_pair:
  assumes "good {} s" "\<not> cl_dead (client_of s c)" "cl_room (client_of s c) = Some r" "pair_in s r c m"
    and "drop c why s = Ok t"
  shows "\<exists>u v. left_behind c r m s u \<and> send_with (drop_client 7) m (encode_msg (leave_notice s c r)) u = Ok v \<and>
    members t r = [] \<and> sv_client t = sv_client v \<and> (\<forall>r'. r' \<noteq> r \<longrightarrow> members t r' = members v r') \<and>
    sv_by_name t = sv_by_name v \<and> sv_clients t = sv_clients v \<and> sv_sends t = sv_sends v"
proof -
  let ?st = "the (py_index c (members s r))"
  have co: "core s" using assms(1) by (simp add: good_def)
  have st: "?st < 2" by (rule py_index_member_less[OF co assms(3)])
  have "leave_room_with (drop_client 7) c r ?st (unlink c why s) = Ok t"
    using assms(5) drop_client_Suc[OF co assms(2), of 7 why] assms(3)
    by (simp add: drop_def DEPTH_def numeral_eq_Suc)
  then obtain w where
    w: "(if rm_started (room_of s r) then leave_started_with (drop_client 7) c r ?st (unseated c r (unlink c why s))
         else leave_forming_with (drop_client 7) r ?st (unseated c r (unlink c why s))) = Ok w"
    and t: "t = lobby_update w"
    by (auto simp: leave_room_unseated andthen_Ok_iff)
  show ?thesis
  proof (cases "rm_started (room_of s r)")
    case True
    with w leave_started_pair[OF assms(1,4) True refl, where drp = "drop_client 7"] st obtain u v where
      "left_behind c r m s u" "members u r = []"
      "send_with (drop_client 7) m (encode_msg (leave_notice s c r)) u = Ok v" "w = add_log (Log_back_to_lobby m) v"
      by force
    moreover from this have "only_client m u v"
      by (intro send_roomless[where d = 6]) (simp_all add: left_behind_def eval_nat_numeral)
    ultimately show ?thesis unfolding t only_client_def by force
  next
    case False
    then have w': "leave_forming_with (drop_client 7) r ?st (unseated c r (unlink c why s)) = Ok w"
      using w by simp
    obtain u v where
      "left_behind c r m s u"
      "send_with (drop_client 7) m (encode_msg (leave_notice s c r)) u = Ok v"
      "w = upd_room r (\<lambda>x. x\<lparr>rm_members := []\<rparr>) v"
      using leave_forming_pair[OF assms(1,4) False w'] by blast
    then show ?thesis unfolding t by force
  qed
qed


lemma drop_client_unlinks:
  assumes "drop_client (Suc d) c why s = Ok t" "\<not> cl_dead (client_of s c)"
  shows "evolves (unlink c why s) t"
  using assms evolving_dropper.leave_room_evolves[OF drop_client_evolving, of "unlink c why s" d]
  by (auto simp: drop_client.simps(2) Let_def split: option.splits sum.splits) (metis final.simps(1))

lemma drop_unlinks: "drop c why s = Ok t \<Longrightarrow> \<not> cl_dead (client_of s c) \<Longrightarrow> evolves (unlink c why s) t"
  unfolding drop_def DEPTH_def by (rule drop_client_unlinks[of 7]) (simp_all add: numeral_eq_Suc)

lemma drop_forgets:
  assumes "good {} s" "drop c why s = Ok t" "\<not> cl_dead (client_of s c)"
  shows "(n, c) \<notin> set (sv_by_name t)"
proof -
  have "distinct (map fst (sv_by_name s))" using assms(1) by (simp add: good_def core_def names_ok_def)
  from unlink_by_name_set[OF this, of c why] show ?thesis
    using drop_unlinks[OF assms(2,3)] by (auto simp: evolves_def)
qed

text \<open>The whole effect of a leaver on the others.\<close>

lemma drop_pair_effect:
  assumes "good {} s" "\<not> cl_dead (client_of s c)" "cl_room (client_of s c) = Some r" "pair_in s r c m"
    and "drop c why s = Ok t"
  shows "members t r = []" and "cl_room (client_of t m) = None"
    and "c' \<noteq> c \<Longrightarrow> c' \<noteq> m \<Longrightarrow> client_of t c' = client_of s c'"
    and "c' \<noteq> m \<Longrightarrow> stream t c' = stream s c'"
    and "\<not> cl_dead (client_of t m) \<Longrightarrow> stream t m = stream s m @ encode_msg (leave_notice s c r)"
proof -
  obtain u v where u: "left_behind c r m s u"
      "send_with (drop_client 7) m (encode_msg (leave_notice s c r)) u = Ok v"
    and t: "members t r = []" "sv_client t = sv_client v"
    using drop_pair[OF assms] by blast
  have seven: "drop_client 7 = drop_client (Suc 6)" by (simp add: eval_nat_numeral)
  have roomless: "cl_room (client_of u m) = None" using u(1) by (simp add: left_behind_def)
  then have only: "only_client m u v" using send_roomless u(2) unfolding seven by blast
  have f: "is_frame (encode_msg (leave_notice s c r))"
    by (auto simp: is_frame_def leave_notice_def intro!: exI encode_msg_frame)
  have "evolves u v"
    using evolving_dropper.send_evolves[OF drop_client_evolving f, of u 7 m] u(2) by simp
  with roomless show "cl_room (client_of t m) = None" using evolves_roomless by (simp add: t(2)) 
  show "members t r = []" by (rule t(1))
  show "c' \<noteq> c \<Longrightarrow> c' \<noteq> m \<Longrightarrow> client_of t c' = client_of s c'"
    using only u(1) by (simp add: t(2) only_client_def left_behind_def)
  show "c' \<noteq> m \<Longrightarrow> stream t c' = stream s c'"
    using only u(1) pair_in_neq[OF assms(1,4)]
    by (cases "c' = c") (simp_all add: stream_def t(2) only_client_def left_behind_def)
  show "stream t m = stream s m @ encode_msg (leave_notice s c r)" if "\<not> cl_dead (client_of t m)"
  proof -
    have "delivered m (encode_msg (leave_notice s c r)) u v"
      using killing_dropper.write_delivers[OF drop_client_killing u(2)[unfolded seven]] that by (simp add: t(2))
    from delivered_sel(1)[OF this] show ?thesis using u(1) by (simp add: stream_def t(2) left_behind_def)
  qed
qed


section \<open>Joining and starting\<close>

definition room_notice :: "server \<Rightarrow> cid \<Rightarrow> cid \<Rightarrow> byte \<times> byte list" where
  "room_notice s a b = (T_ROOM, 2 # name_bytes s a @ name_bytes s b @ replicate 16 0)"

definition start_notice :: "server \<Rightarrow> cid \<Rightarrow> cid \<Rightarrow> nat \<Rightarrow> nat \<Rightarrow> byte \<times> byte list" where
  "start_notice s a b sd i =
     (T_START, [word_of_nat i, 2, word_of_nat (sd AND 0xFF), word_of_nat (drop_bit 8 sd), word_of_int (sv_delay s)]
        @ name_bytes s a @ name_bytes s b @ replicate 16 0)"

text \<open>Two frames, to the two members in seat order, with both still connected afterwards.\<close>

definition both_delivered :: "cid \<Rightarrow> byte list \<Rightarrow> cid \<Rightarrow> byte list \<Rightarrow> server \<Rightarrow> server \<Rightarrow> bool" where
  "both_delivered a da b db s t \<longleftrightarrow> (\<exists>u. delivered a da s u \<and> delivered b db u t)"

lemma both_delivered_sel:
  assumes "both_delivered a da b db s t" "a \<noteq> b"
  shows "stream t a = stream s a @ da" "stream t b = stream s b @ db"
    and "c \<noteq> a \<Longrightarrow> c \<noteq> b \<Longrightarrow> client_of t c = client_of s c"
    and "cl_room (client_of t c) = cl_room (client_of s c)"
    and "cl_name (client_of t c) = cl_name (client_of s c)"
    and "sv_room t = sv_room s" and "sv_by_name t = sv_by_name s" and "sv_delay t = sv_delay s"
    and "sv_log t = sv_log s" and "sv_lobby t = sv_lobby s"
proof -
  obtain u where u: "delivered a da s u" "delivered b db u t"
    using assms(1) by (auto simp: both_delivered_def)
  note st = delivered_stream[OF u(1)] delivered_stream[OF u(2)]
  show "stream t a = stream s a @ da" "stream t b = stream s b @ db" using st assms(2) by simp_all
  show "c \<noteq> a \<Longrightarrow> c \<noteq> b \<Longrightarrow> client_of t c = client_of s c"
    using delivered_sel(2)[OF u(1), of c] delivered_sel(2)[OF u(2), of c] by simp
  show "cl_room (client_of t c) = cl_room (client_of s c)" "cl_name (client_of t c) = cl_name (client_of s c)"
    "sv_room t = sv_room s" "sv_by_name t = sv_by_name s" "sv_delay t = sv_delay s"
    "sv_log t = sv_log s" "sv_lobby t = sv_lobby s"
    by (simp_all add: delivered_sel(3-11)[OF u(1)] delivered_sel(3-11)[OF u(2)])
qed

lemma live_loop_ext:
  assumes "\<And>i m s. i < k \<Longrightarrow> f i m s = g i m s" "n + i \<le> k"
  shows "live_loop n i r f s = live_loop n i r g s"
  using assms(2) by (induction n arbitrary: i s) (auto simp: assms(1) intro!: andthen_cong)

lemma live_loop_both:
  assumes "members s r = [a, b]" "live_loop 2 0 r body s = Ok t"
    and "\<And>i m s. i < 2 \<Longrightarrow> body i m s = send m (data i) s" "\<And>i. is_frame (data i)"
    and "\<not> cl_dead (client_of t a)" "\<not> cl_dead (client_of t b)"
  shows "both_delivered a (data 0) b (data 1) s t"
proof -
  have "\<exists>u. send a (data 0) s = Ok u \<and> send b (data 1) u = Ok t"
  proof (rule live_loop_pair[OF assms(1), where body = "\<lambda>i m s. send m (data i) s"])
    show "live_loop 2 0 r (\<lambda>i m s. send m (data i) s) s = Ok t"
      using live_loop_ext[where k = 2 and n = 2 and i = 0 and r = r and s = s, OF assms(3)] assms(2) by simp
  qed (use assms(4,5) in \<open>auto intro: sent_evolves dest: send_delivers delivered_sel(6)\<close>)
  then obtain u where u: "send a (data 0) s = Ok u" "send b (data 1) u = Ok t" by blast
  have "evolves u t" using sent_evolves[OF assms(4) u(2)] .
  then have "\<not> cl_dead (client_of u a)" using assms(5) by (rule alive_before)
  then show ?thesis
    using send_delivers[OF u(1)] send_delivers[OF u(2) assms(6)] by (auto simp: both_delivered_def)
qed

lemma live_loop_both_healthy:
  assumes "members s r = [a, b]" "a \<noteq> b" "healthy s" "\<not> cl_dead (client_of s a)" "\<not> cl_dead (client_of s b)"
    and "fits s a (data 0)" "fits s b (data 1)"
  shows "\<exists>t. live_loop 2 0 r (\<lambda>i m s. send m (data i) s) s = Ok t \<and> \<not> cl_dead (client_of t a) \<and>
    \<not> cl_dead (client_of t b) \<and> healthy t"
proof -
  obtain u where u: "send a (data 0) s = Ok u" "\<not> cl_dead (client_of u a)" "healthy u"
    using send_healthy[OF assms(3,4,6)] by blast
  note d = delivered_sel[OF send_delivers[OF u(1,2)]]
  have "\<not> cl_dead (client_of u b)" "fits u b (data 1)"
    using d(2)[of b] assms(2,5,7) by (simp_all add: fits_def)
  then obtain t where t: "send b (data 1) u = Ok t" "\<not> cl_dead (client_of t b)" "healthy t"
    using send_healthy[OF u(3)] by blast
  have "\<not> cl_dead (client_of t a)"
    using delivered_sel(5)[OF send_delivers[OF t(1,2)], of a] u(2) by simp
  moreover have "live_loop 2 0 r (\<lambda>i m s. send m (data i) s) s = Ok t"
    using assms(1) u(1) t(1) d(6) by (simp add: numeral_2_eq_2)
  ultimately show ?thesis using t by blast
qed

lemma room_broadcast_unfold:
  assumes "good {} s" "members s r = [a, b]"
  shows "room_broadcast r s = live_loop 2 0 r (\<lambda>i m w. send m (encode_msg (room_notice s a b)) w) s"
    and "is_frame (encode_msg (room_notice s a b))"
proof -
  have fr: "frame T_ROOM ([2] @ name_bytes s a @ name_bytes s b @ replicate 16 0) = Inr (encode_msg (room_notice s a b))"
    by (subst encode_msg_frame) (simp_all add: room_notice_def)
  have count: "to_bytes [int (length (members s r))] = Inr [2]"
    using assms(2) by (subst to_bytes_ok) simp_all
  show "room_broadcast r s = live_loop 2 0 r (\<lambda>i m w. send m (encode_msg (room_notice s a b)) w) s"
    using assms(2)
    unfolding room_broadcast_def room_broadcast_with_def count roster_pair[OF assms] attempt.simps fr send_def
    by (simp add: numeral_2_eq_2)
  show "is_frame (encode_msg (room_notice s a b))" by (rule is_frame_frame[OF fr])
qed

lemma room_broadcast_pair:
  assumes "good {} s" "members s r = [a, b]" "room_broadcast r s = Ok t"
    and "\<not> cl_dead (client_of t a)" "\<not> cl_dead (client_of t b)"
  shows "both_delivered a (encode_msg (room_notice s a b)) b (encode_msg (room_notice s a b)) s t"
  by (rule live_loop_both[OF assms(2) _ _ _ assms(4,5), where data = "\<lambda>_. encode_msg (room_notice s a b)"])
     (use assms(3) room_broadcast_unfold[OF assms(1,2)] in simp_all)

lemma room_broadcast_healthy:
  assumes "good {} s" "members s r = [a, b]" "a \<noteq> b" "healthy s"
    and "\<not> cl_dead (client_of s a)" "\<not> cl_dead (client_of s b)"
    and "cl_tx (client_of s a) = []" "cl_tx (client_of s b) = []"
  shows "\<exists>t. room_broadcast r s = Ok t \<and> \<not> cl_dead (client_of t a) \<and> \<not> cl_dead (client_of t b)"
proof -
  have "fits s m (encode_msg (room_notice s a b))" if "m \<in> {a, b}" for m
    using that assms(7,8) by (auto simp: fits_def encode_msg_def room_notice_def MAX_TX_BACKLOG_def)
  then show ?thesis
    using live_loop_both_healthy[OF assms(2-6), of "\<lambda>_. encode_msg (room_notice s a b)"]
    unfolding room_broadcast_unfold[OF assms(1,2)] by blast
qed

text \<open>The room of a match that has just been started with seed \<open>sd\<close>.\<close>

definition match_room :: "nat \<Rightarrow> room \<Rightarrow> room" where
  "match_room sd x = x\<lparr>rm_started := True, rm_seed := sd, rm_crc := [], rm_crc_ok := 0\<rparr>"

definition match_begun :: "rid \<Rightarrow> nat \<Rightarrow> server \<Rightarrow> server" where
  "match_begun r sd s = upd_room r (match_room sd) (s\<lparr>sv_rands := tl (sv_rands s)\<rparr>)"

lemma match_begun_sel [simp]:
  "client_of (match_begun r sd s) c = client_of s c"
  "room_of (match_begun r sd s) r' = (if r' = r then match_room sd (room_of s r) else room_of s r')"
  "sv_delay (match_begun r sd s) = sv_delay s" "sv_by_name (match_begun r sd s) = sv_by_name s"
  by (simp_all add: match_begun_def)

lemma start_room_draws:
  assumes "randrange (upd_room r (\<lambda>x. x\<lparr>rm_started := True\<rparr>) s) = (sd, s2)"
  shows "upd_room r (\<lambda>x. x\<lparr>rm_seed := sd, rm_crc := [], rm_crc_ok := 0\<rparr>) s2 = match_begun r sd s"
  using assms by (auto simp: randrange_def match_begun_def match_room_def upd_room_def split: list.splits
      intro!: server.equality)

lemma seed_bytes:
  assumes "sd < 0x10000"
  shows "sd AND 0xFF < (256 :: nat)" "drop_bit 8 sd < (256 :: nat)"
  using assms and_255_less[of sd] by (simp_all add: drop_bit_eq_div)

lemma good_match_begun: "good {} s \<Longrightarrow> good {} (match_begun r sd s)"
  by (simp add: match_begun_def good_upd_room_same_members match_room_def)

lemma start_room_unfold:
  assumes "good {} s" "delay_ok s" "members s r = [a, b]"
  shows "\<exists>sd. 1 \<le> sd \<and> sd < 0x10000 \<and> sd = fst (randrange s) \<and>
    start_room r s = andthen
      (live_loop 2 0 r (\<lambda>i m w. send m (encode_msg (start_notice s a b sd i)) w) (match_begun r sd s))
      (\<lambda>u. Ok (lobby_update (add_log (Log_match_started r (length (members u r)) sd) u)))"
proof -
  obtain sd s2 where rr: "randrange (upd_room r (\<lambda>x. x\<lparr>rm_started := True\<rparr>) s) = (sd, s2)" by fastforce
  let ?s3 = "match_begun r sd s"
  have sd: "1 \<le> sd" "sd < 0x10000" using randrange_range[OF rr] by simp_all
  have g3: "good {} ?s3" by (rule good_match_begun[OF assms(1)])
  have m3: "members ?s3 r = [a, b]" using assms(3) by (simp add: match_room_def)
  let ?hdr = "[2, word_of_nat (sd AND 0xFF), word_of_nat (drop_bit 8 sd), word_of_int (sv_delay s)] :: byte list"
  have hdr: "to_bytes [int (length (members ?s3 r)), int (sd AND 0xFF), int (drop_bit 8 sd), sv_delay ?s3] = Inr ?hdr"
    unfolding m3 using seed_bytes[OF sd(2)] assms(2) by (subst to_bytes_ok) (simp_all add: delay_ok_def)
  have nb: "name_bytes ?s3 = name_bytes s" by (rule ext) (simp add: name_bytes_def)
  define data where "data i = encode_msg (start_notice s a b sd i)" for i
  let ?common = "?hdr @ name_bytes s a @ name_bytes s b @ replicate 16 0"
  have fr: "frame T_START ([word_of_nat i] @ ?common) = Inr (data i)" for i
    unfolding data_def by (subst encode_msg_frame) (simp_all add: start_notice_def)
  let ?body = "\<lambda>i m s. attempt (to_bytes [int i]) s (\<lambda>b. attempt (frame T_START (b @ ?common)) s (\<lambda>data. send m data s))"
  have body: "?body i m w = send m (data i) w" if "i < 2" for i m w
  proof -
    have "to_bytes [int i] = Inr [word_of_nat i]" using that by (subst to_bytes_ok) simp_all
    then show ?thesis by (simp only: attempt.simps fr)
  qed
  have "start_room r s = andthen (live_loop 2 0 r ?body ?s3)
      (\<lambda>u. Ok (lobby_update (add_log (Log_match_started r (length (members u r)) sd) u)))"
    using m3
    unfolding start_room_def Let_def rr prod.case start_room_draws[OF rr] hdr roster_pair[OF g3 m3] nb attempt.simps
    by (simp add: numeral_2_eq_2)
  moreover have "live_loop 2 0 r ?body ?s3 = live_loop 2 0 r (\<lambda>i m w. send m (data i) w) ?s3"
    by (rule live_loop_ext[of 2], rule body) simp_all
  ultimately have "start_room r s = andthen (live_loop 2 0 r (\<lambda>i m w. send m (data i) w) ?s3)
      (\<lambda>u. Ok (lobby_update (add_log (Log_match_started r (length (members u r)) sd) u)))"
    by (simp only:)
  moreover have "sd = fst (randrange s)" using rr by (simp add: randrange_def split: list.splits)
  ultimately show ?thesis using sd unfolding data_def by blast
qed

lemma start_room_pair:
  assumes "good {} s" "delay_ok s" "members s r = [a, b]" "start_room r s = Ok t"
    and "\<not> cl_dead (client_of t a)" "\<not> cl_dead (client_of t b)"
  shows "\<exists>sd u. 1 \<le> sd \<and> sd < 0x10000 \<and>
    both_delivered a (encode_msg (start_notice s a b sd 0)) b (encode_msg (start_notice s a b sd 1))
      (match_begun r sd s) u \<and>
    t = lobby_update (add_log (Log_match_started r 2 sd) u)"
proof -
  obtain sd where sd: "1 \<le> sd" "sd < 0x10000" and st:
    "start_room r s = andthen
      (live_loop 2 0 r (\<lambda>i m w. send m (encode_msg (start_notice s a b sd i)) w) (match_begun r sd s))
      (\<lambda>u. Ok (lobby_update (add_log (Log_match_started r (length (members u r)) sd) u)))"
    using start_room_unfold[OF assms(1-3)] by blast
  let ?s3 = "match_begun r sd s" and ?data = "\<lambda>i. encode_msg (start_notice s a b sd i)"
  have m3: "members ?s3 r = [a, b]" using assms(3) by (simp add: match_room_def)
  obtain u where u: "live_loop 2 0 r (\<lambda>i m w. send m (?data i) w) ?s3 = Ok u"
    and t: "t = lobby_update (add_log (Log_match_started r (length (members u r)) sd) u)"
    using assms(4) unfolding st by (auto simp: andthen_Ok_iff)
  have "frame T_START (snd (start_notice s a b sd i)) = Inr (?data i)" for i
    by (subst encode_msg_frame) (simp_all add: start_notice_def)
  then have "is_frame (?data i)" for i by (rule is_frame_frame)
  then have bd: "both_delivered a (?data 0) b (?data 1) ?s3 u"
    using live_loop_both[OF m3 u, of ?data] assms(5,6) by (simp add: t)
  have "a \<noteq> b" using assms(1,3) by (auto simp: good_def core_def rooms_ok_def) (metis distinct_length_2_or_more)
  then have "sv_room u = sv_room ?s3" by (rule both_delivered_sel(6)[OF bd])
  then have "length (members u r) = 2" using m3 by simp
  then have "t = lobby_update (add_log (Log_match_started r 2 sd) u)" by (simp only: t)
  then show ?thesis using bd sd by blast
qed

lemma start_room_healthy:
  assumes "good {} s" "delay_ok s" "members s r = [a, b]" "healthy s"
    and "\<not> cl_dead (client_of s a)" "\<not> cl_dead (client_of s b)"
    and "cl_tx (client_of s a) = []" "cl_tx (client_of s b) = []"
  shows "\<exists>t. start_room r s = Ok t \<and> \<not> cl_dead (client_of t a) \<and> \<not> cl_dead (client_of t b)"
proof -
  obtain sd where st:
    "start_room r s = andthen
      (live_loop 2 0 r (\<lambda>i m w. send m (encode_msg (start_notice s a b sd i)) w) (match_begun r sd s))
      (\<lambda>u. Ok (lobby_update (add_log (Log_match_started r (length (members u r)) sd) u)))"
    using start_room_unfold[OF assms(1-3)] by blast
  let ?s3 = "match_begun r sd s" and ?data = "\<lambda>i. encode_msg (start_notice s a b sd i)"
  have "members ?s3 r = [a, b]" using assms(3) by (simp add: match_room_def)
  moreover have "a \<noteq> b" using assms(1,3) by (auto simp: good_def core_def rooms_ok_def) (metis distinct_length_2_or_more)
  moreover have "healthy ?s3" using assms(4) by (simp add: healthy_def match_begun_def upd_room_def)
  moreover have "fits ?s3 a (?data 0)" "fits ?s3 b (?data 1)"
    using assms(7,8) by (simp_all add: fits_def encode_msg_def start_notice_def MAX_TX_BACKLOG_def)
  ultimately obtain u where u: "live_loop 2 0 r (\<lambda>i m w. send m (?data i) w) ?s3 = Ok u"
      "\<not> cl_dead (client_of u a)" "\<not> cl_dead (client_of u b)"
    using live_loop_both_healthy[of ?s3 r a b ?data] assms(5,6) by auto
  then show ?thesis unfolding st by simp
qed

end
