(* ===== verification/Relay_Props.thy ===== *)
theory Relay_Props
  imports Relay_Deliver
begin

text \<open>
  The properties of the relay's protocol as its clients see them, each stated over the handlers
  and the streams of bytes the clients receive, with a concrete server for the examples.
\<close>

section \<open>A concrete server\<close>

text \<open>
  A concrete server for the examples below: ALICE (client 0) and BOB (client 1) share room 0,
  CAROL (client 2) and DAVE (client 3) are alone in the lobby.
\<close>

definition demo_client :: "string \<Rightarrow> rid option \<Rightarrow> client" where
  "demo_client n room =
     (Client_init (''10.0.0.'' @ take 1 n, 4000) 0)\<lparr>cl_name := Some n, cl_room := room\<rparr>"

definition demo :: "bool \<Rightarrow> server" where
  "demo started =
     (Server_init 9112 3 None 0 [] [4660])
       \<lparr>sv_client := (sv_client (Server_init 9112 3 None 0 [] []))
          (0 := demo_client ''ALICE'' (Some 0), 1 := demo_client ''BOB'' (Some 0), 2 := demo_client ''CAROL'' None,
           3 := demo_client ''DAVE'' None),
        sv_room := (sv_room (Server_init 9112 3 None 0 [] []))
          (0 := (Room_init 0)\<lparr>rm_members := [0, 1], rm_started := started\<rparr>),
        sv_clients := [0, 1, 2, 3],
        sv_sel := (\<lambda>_. None)(0 := Some False, 1 := Some False, 2 := Some False, 3 := Some False),
        sv_by_name := [(''ALICE'', 0), (''BOB'', 1), (''CAROL'', 2), (''DAVE'', 3)],
        sv_next_cid := 4, sv_next_rid := 1\<rparr>"

lemma demo_sel [simp]:
  "client_of (demo b) c = (if c = 0 then demo_client ''ALICE'' (Some 0) else if c = 1 then demo_client ''BOB'' (Some 0)
     else if c = 2 then demo_client ''CAROL'' None else if c = 3 then demo_client ''DAVE'' None else (Client_init ([], 0) 0)\<lparr>cl_dead := True\<rparr>)"
  "room_of (demo b) r = (if r = 0 then (Room_init 0)\<lparr>rm_members := [0, 1], rm_started := b\<rparr>
     else (Room_init 0)\<lparr>rm_members := []\<rparr>)"
  "sv_clients (demo b) = [0, 1, 2, 3]"
  "sv_sel (demo b) = (\<lambda>_. None)(0 := Some False, 1 := Some False, 2 := Some False, 3 := Some False)"
  "sv_by_name (demo b) = [(''ALICE'', 0), (''BOB'', 1), (''CAROL'', 2), (''DAVE'', 3)]"
  "sv_next_cid (demo b) = 4" "sv_next_rid (demo b) = 1" "sv_delay (demo b) = 3" "sv_lobby (demo b) = None"
  "sv_auto_go (demo b) = 0"
  by (simp_all add: demo_def Server_init_def)

lemma demo_client_sel [simp]:
  "cl_name (demo_client n r) = Some n" "cl_room (demo_client n r) = r" "cl_dead (demo_client n r) = False"
  "cl_closed (demo_client n r) = False" "cl_tx (demo_client n r) = []" "cl_wire (demo_client n r) = []"
  "cl_rx (demo_client n r) = []" "cl_addr (demo_client n r) = (''10.0.0.'' @ take 1 n, 4000)"
  by (simp_all add: demo_client_def Client_init_def)

lemma demo_good: "good {} (demo b)"
proof -
  have names: "valid_name ''ALICE''" "valid_name ''BOB''" "valid_name ''CAROL''" "valid_name ''DAVE''"
    by (simp_all add: valid_name_def NAME_CHARS_def)
  have "rooms_ok (demo b)" by (auto simp: rooms_ok_def MAX_SEATS_def Room_init_def Client_init_def split: if_splits)
  moreover have "names_ok (demo b)"
    using names by (auto simp: names_ok_def Client_init_def split: if_splits)
  moreover have "alive_named (demo b)" by (auto simp: alive_named_def Client_init_def split: if_splits)
  moreover have "conns_ok (demo b)" by (auto simp: conns_ok_def Client_init_def split: if_splits)
  moreover have "tx_ok (demo b)" by (auto simp: tx_ok_def Client_init_def)
  moreover have "lobby_ok (demo b)" by (simp add: lobby_ok_def)
  moreover have "events_ok {} (demo b)" by (auto simp: events_ok_def Client_init_def split: if_splits)
  moreover have "settled {} (demo b)" by (auto simp: settled_def Room_init_def split: if_splits)
  ultimately show ?thesis by (simp add: good_def core_def)
qed

lemma demo_healthy: "healthy (demo b)"
  by (simp add: healthy_def demo_def Server_init_def)

lemma demo_stream: "stream (demo b) c = []"
  by (simp add: stream_def Client_init_def)

lemma demo_inv: "server_inv (demo b)"
proof -
  have "limits_ok (demo b)"
    by (auto simp: limits_ok_def per_ip_def MAX_CLIENTS_def MAX_CONNECTIONS_PER_IP_def)
  moreover have "rx_short (demo b) c" for c by (auto simp: rx_short_def Client_init_def)
  moreover have "crc_table_ok (room_of (demo b) r)" for r by (simp add: crc_table_ok_def Room_init_def)
  moreover have "framed_ext [] (stream (demo b) c)" for c by (simp add: stream_def Client_init_def)
  ultimately show ?thesis using demo_good by (simp add: server_inv_def delay_ok_def)
qed


section \<open>Properties\<close>

lemma handle_relays:
  assumes "server_inv s" "length payload < 255" "ftype \<in> set RELAY_TYPES"
  shows "\<exists>t. handle c ftype payload s = Ok t \<and> relay_frame c ftype payload s = Ok t"
proof -
  have "safe (relay_frame c ftype payload s)"
    using assms safe_relay_frame by (simp add: server_inv_def)
  then show ?thesis using assms(3) by (auto simp: handle_def safe_def)
qed

text \<open>
  C4 (relaying): an INPUT, CRC, STATE or RESYNC frame from a player in a running match is
  appended, byte for byte as the sender framed it, to the stream of the other player, and to
  nobody else's, and the match goes on; the other player can only be lost if its own writes
  fail or its queue is full.
\<close>

theorem relay_verbatim:
  assumes "server_inv s" "ftype \<in> set RELAY_TYPES" "length payload < 255"
    and "cl_room (client_of s c) = Some r" "rm_started (room_of s r)" "pair_in s r c m"
  shows "\<exists>t. handle c ftype payload s = Ok t \<and>
    (\<not> cl_dead (client_of t m) \<longrightarrow>
       members t r = members s r \<and>
       (\<forall>c'. stream t c' = stream s c' @ (if c' = m then encode_msg (ftype, payload) else []))) \<and>
    (healthy s \<and> \<not> cl_dead (client_of s m) \<and> fits s m (encode_msg (ftype, payload)) \<longrightarrow>
       \<not> cl_dead (client_of t m))"
proof -
  let ?data = "encode_msg (ftype, payload)"
  let ?s1 = "if ftype = T_CRC \<and> length payload = 5 then log_crc r payload s else s"
  have g: "good {} s" using assms(1) by (simp add: server_inv_def)
  obtain t where t: "handle c ftype payload s = Ok t" "relay_frame c ftype payload s = Ok t"
    using handle_relays[OF assms(1,3,2)] by blast
  have loop: "live_loop (length (members ?s1 r)) 0 r (\<lambda>i m s. if m \<noteq> c then send m ?data s else Ok s) ?s1 = Ok t"
    using t(2) assms(4,5) by (simp add: relay_frame_def Let_def encode_msg_frame[OF assms(3)])
  have "members t r = members s r \<and> (\<forall>c'. stream t c' = stream s c' @ (if c' = m then ?data else []))"
    if "\<not> cl_dead (client_of t m)"
  proof -
    have d: "delivered m ?data ?s1 t" by (rule relay_frame_pair[OF g assms(4-6,3) t(2) that])
    show ?thesis using delivered_stream[OF d] delivered_sel(6)[OF d] by simp
  qed
  moreover have "\<not> cl_dead (client_of t m)"
    if h: "healthy s \<and> \<not> cl_dead (client_of s m) \<and> fits s m ?data"
  proof -
    have f: "healthy ?s1" "\<not> cl_dead (client_of ?s1 m)" "fits ?s1 m ?data" "pair_in ?s1 r c m"
      using h assms(6) by (auto simp: healthy_def fits_def pair_in_def log_crc_frame)
    from fanout_healthy[OF f(4) pair_in_neq[OF g assms(6)] f(1-3)] show ?thesis unfolding loop by blast
  qed
  ultimately show ?thesis using t(1) by blast
qed

theorem relay_verbatim_witness:
  "\<exists>t. handle 0 T_INPUT [0, 5, 0, 1, 2] (demo True) = Ok t \<and> stream t 1 = [6, T_INPUT, 0, 5, 0, 1, 2] \<and> stream t 2 = []"
proof -
  have fit: "fits (demo True) 1 (encode_msg (T_INPUT, [0, 5, 0, 1, 2]))"
    by (simp add: fits_def encode_msg_def MAX_TX_BACKLOG_def)
  obtain t where "handle 0 T_INPUT [0, 5, 0, 1, 2] (demo True) = Ok t"
    "stream t c' = stream (demo True) c' @ (if c' = 1 then encode_msg (T_INPUT, [0, 5, 0, 1, 2]) else [])" for c'
    using relay_verbatim[OF demo_inv[of True], of T_INPUT "[0, 5, 0, 1, 2]" 0 0 1] fit demo_healthy
    by (auto simp: RELAY_TYPES_def pair_in_def)
  then show ?thesis by (auto simp: demo_stream encode_msg_def)
qed


text \<open>
  C8 (a player leaves): dropping a player who is in a room empties the room and returns the
  other player to the lobby; that player, if still connected, is told exactly once: PEER_LEFT
  with the leaver's seat and name when the match was running, ROOM with count 0 when it was
  still forming.  Nobody else's stream changes, and the leaver's names leave the directory.
\<close>

theorem leaving_notifies:
  assumes "server_inv s" "\<not> cl_dead (client_of s c)" "cl_room (client_of s c) = Some r" "pair_in s r c m"
  shows "\<exists>t. drop c why s = Ok t \<and> server_inv t \<and> cl_dead (client_of t c) \<and> (\<forall>n. (n, c) \<notin> set (sv_by_name t)) \<and>
    members t r = [] \<and> cl_room (client_of t m) = None \<and>
    (\<forall>c'. c' \<noteq> m \<longrightarrow> stream t c' = stream s c') \<and>
    (\<not> cl_dead (client_of t m) \<longrightarrow> stream t m = stream s m @ encode_msg
       (if rm_started (room_of s r)
        then (T_PEER_LEFT, word_of_nat (the (py_index c (members s r))) # name_bytes s c)
        else (T_ROOM, 0 # replicate 32 0)))"
proof -
  have g: "good {} s" using assms(1) by (simp add: server_inv_def)
  obtain t where t: "drop c why s = Ok t" "good {} t" using safe_drop[OF g] by (auto simp: safe_def)
  note e = drop_pair_effect[OF g assms(2-4) t(1)]
  have "server_inv t"
    using server_inv_progress[OF assms(1) evolves_progress[OF drop_evolves[OF t(1)], of "{}"] t(2)] by simp
  with t(1) e drop_kills[OF t(1)] drop_forgets[OF g t(1) assms(2)] show ?thesis
    unfolding leave_notice_def by blast
qed

theorem leaving_notifies_witness:
  "\<exists>t. drop 1 Bye (demo True) = Ok t \<and> members t 0 = [] \<and>
     (\<not> cl_dead (client_of t 0) \<longrightarrow> stream t 0 = [10, T_PEER_LEFT, 1, 66, 79, 66, 0, 0, 0, 0, 0])"
  using leaving_notifies[OF demo_inv[of True], of 1 0 0 Bye]
  by (auto simp: pair_in_def demo_stream encode_msg_def name_bytes_def pad8_def byte_of_char_def Room_init_def
      eval_nat_numeral)


lemma handle_simps:
  "handle c T_HELLO payload s = on_hello c payload s" "handle c T_LIST payload s = on_list c s"
  "handle c T_JOIN payload s = on_join c payload s" "handle c T_GO payload s = on_go c s"
  "handle c T_BYE payload s = drop c Bye s"
  "handle c T_PING payload s = attempt (frame T_PONG []) s (\<lambda>data. send c data s)"
  by (simp_all add: handle_def RELAY_TYPES_def T_defs)

lemma server_inv_handled:
  assumes "server_inv s" "handle c ftype payload s = Ok t" "good {} t"
  shows "server_inv t"
  using server_inv_progress[OF assms(1) _ assms(3), of "{}"] handle_progress[of "{}" s c ftype payload] assms(2) by simp

text \<open>
  C10 (joining): a JOIN that names another player who is alone in the lobby makes a new room
  with that player as host (seat 0) and the joiner as guest (seat 1); both, if they are still
  connected, get one ROOM frame with count 2 and the two names in seat order, and no other
  client changes.
\<close>

theorem join_forms_room:
  assumes "server_inv s" "c < sv_next_cid s" "cl_name (client_of s c) \<noteq> None" "cl_room (client_of s c) = None"
    and "map_of (sv_by_name s) (wire_name payload) = Some h" "h \<noteq> c" "cl_room (client_of s h) = None"
    and "sv_auto_go s = 0"
  shows "\<exists>t. handle c T_JOIN payload s = Ok t \<and> server_inv t \<and>
    (\<not> cl_dead (client_of t h) \<and> \<not> cl_dead (client_of t c) \<longrightarrow>
       members t (sv_next_rid s) = [h, c] \<and> \<not> rm_started (room_of t (sv_next_rid s)) \<and>
       cl_room (client_of t h) = Some (sv_next_rid s) \<and> cl_room (client_of t c) = Some (sv_next_rid s) \<and>
       stream t h = stream s h @ encode_msg (T_ROOM, 2 # name_bytes s h @ name_bytes s c @ replicate 16 0) \<and>
       stream t c = stream s c @ encode_msg (T_ROOM, 2 # name_bytes s h @ name_bytes s c @ replicate 16 0) \<and>
       (\<forall>d. d \<noteq> h \<and> d \<noteq> c \<longrightarrow> client_of t d = client_of s d))"
proof -
  let ?r = "sv_next_rid s" and ?j = "joined h c s"
  have g: "good {} s" and dl: "delay_ok s" using assms(1) by (simp_all add: server_inv_def)
  have hn: "cl_name (client_of s h) \<noteq> None" "h < sv_next_cid s"
    using map_of_SomeD[OF assms(5)] g by (auto simp: good_def core_def names_ok_def)
  then have uj: "\<not> unjoinable c (Some h) s" using assms(6,7) by (simp add: unjoinable_def)
  have gj: "good {} ?j" using g assms hn by (intro good_joined) auto
  obtain t where t: "handle c T_JOIN payload s = Ok t" "good {} t"
    using safe_on_join[OF g dl assms(2,3)] by (auto simp: safe_def handle_simps)
  obtain u where u: "room_broadcast ?r ?j = Ok u" using safe_room_broadcast[OF gj] by (auto simp: safe_def)
  have "sv_auto_go u = 0"
    using plumbing.room_broadcast_evolves[of ?j ?r] u assms(8) by (simp add: room_broadcast_def evolves_def)
  then have tu: "t = lobby_update u"
    using t(1) u on_join_joins[OF g assms(3,4,5) uj] by (simp add: handle_simps Let_def)
  have mj: "members ?j ?r = [h, c]" by simp
  have nb: "name_bytes ?j = name_bytes s" by (rule ext) (simp add: name_bytes_def)
  show ?thesis
  proof (intro exI conjI impI)
    show "handle c T_JOIN payload s = Ok t" "server_inv t"
      using t(1) server_inv_handled[OF assms(1) t] by blast+
    assume "\<not> cl_dead (client_of t h) \<and> \<not> cl_dead (client_of t c)"
    then have bd: "both_delivered h (encode_msg (room_notice ?j h c)) c (encode_msg (room_notice ?j h c)) ?j u"
      by (intro room_broadcast_pair[OF gj mj u]) (simp_all add: tu)
    note d = both_delivered_sel[OF bd assms(6)]
    show "members t ?r = [h, c]" "\<not> rm_started (room_of t ?r)" "cl_room (client_of t h) = Some ?r"
      "cl_room (client_of t c) = Some ?r"
      by (simp_all add: tu d(4,6) Room_init_def)
    show "stream t h = stream s h @ encode_msg (T_ROOM, 2 # name_bytes s h @ name_bytes s c @ replicate 16 0)"
      "stream t c = stream s c @ encode_msg (T_ROOM, 2 # name_bytes s h @ name_bytes s c @ replicate 16 0)"
      using d(1,2) by (simp_all add: tu stream_def room_notice_def nb)
    show "\<forall>d. d \<noteq> h \<and> d \<noteq> c \<longrightarrow> client_of t d = client_of s d"
      using d(3) by (simp add: tu)
  qed
qed

lemma ascii_names:
  "wire_name [68, 65, 86, 69] = ''DAVE''" "wire_name [65, 76, 73, 67, 69, 0, 0, 0] = ''ALICE''"
  by (code_simp, code_simp)

theorem join_forms_room_witness:
  "\<exists>t. handle 2 T_JOIN [68, 65, 86, 69] (demo True) = Ok t \<and>
     (\<not> cl_dead (client_of t 3) \<and> \<not> cl_dead (client_of t 2) \<longrightarrow> members t 1 = [3, 2])"
  using join_forms_room[OF demo_inv[of True], of 2 "[68, 65, 86, 69]" 3] ascii_names(1) by auto


text \<open>
  C24 (a refused join): a JOIN by a player who already is in a room changes nothing; a JOIN that
  names nobody, the sender, or a player who already sits in a room is answered like LIST.
\<close>

theorem join_refused:
  assumes "server_inv s" "cl_name (client_of s c) \<noteq> None"
    and "cl_room (client_of s c) \<noteq> None \<or> map_of (sv_by_name s) (wire_name payload) \<in> {None, Some c} \<or>
      (\<exists>h. map_of (sv_by_name s) (wire_name payload) = Some h \<and> cl_room (client_of s h) \<noteq> None)"
  shows "handle c T_JOIN payload s =
    (if cl_room (client_of s c) \<noteq> None then Ok s else handle c T_LIST [] s)"
proof (cases "cl_room (client_of s c)")
  case None
  have g: "good {} s" using assms(1) by (simp add: server_inv_def)
  let ?target = "map_of (sv_by_name s) (wire_name payload)"
  have "unjoinable c ?target s"
  proof (rule ccontr)
    assume n: "\<not> unjoinable c ?target s"
    then obtain h where h: "?target = Some h" "h \<noteq> c" by (auto simp: unjoinable_def split: option.splits)
    with n joinable_roomless[OF g, of c h] assms(3) None show False by auto
  qed
  with assms(2) None show ?thesis by (auto simp: handle_simps on_join_def Let_def)
qed (use assms(2) in \<open>auto simp: handle_simps on_join_def\<close>)

theorem join_refused_witness: "handle 2 T_JOIN [65, 76, 73, 67, 69, 0, 0, 0] (demo False) = handle 2 T_LIST [] (demo False)"
  using join_refused[OF demo_inv[of False], of 2 "[65, 76, 73, 67, 69, 0, 0, 0]"] ascii_names(2) by simp

lemma good_pair_distinct: "good R s \<Longrightarrow> members s r = [a, b] \<Longrightarrow> a \<noteq> b"
  using pair_in_neq[of R s r a b] by (simp add: pair_in_def)

text \<open>
  C11 (starting a match): GO from the host of a room that has not started starts it: the room
  gets a seed in 1..65535, an empty CRC table and no verified rounds, and each of the two
  players, if both are still connected, gets one START frame with its own seat, the count 2,
  the low and high byte of the seed, the input delay and the two names in seat order.
\<close>

theorem go_starts_match:
  assumes "server_inv s" "cl_room (client_of s h) = Some r" "members s r = [h, g]" "\<not> rm_started (room_of s r)"
  shows "\<exists>t. handle h T_GO payload s = Ok t \<and> server_inv t \<and>
    (\<not> cl_dead (client_of t h) \<and> \<not> cl_dead (client_of t g) \<longrightarrow>
       (\<exists>sd. 1 \<le> sd \<and> sd \<le> 65535 \<and> room_of t r = match_room sd (room_of s r) \<and>
          stream t h = stream s h @ encode_msg (start_notice s h g sd 0) \<and>
          stream t g = stream s g @ encode_msg (start_notice s h g sd 1) \<and>
          (\<forall>d. d \<noteq> h \<and> d \<noteq> g \<longrightarrow> client_of t d = client_of s d)))"
proof -
  have gd: "good {} s" and dl: "delay_ok s" using assms(1) by (simp_all add: server_inv_def)
  note neq = good_pair_distinct[OF gd assms(3)]
  have go: "handle h T_GO payload s = start_room r s"
    using assms(2-4) by (simp add: handle_simps on_go_def seat_def MAX_SEATS_def)
  obtain t where t: "handle h T_GO payload s = Ok t" "good {} t"
    using safe_start_room[OF gd dl, of r] by (auto simp: safe_def go)
  have "\<exists>sd. 1 \<le> sd \<and> sd \<le> 65535 \<and> room_of t r = match_room sd (room_of s r) \<and>
      stream t h = stream s h @ encode_msg (start_notice s h g sd 0) \<and>
      stream t g = stream s g @ encode_msg (start_notice s h g sd 1) \<and>
      (\<forall>d. d \<noteq> h \<and> d \<noteq> g \<longrightarrow> client_of t d = client_of s d)"
    if alive: "\<not> cl_dead (client_of t h)" "\<not> cl_dead (client_of t g)"
  proof -
    obtain sd u where u: "1 \<le> sd" "sd < 0x10000"
      "both_delivered h (encode_msg (start_notice s h g sd 0)) g (encode_msg (start_notice s h g sd 1)) (match_begun r sd s) u"
      "t = lobby_update (add_log (Log_match_started r 2 sd) u)"
      using start_room_pair[OF gd dl assms(3) _ alive] t(1) by (auto simp: go)
    note d = both_delivered_sel[OF u(3) neq]
    have "room_of t r = match_room sd (room_of s r)" by (simp add: u(4) d(6))
    moreover have "stream t h = stream s h @ encode_msg (start_notice s h g sd 0)"
      "stream t g = stream s g @ encode_msg (start_notice s h g sd 1)"
      using d(1,2) by (simp_all add: u(4) stream_def)
    moreover have "\<forall>x. x \<noteq> h \<and> x \<noteq> g \<longrightarrow> client_of t x = client_of s x" using d(3) by (simp add: u(4))
    moreover have "sd \<le> 65535" using u(2) by simp
    ultimately show ?thesis using u(1) by blast
  qed
  then show ?thesis using t server_inv_handled[OF assms(1) t] by blast
qed

theorem go_starts_match_witness:
  "\<exists>t. handle 0 T_GO [] (demo False) = Ok t \<and>
     (\<not> cl_dead (client_of t 0) \<and> \<not> cl_dead (client_of t 1) \<longrightarrow> rm_started (room_of t 0))"
  using go_starts_match[OF demo_inv[of False], of 0 0 1 "[]"] by (auto simp: Room_init_def match_room_def)

text \<open>
  Remark (only the host starts): GO from a player without a room, from a guest, or in a room whose
  match is running changes nothing.
\<close>

theorem go_ignored:
  assumes "server_inv s"
    and "case cl_room (client_of s c) of None \<Rightarrow> True
         | Some r \<Rightarrow> rm_started (room_of s r) \<or> (\<forall>g. members s r \<noteq> [c, g])"
  shows "handle c T_GO payload s = Ok s"
proof (cases "cl_room (client_of s c)")
  case (Some r)
  have g: "good {} s" using assms(1) by (simp add: server_inv_def)
  then have mem: "c \<in> set (members s r)" using Some by (auto simp: good_def core_def rooms_ok_def)
  then have "length (members s r) = 2" using g by (fastforce simp: good_def settled_def)
  then obtain a b where ab: "members s r = [a, b]" by (auto simp: numeral_2_eq_2 length_Suc_conv)
  show ?thesis
  proof (cases "rm_started (room_of s r)")
    case False
    then have "a \<noteq> c" "b = c" using assms(2) Some ab mem by auto
    then show ?thesis using Some ab by (simp add: handle_simps on_go_def seat_def)
  qed (use Some in \<open>simp add: handle_simps on_go_def\<close>)
qed (simp add: handle_simps on_go_def)

theorem go_ignored_witness: "handle 1 T_GO [] (demo False) = Ok (demo False)"
  using go_ignored[OF demo_inv[of False], of 1 "[]"] by simp

text \<open>
  Remark (an unusable delay): if the server was started with a delay that is no byte, starting a
  match raises ValueError after the room has been marked as started and before any START frame
  is sent.
\<close>

theorem start_with_bad_delay:
  assumes "\<not> (0 \<le> sv_delay s \<and> sv_delay s < 256)"
  shows "\<exists>t. start_room r s = Raise ValueError t \<and> rm_started (room_of t r) \<and> (\<forall>c. stream t c = stream s c)"
proof -
  obtain sd s2 where rr: "randrange (upd_room r (\<lambda>x. x\<lparr>rm_started := True\<rparr>) s) = (sd, s2)" by fastforce
  have "to_bytes [int (length (members (match_begun r sd s) r)), int (sd AND 0xFF), int (drop_bit 8 sd),
      sv_delay (match_begun r sd s)] = Inl ValueError"
    using assms by (intro to_bytes_bad) auto
  then have "start_room r s = Raise ValueError (match_begun r sd s)"
    unfolding start_room_def Let_def rr prod.case start_room_draws[OF rr] by simp
  then show ?thesis by (auto simp: match_room_def stream_def)
qed

theorem start_with_bad_delay_witness:
  "\<exists>t. start_room 0 ((demo False)\<lparr>sv_delay := 300\<rparr>) = Raise ValueError t \<and> rm_started (room_of t 0)"
  using start_with_bad_delay[of "(demo False)\<lparr>sv_delay := 300\<rparr>" 0] by auto


lemma on_list_delivers:
  assumes "good {} s" "on_list c s = Ok t" "\<not> cl_dead (client_of t c)"
  shows "delivered c (encode_msg (T_LOBBY, lobby_payload_of c s)) s t"
proof -
  obtain data where data: "frame T_LOBBY (lobby_payload_of c s) = Inr data" "on_list c s = send c data s"
    using on_list_sends[OF assms(1)] by blast
  have "length (lobby_payload_of c s) < 255"
    using lobby_others_le[of c s] by (simp add: length_lobby_payload)
  then have "data = encode_msg (T_LOBBY, lobby_payload_of c s)"
    using data(1) by (simp add: encode_msg_frame)
  with data(2) assms(2,3) show ?thesis by (simp add: send_delivers)
qed

lemma lobby_payload_form:
  assumes g: "good {} s"
  shows "lobby_others c s = take 8 (filter (\<lambda>d. d \<noteq> c) (map snd (sv_by_name s)))"
    and "lobby_line s d = name_bytes s d @ [if cl_room (client_of s d) = None then 1 else 0x82]"
proof -
  have named: "cl_name (client_of s d) \<notin> {None, Some []}" if "d \<in> snd ` set (sv_by_name s)" for d
  proof -
    from that obtain n where "(n, d) \<in> set (sv_by_name s)" by auto
    then have "cl_name (client_of s d) = Some n" "valid_name n"
      using g by (auto simp: good_def core_def names_ok_def)
    then show ?thesis by (auto simp: valid_name_def)
  qed
  then show "lobby_others c s = take 8 (filter (\<lambda>d. d \<noteq> c) (map snd (sv_by_name s)))"
    unfolding lobby_others_def by (intro arg_cong[where f = "take 8"] filter_cong) auto
  show "lobby_line s d = name_bytes s d @ [if cl_room (client_of s d) = None then 1 else 0x82]"
  proof (cases "cl_room (client_of s d)")
    case (Some r)
    then have "d \<in> set (members s r)" using g by (auto simp: good_def core_def rooms_ok_def)
    then have "length (members s r) = 2" using g by (fastforce simp: good_def settled_def)
    with Some show ?thesis by (simp add: lobby_line_def name_bytes_def status_def MAX_SEATS_def)
  qed (simp add: lobby_line_def name_bytes_def status_def)
qed

text \<open>What a reader of the list finds: the players are registered, and entry \<open>i\<close> is at byte \<open>1 + 9 i\<close>.\<close>

lemma lobby_other_named:
  assumes "good {} s" "d \<in> set (lobby_others c s)"
  obtains n where "cl_name (client_of s d) = Some n" "valid_name n" "map_of (sv_by_name s) n = Some d"
proof -
  have "d \<in> snd ` set (sv_by_name s)"
    using assms(2) set_take_subset unfolding lobby_others_def by fastforce
  then obtain n where n: "(n, d) \<in> set (sv_by_name s)" by auto
  have names: "names_ok s" using assms(1) by (simp add: good_def core_def)
  then have "map_of (sv_by_name s) n = Some d" using n by (simp add: names_ok_def)
  with n names that show ?thesis unfolding names_ok_def by blast
qed

lemma drop_concat_nine:
  assumes "\<And>x. length (f x) = 9" "i < length xs"
  shows "take 9 (List.drop (9 * i) (concat (map f xs))) = f (xs ! i)"
  using assms(2)
proof (induction xs arbitrary: i)
  case (Cons x xs)
  show ?case
  proof (cases i)
    case (Suc j)
    then have "List.drop (9 * i) (f x @ concat (map f xs)) = List.drop (9 * j) (concat (map f xs))"
      by (simp add: assms(1))
    with Cons Suc show ?thesis by simp
  qed (simp add: assms(1))
qed simp

lemma lobby_entry_at:
  assumes "good {} s" "i < length (lobby_others c s)"
  shows "take 9 (List.drop (1 + 9 * i) (lobby_payload_of c s)) =
    name_bytes s (lobby_others c s ! i) @ [if cl_room (client_of s (lobby_others c s ! i)) = None then 1 else 0x82]"
proof -
  have "take 9 (List.drop (9 * i) (concat (map (lobby_line s) (lobby_others c s)))) = lobby_line s (lobby_others c s ! i)"
    by (rule drop_concat_nine) (simp_all add: lobby_line_def assms(2))
  then show ?thesis unfolding lobby_payload_form(2)[OF assms(1), symmetric] by (simp add: lobby_payload_of_def)
qed

text \<open>
  C14 (the lobby list): LIST is answered with one LOBBY frame to the sender: the number of
  entries, at most 8, then name and status of the first players of the directory other than the
  sender, in the order in which they took their names.  The status is 1 for a player alone and
  0x82, the unjoinable room of two, for a player in a room.
\<close>

theorem list_answers:
  assumes "server_inv s"
  shows "\<exists>t. handle c T_LIST payload s = Ok t \<and> server_inv t \<and>
    (\<not> cl_dead (client_of t c) \<longrightarrow>
       (let others = take 8 (filter (\<lambda>d. d \<noteq> c) (map snd (sv_by_name s)));
            entry = (\<lambda>d. name_bytes s d @ [if cl_room (client_of s d) = None then 1 else 0x82])
        in \<forall>d. stream t d = stream s d @
             (if d = c then encode_msg (T_LOBBY, word_of_nat (length others) # concat (map entry others)) else [])))"
proof -
  let ?others = "take 8 (filter (\<lambda>d. d \<noteq> c) (map snd (sv_by_name s)))"
  let ?entry = "\<lambda>d. name_bytes s d @ [if cl_room (client_of s d) = None then 1 else 0x82]"
  have g: "good {} s" using assms by (simp add: server_inv_def)
  obtain t where t: "handle c T_LIST payload s = Ok t" "good {} t"
    using safe_on_list[OF g] by (auto simp: safe_def handle_simps)
  have "lobby_line s = ?entry" by (rule ext) (rule lobby_payload_form(2)[OF g])
  then have pl: "lobby_payload_of c s = word_of_nat (length ?others) # concat (map ?entry ?others)"
    by (simp add: lobby_payload_of_def lobby_payload_form(1)[OF g])
  have "\<forall>d. stream t d = stream s d @
      (if d = c then encode_msg (T_LOBBY, word_of_nat (length ?others) # concat (map ?entry ?others)) else [])"
    if "\<not> cl_dead (client_of t c)"
    using delivered_stream[OF on_list_delivers[OF g _ that]] t(1) unfolding pl handle_simps by blast
  then show ?thesis using t server_inv_handled[OF assms t] unfolding Let_def by blast
qed

theorem list_answers_witness:
  "\<exists>t. handle 2 T_LIST [] (demo True) = Ok t \<and> (\<not> cl_dead (client_of t 2) \<longrightarrow>
     stream t 2 = [29, T_LOBBY, 3, 65, 76, 73, 67, 69, 0, 0, 0, 0x82, 66, 79, 66, 0, 0, 0, 0, 0, 0x82,
                   68, 65, 86, 69, 0, 0, 0, 0, 1])"
  using list_answers[OF demo_inv[of True], of 2 "[]"]
  by (auto simp: Let_def demo_stream encode_msg_def name_bytes_def pad8_def byte_of_char_def eval_nat_numeral)

text \<open>
  Remark (a rejected hello): a HELLO that is too short, of another protocol version, or without a
  name of 2 to 8 characters A-Z, 0-9 raises the ProtocolError that says so and leaves the state
  alone; \<open>service\<close> turns it into a drop of the sender.
\<close>

theorem hello_rejected:
  "\<not> hello_accepts payload \<Longrightarrow> handle c T_HELLO payload s = Raise (ProtocolError
     (if length payload < 3 then Short_hello
      else if payload ! 0 \<noteq> PROTO_VER then Bad_version (payload ! 0)
      else Bad_name (wire_name (List.drop 1 payload)))) s"
  by (auto simp: handle_simps hello_accepts_def on_hello_def Let_def)

theorem hello_rejected_witness: "handle 0 T_HELLO [1, 65, 66] (demo True) = Raise (ProtocolError (Bad_version 1)) (demo True)"
  using hello_rejected[of "[1, 65, 66]" 0 "demo True"] by (simp add: hello_accepts_def PROTO_VER_def)


text \<open>
  C12 (an accepted hello): the sender takes the name it asked for; another holder of that name
  is dropped; and if the sender is still connected afterwards, the directory maps the name to
  it and no other name to it.
\<close>

theorem hello_registers:
  assumes "server_inv s" "c < sv_next_cid s" "hello_accepts payload"
  shows "\<exists>t. handle c T_HELLO payload s = Ok t \<and> server_inv t \<and>
    cl_name (client_of t c) = Some (wire_name (List.drop 1 payload)) \<and>
    (\<forall>h. map_of (sv_by_name s) (wire_name (List.drop 1 payload)) = Some h \<and> h \<noteq> c \<longrightarrow> cl_dead (client_of t h)) \<and>
    (\<not> cl_dead (client_of t c) \<longrightarrow>
       (\<forall>n. map_of (sv_by_name t) n = Some c \<longleftrightarrow> n = wire_name (List.drop 1 payload)))"
proof -
  let ?n = "wire_name (List.drop 1 payload)"
  have g: "good {} s" using assms(1) by (simp add: server_inv_def)
  obtain t where t: "handle c T_HELLO payload s = Ok t" "good {} t"
    using safe_on_hello[OF g assms(2,3)] by (auto simp: safe_def handle_simps)
  then obtain s1 where s1: "evict_holder c ?n s = Ok s1"
      "on_list c (lobby_update (add_log (Log_hello c) (take_name c ?n s1))) = Ok t"
    by (auto simp: handle_simps on_hello_accepted[OF assms(3) refl] andthen_Ok_iff)
  let ?s2 = "lobby_update (add_log (Log_hello c) (take_name c ?n s1))"
  have "good {} ?s2"
  proof (rule good_take_name)
    show "good {} s1" using safe_evict_holder[OF g, of c ?n] s1(1) by (simp add: safe_def)
    show "valid_name ?n" using assms(3) by (simp add: hello_accepts_def)
    show "c < sv_next_cid s1" using evict_holder_evolves[OF s1(1)] assms(2) by (simp add: evolves_def)
  qed (rule evict_holder_frees[OF g s1(1)])
  then have ev: "evolves ?s2 t"
    using on_list_sends[of "{}" ?s2 c] s1(2) sent_evolves[OF is_frame_frame] by metis
  have nm: "cl_name (client_of t c) = Some ?n" by (simp add: evolves_name[OF ev])
  have old: "cl_dead (client_of t h)" if "map_of (sv_by_name s) ?n = Some h" "h \<noteq> c" for h
  proof -
    have "cl_dead (client_of s1 h)" using s1(1) that drop_kills by (simp add: evict_holder_def)
    then show ?thesis using that(2) by (intro evolves_dead[OF ev]) simp
  qed
  have "map_of (sv_by_name t) n = Some c \<longleftrightarrow> n = ?n" if "\<not> cl_dead (client_of t c)" for n
  proof -
    have no: "names_ok t" and al: "alive_named t" using t(2) by (simp_all add: good_def core_def)
    have "map_of (sv_by_name t) ?n = Some c"
      using al that nm names_ok_map[OF no] by (simp add: alive_named_def)
    moreover have "map_of (sv_by_name t) n = Some c \<Longrightarrow> cl_name (client_of t c) = Some n"
      using no names_ok_map[OF no] by (auto simp: names_ok_def)
    ultimately show ?thesis using nm by auto
  qed
  with t(1) nm old server_inv_handled[OF assms(1) t] show ?thesis by blast
qed

theorem hello_registers_witness:
  "\<exists>t. handle 2 T_HELLO [2, 68, 65, 86, 69] (demo True) = Ok t \<and>
     cl_name (client_of t 2) = Some ''DAVE'' \<and> cl_dead (client_of t 3)"
proof -
  have "hello_accepts [2, 68, 65, 86, 69]"
    by (simp add: hello_accepts_def PROTO_VER_def ascii_names(1) valid_name_def NAME_CHARS_def)
  from hello_registers[OF demo_inv[of True] _ this, of 2] show ?thesis
    by (auto simp: ascii_names(1))
qed

text \<open>
  Remark (renaming moves to the end): a client that says hello again with a new, unused name loses
  its old entry of the directory, and its new one comes last in the order LOBBY lists.
\<close>

theorem rename_goes_last:
  assumes "names_ok s" "cl_name (client_of s c) = Some old" "map_of (sv_by_name s) old = Some c" "old \<noteq> n"
    and "n \<notin> set (map fst (sv_by_name s))"
  shows "map fst (sv_by_name (take_name c n s)) = filter (\<lambda>k. k \<noteq> old) (map fst (sv_by_name s)) @ [n]"
  using assms pydict.keys_del[of old "sv_by_name s"]
  by (simp add: take_name_def Let_def pydict.keys_put del: map_fst_delete)

theorem rename_goes_last_witness:
  "map fst (sv_by_name (take_name 0 ''EVE'' (demo True))) = [''BOB'', ''CAROL'', ''DAVE'', ''EVE'']"
  using rename_goes_last[of "demo True" 0 "''ALICE''" "''EVE''"] demo_good[of True]
  by (simp add: good_def core_def)

definition zombie_demo :: server where
  "zombie_demo = (demo True)\<lparr>sv_sends := [Send_fails]\<rparr>"

lemma send_fails_kills:
  assumes "sv_sends s = Send_fails # rest" "data \<noteq> []" "\<not> cl_dead (client_of s c)"
    and "send_with (drop_client (Suc d)) c data s = Ok t"
  shows "cl_dead (client_of t c)"
proof -
  let ?q = "upd_client c (\<lambda>x. x\<lparr>cl_tx := cl_tx x @ data\<rparr>) s"
  obtain y ys where tx: "cl_tx (client_of s c) @ data = y # ys" using assms(2) by (cases "cl_tx (client_of s c) @ data") auto
  have "\<exists>why u. drop_client (Suc d) c why u = Ok t"
  proof (cases "length (cl_tx (client_of s c)) + length data > MAX_TX_BACKLOG")
    case True
    then show ?thesis using assms(3,4) unfolding send_with_def by (simp only: if_True if_False) blast
  next
    case False
    then have "flush_with (drop_client (Suc d)) c ?q = Ok t"
      using assms(3,4) unfolding send_with_def by (simp only: if_False)
    then show ?thesis using assms(1) tx by (auto simp: flush_with_def Let_def)
  qed
  then show ?thesis using drop_client_kills by blast
qed

text \<open>
  Remark (a dead client in the directory): when the old holder of a name shares a room with the
  client that says hello, dropping the holder writes to that client; if the write fails, the
  client is dropped in the middle of its own HELLO and is then entered into the directory
  although it is dead, where others can find and JOIN it.
\<close>

theorem hello_registers_dead_client:
  "server_inv zombie_demo \<and>
   (\<exists>t. handle 1 T_HELLO [2, 65, 76, 73, 67, 69, 0, 0, 0] zombie_demo = Ok t \<and>
     cl_dead (client_of t 1) \<and> map_of (sv_by_name t) ''ALICE'' = Some 1)"
proof -
  have inv: "server_inv zombie_demo"
    using demo_inv[of True]
    by (simp add: zombie_demo_def server_inv_def delay_ok_def limits_ok_def per_ip_def rx_short_def stream_def)
  let ?s = zombie_demo and ?n = "''ALICE''"
  have g: "good {} ?s" using demo_good by (simp add: zombie_demo_def)
  have nm: "wire_name (List.drop 1 [2, 65, 76, 73, 67, 69, 0, 0, 0]) = ?n" using ascii_names(2) by simp
  have acc: "hello_accepts [2, 65, 76, 73, 67, 69, 0, 0, 0]"
    using nm by (simp add: hello_accepts_def PROTO_VER_def valid_name_def NAME_CHARS_def)
  obtain s1 where s1: "drop 0 Replaced ?s = Ok s1" "good {} s1" using safe_drop[OF g] by (auto simp: safe_def)
  have ev: "evict_holder 1 ?n ?s = Ok s1" using s1(1) by (simp add: evict_holder_def zombie_demo_def)
  have z: "\<not> cl_dead (client_of ?s 0)" "cl_room (client_of ?s 0) = Some 0" "pair_in ?s 0 0 1"
    "\<not> cl_dead (client_of ?s 1)" "sv_sends ?s = [Send_fails]"
    by (simp_all add: zombie_demo_def pair_in_def Room_init_def)
  have dead: "cl_dead (client_of s1 1)"
  proof -
    obtain u v where u: "left_behind 0 0 1 ?s u"
        "send_with (drop_client 7) 1 (encode_msg (leave_notice ?s 0 0)) u = Ok v" "sv_client s1 = sv_client v"
      using drop_pair[OF g z(1-3) s1(1)] by blast
    have "cl_dead (client_of v 1)"
      by (rule send_fails_kills[of u "[]" _ _ 6])
         (use u(1,2) z(4,5) in \<open>simp_all add: left_behind_def encode_msg_def eval_nat_numeral\<close>)
    with u(3) show ?thesis by simp
  qed
  let ?s2 = "lobby_update (add_log (Log_hello 1) (take_name 1 ?n s1))"
  have d2: "cl_dead (client_of ?s2 1)" using dead by simp
  have "good {} ?s2"
  proof (rule good_take_name[OF s1(2)])
    show "1 < sv_next_cid s1" using drop_evolves[OF s1(1)] by (simp add: evolves_def zombie_demo_def)
  qed (use acc nm evict_holder_frees[OF g ev] in \<open>auto simp: hello_accepts_def\<close>)
  then obtain data where "on_list 1 ?s2 = send 1 data ?s2" using on_list_sends by blast
  then have "on_list 1 ?s2 = Ok ?s2" using d2 by (simp add: send_def send_with_def)
  then have "handle 1 T_HELLO [2, 65, 76, 73, 67, 69, 0, 0, 0] ?s = Ok ?s2"
    unfolding handle_simps on_hello_accepted[OF acc nm [symmetric]] ev by simp
  moreover have "map_of (sv_by_name ?s2) ?n = Some 1"
    using take_name_by_name(2)[of s1 1 ?n ?n] s1(2) by (simp add: good_def core_def)
  ultimately show ?thesis using inv d2 by blast
qed

section \<open>The event loop\<close>

definition overdue :: "time \<Rightarrow> client \<Rightarrow> bool" where
  "overdue now x \<longleftrightarrow> cl_name x = None \<and> now - cl_connected_at x > HELLO_TIMEOUT"

lemma drop_unnamed:
  assumes "good {} s" "\<not> cl_dead (client_of s c)" "cl_name (client_of s c) = None"
  shows "drop c why s = Ok (unlink c why s)"
proof -
  have "cl_room (client_of s c) = None"
  proof (rule ccontr)
    assume "cl_room (client_of s c) \<noteq> None"
    then obtain r where "cl_room (client_of s c) = Some r" by auto
    then have "c \<in> set (members s r)" using assms(1) by (simp add: good_def core_def rooms_ok_def)
    from good_member_name[OF assms(1) this] assms(3) show False by auto
  qed
  with assms(2) drop_roomless[of s c 7 why] show ?thesis by (simp add: drop_def DEPTH_def numeral_eq_Suc)
qed

lemma sweep_effect:
  "good {} s \<Longrightarrow> distinct order \<Longrightarrow> set order \<subseteq> set (sv_clients s) \<Longrightarrow>
   \<exists>t. sweep order now s = Ok t \<and>
     (\<forall>c. client_of t c = (if c \<in> set order \<and> overdue now (client_of s c)
        then (client_of s c)\<lparr>cl_dead := True, cl_closed := True\<rparr> else client_of s c)) \<and>
     st_hello_timeouts (sv_stats t) =
       st_hello_timeouts (sv_stats s) + length (filter (\<lambda>c. overdue now (client_of s c)) order)"
proof (induction order arbitrary: s)
  case (Cons c order)
  show ?case
  proof (cases "overdue now (client_of s c)")
    case False
    then show ?thesis using Cons.IH[of s] Cons.prems by (auto simp: overdue_def)
  next
    case True
    let ?s1 = "s\<lparr>sv_stats := (sv_stats s)\<lparr>st_hello_timeouts := st_hello_timeouts (sv_stats s) + 1\<rparr>\<rparr>"
    let ?s2 = "unlink c No_hello ?s1"
    have g1: "good {} ?s1" using Cons.prems(1) by simp
    have al: "\<not> cl_dead (client_of ?s1 c)" using Cons.prems(1,3) by (auto simp: good_def core_def conns_ok_def)
    have d: "drop c No_hello ?s1 = Ok ?s2"
      using True by (intro drop_unnamed[OF g1 al]) (simp add: overdue_def)
    have g2: "good {} ?s2" using safe_drop[OF g1, of c No_hello] d by (simp add: safe_def)
    have sub: "set order \<subseteq> set (sv_clients ?s2)" using Cons.prems(2,3) by auto
    have same: "client_of ?s2 x = client_of s x" if "x \<in> set order" for x using that Cons.prems(2) by auto
    have f: "filter (\<lambda>c. overdue now (client_of ?s2 c)) order = filter (\<lambda>c. overdue now (client_of s c)) order"
      using same by (intro filter_cong) auto
    obtain t where t: "sweep order now ?s2 = Ok t"
      "\<forall>x. client_of t x = (if x \<in> set order \<and> overdue now (client_of ?s2 x)
        then (client_of ?s2 x)\<lparr>cl_dead := True, cl_closed := True\<rparr> else client_of ?s2 x)"
      "st_hello_timeouts (sv_stats t) = st_hello_timeouts (sv_stats s) + 1 +
         length (filter (\<lambda>c. overdue now (client_of s c)) order)"
      using Cons.IH[OF g2 _ sub] Cons.prems(2) unfolding f by auto
    have "sweep (c # order) now s = Ok t"
      using True d t(1) by (simp add: overdue_def)
    moreover have "client_of t x = (if x \<in> set (c # order) \<and> overdue now (client_of s x)
        then (client_of s x)\<lparr>cl_dead := True, cl_closed := True\<rparr> else client_of s x)" for x
      using t(2)[rule_format, of x] same[of x] True Cons.prems(2) by (cases "x = c") auto
    ultimately show ?thesis using t(3) True by auto
  qed
qed simp

text \<open>
  C21 (the hello deadline): the sweep drops exactly the connected clients that have not said
  hello for more than 60 seconds, counts them, and leaves every other client as it was.
\<close>

theorem sweep_exact:
  assumes "server_inv s" "distinct order" "set order = set (sv_clients s)"
  shows "\<exists>t. sweep order now s = Ok t \<and> server_inv t \<and>
     (\<forall>c. client_of t c = (if c \<in> set (sv_clients s) \<and> overdue now (client_of s c)
        then (client_of s c)\<lparr>cl_dead := True, cl_closed := True\<rparr> else client_of s c)) \<and>
     st_hello_timeouts (sv_stats t) =
       st_hello_timeouts (sv_stats s) + card {c \<in> set (sv_clients s). overdue now (client_of s c)}"
proof -
  have g: "good {} s" using assms(1) by (simp add: server_inv_def)
  obtain t where t: "sweep order now s = Ok t"
    "\<forall>c. client_of t c = (if c \<in> set order \<and> overdue now (client_of s c)
        then (client_of s c)\<lparr>cl_dead := True, cl_closed := True\<rparr> else client_of s c)"
    "st_hello_timeouts (sv_stats t) =
       st_hello_timeouts (sv_stats s) + length (filter (\<lambda>c. overdue now (client_of s c)) order)"
    using sweep_effect[OF g assms(2)] assms(3) by blast
  have "length (filter (\<lambda>c. overdue now (client_of s c)) order) =
      card {c \<in> set (sv_clients s). overdue now (client_of s c)}"
    using distinct_card[OF distinct_filter[OF assms(2)], of "\<lambda>c. overdue now (client_of s c)"] assms(3) by simp
  moreover have "server_inv t"
    using run_event_inv[OF assms(1), of "Ev_sweep order now"] assms(2,3) t(1) by simp
  ultimately show ?thesis using t assms(3) by auto
qed

theorem sweep_exact_witness:
  "\<exists>t. sweep [0] 61 demo_one = Ok t \<and> cl_dead (client_of t 0) \<and> st_hello_timeouts (sv_stats t) = 1"
proof -
  have c: "sv_clients demo_one = [0]" "st_hello_timeouts (sv_stats demo_one) = 0"
    by (simp_all add: demo_one_def Server_init_def admitted_def no_stats_def)
  have o: "overdue 61 (client_of demo_one 0)" by (simp add: overdue_def Client_init_def HELLO_TIMEOUT_def)
  then have s: "{c \<in> set (sv_clients demo_one). overdue 61 (client_of demo_one c)} = {0}" using c(1) by auto
  have "distinct [0 :: cid]" "set [0] = set (sv_clients demo_one)" by (simp_all add: c(1))
  from sweep_exact[OF demo_one_inv this, of 61] obtain t where
    "sweep [0] 61 demo_one = Ok t" "client_of t 0 = (client_of demo_one 0)\<lparr>cl_dead := True, cl_closed := True\<rparr>"
    "st_hello_timeouts (sv_stats t) = st_hello_timeouts (sv_stats demo_one) + card {0 :: cid}"
    unfolding s using o by (metis c(1) list.set_intros(1))
  then show ?thesis using c(2) by (intro exI[of _ t]) simp
qed



text \<open>
  C19 (only accept can end the loop): an event raises out of the loop if and only if it is an
  accept whose socket calls fail (the listening socket's, or those on a connection that was
  within the limits); every other event is handled and keeps the invariant.
\<close>

theorem only_accept_escapes:
  assumes "server_inv s" "enabled e s"
  shows "(\<exists>t. run_event e s = Ok t \<and> server_inv t) \<longleftrightarrow> \<not> accept_failure e s"
proof
  assume "\<exists>t. run_event e s = Ok t \<and> server_inv t"
  then show "\<not> accept_failure e s"
    by (cases "(e, s)" rule: accept_failure.cases) (auto simp: accept_def)
qed (rule run_event_inv[OF assms])

theorem only_accept_escapes_witness:
  "\<exists>t. run_event (Ev_accept (Accepted (''10.0.0.1'', 5000) True) 0) demo_one = Ok t \<and> server_inv t"
  using only_accept_escapes[OF demo_one_inv, of "Ev_accept (Accepted (''10.0.0.1'', 5000) True) 0"] by simp

text \<open>
  C15 (bounded nesting of drops): although a drop notifies the room, a notification can fail and
  drop another client, and so on, the nesting is at most two deep: with any larger bound the
  result is the same, and it is never the RecursionError of the bound.
\<close>

theorem drop_nesting_bounded:
  assumes "server_inv s"
  shows "drop_client (Suc (Suc d)) c why s = drop c why s \<and> (\<exists>t. drop c why s = Ok t)"
proof -
  have g: "good {} s" and co: "core s" using assms by (simp_all add: server_inv_def good_def)
  have "drop_client (Suc (Suc 6)) c why s = drop_client 2 c why s" by (rule drop_client_depth[OF co])
  moreover have "DEPTH = Suc (Suc 6)" by (simp add: DEPTH_def)
  ultimately show ?thesis
    using drop_client_depth[OF co, of d c why] safe_drop[OF g, of c why] by (auto simp: drop_def safe_def)
qed

theorem drop_nesting_bounded_witness:
  "drop_client (Suc (Suc 0)) 0 Bye demo_one = drop 0 Bye demo_one \<and> (\<exists>t. drop 0 Bye demo_one = Ok t)"
  by (rule drop_nesting_bounded[OF demo_one_inv])

end
