(* ===== verification/Rom_Tools.thy ===== *)
theory Rom_Tools
  imports Prelude
begin

text \<open>
  The ROM tools: the scanner tools/recon.py (class Rom and the tables of \<open>report\<close>), the
  dump generator tools/dump_rom.py, the patch checker tools/check_patch.py and the patch map
  tools/patches.py.  Files are lists of bytes, a dump is the list of its DECLE lines, and text
  formatting is left out.
\<close>

section \<open>Words\<close>

text \<open>\<open>d[i] << 8 | d[i + 1]\<close> for every whole pair (recon.words, dump_rom.main).\<close>

definition be16 :: "byte \<Rightarrow> byte \<Rightarrow> nat" where
  "be16 hi lo = push_bit 8 (unat hi) OR unat lo"

definition words :: "byte list \<Rightarrow> nat list" where
  "words d = map (\<lambda>k. be16 (d ! (2 * k)) (d ! (2 * k + 1))) [0..<length d div 2]"

text \<open>check_patch.words: a given count of words; a file that is too short raises IndexError.\<close>

definition words_count :: "byte list \<Rightarrow> nat option \<Rightarrow> exn + nat list" where
  "words_count d count =
     (let n = (case count of None \<Rightarrow> length d div 2 | Some n \<Rightarrow> n) in
      if 2 * n \<le> length d then Inr (map (\<lambda>i. be16 (d ! (i * 2)) (d ! (i * 2 + 1))) [0..<n])
      else Inl IndexError)"

section \<open>recon.Rom\<close>

record rom =
  rom_base :: int
  rom_w :: "nat list"

definition Rom_init :: "byte list \<Rightarrow> int \<Rightarrow> rom" where
  "Rom_init d base = \<lparr>rom_base = base, rom_w = words d\<rparr>"

definition rom_end :: "rom \<Rightarrow> int" where
  "rom_end rom = rom_base rom + int (length (rom_w rom))"

definition has :: "rom \<Rightarrow> int \<Rightarrow> bool" where
  "has rom addr \<longleftrightarrow> rom_base rom \<le> addr \<and> addr < rom_end rom"

text \<open>Python's list indexing: negative indices count from the end.\<close>

definition py_nth :: "'a list \<Rightarrow> int \<Rightarrow> exn + 'a" where
  "py_nth xs i =
     (if 0 \<le> i \<and> i < int (length xs) then Inr (xs ! nat i)
      else if - int (length xs) \<le> i \<and> i < 0 then Inr (xs ! nat (int (length xs) + i))
      else Inl IndexError)"

definition rom_at :: "rom \<Rightarrow> int \<Rightarrow> exn + nat" where
  "rom_at rom addr = py_nth (rom_w rom) (addr - rom_base rom)"

definition ptr :: "rom \<Rightarrow> int \<Rightarrow> exn + nat" where
  "ptr rom addr =
     (case rom_at rom addr of Inl e \<Rightarrow> Inl e
      | Inr lo \<Rightarrow> (case rom_at rom (addr + 1) of Inl e \<Rightarrow> Inl e
        | Inr hi \<Rightarrow> Inr (lo OR push_bit 8 hi)))"

text \<open>(site, register, target) of every well-formed JSR or J.\<close>

definition jsr_at :: "rom \<Rightarrow> nat \<Rightarrow> (int \<times> nat \<times> nat) list" where
  "jsr_at rom i =
     (if rom_w rom ! i \<noteq> 0x0004 then []
      else let w1 = rom_w rom ! (i + 1); w2 = rom_w rom ! (i + 2) in
        if w1 AND 0xFC00 \<noteq> 0 \<or> w2 AND 0xFC00 \<noteq> 0 then []
        else let reg = 4 + (drop_bit 8 w1 AND 3);
                 tgt = push_bit 10 (drop_bit 2 (w1 AND 0xFF)) OR (w2 AND 0x3FF)
          in [(rom_base rom + int i, reg, tgt)])"

definition jsrs :: "rom \<Rightarrow> (int \<times> nat \<times> nat) list" where
  "jsrs rom = concat (map (jsr_at rom) [0..<length (rom_w rom) - 2])"

definition OPS :: "nat \<Rightarrow> string option" where
  "OPS = map_of [(1, ''MVO''), (2, ''MVI''), (3, ''ADD''), (4, ''SUB''), (5, ''CMP''), (6, ''AND''), (7, ''XOR'')]"

type_synonym ref = "int \<times> string \<times> nat \<times> nat"

definition ref_at :: "rom \<Rightarrow> nat \<Rightarrow> exn + ref list" where
  "ref_at rom i =
     (let v = rom_w rom ! i in
      if \<not> (0x0240 \<le> v \<and> v \<le> 0x03FF) then Inr []
      else case OPS (drop_bit 6 v AND 7) of
        None \<Rightarrow> Inl KeyError
      | Some op \<Rightarrow>
          let mode = drop_bit 3 v AND 7; reg = v AND 7; site = rom_base rom + int i + 1 in
          if mode = 0 then Inr [(site, op, reg, rom_w rom ! (i + 1))]
          else if mode = 7 then Inr [(site, op @ ''I'', reg, rom_w rom ! (i + 1))]
          else Inr [])"

definition refs :: "rom \<Rightarrow> exn + ref list" where
  "refs rom =
     (case sum_map (ref_at rom) [0..<length (rom_w rom) - 1] of Inl e \<Rightarrow> Inl e | Inr rs \<Rightarrow> Inr (concat rs))"

section \<open>recon.report\<close>

definition RNG_CALLS :: "nat list" where "RNG_CALLS = [0x167D, 0x169E]"
definition TIMER_CALLS :: "nat list" where "TIMER_CALLS = [0x181E, 0x1831, 0x1838, 0x1844]"
definition CELLS :: "nat list" where
  "CELLS = [0x011F, 0x0120, 0x0121, 0x0122, 0x0123, 0x0124, 0x035D, 0x035E, 0x035F]"

definition EXEC_NAMES :: "(nat \<times> string) list" where
  "EXEC_NAMES =
     [(0x1082, ''post-title mainline''),
      (0x108F, ''MAIN LOOP''),
      (0x1126, ''X_DEF_ISR''),
      (0x11FA, ''boot/title hand-off''),
      (0x14F1, ''controller scan entry''),
      (0x1523, ''controller scan''),
      (0x15F8, ''handler-table dispatch (jumps into game code)''),
      (0x167D, ''X_RAND1  ** RNG **''),
      (0x169E, ''X_RAND2  ** RNG **''),
      (0x17D5, ''timer-table dispatch pass''),
      (0x1838, ''X_TIMER_STOP''),
      (0x1844, ''X_TIMER_START''),
      (0x181E, ''set timer countdown := interval  ** relocation hazard **''),
      (0x1831, ''set timer countdown := R0 (music)''),
      (0x1A71, ''music note timer''),
      (0x1AAD, ''sound update''),
      (0x1CCE, ''sound engine RNG caller (churns $035E mid-tick)''),
      (0x1F2F, ''X_DO_GRAM_INIT'')]"

definition exec_name :: "nat \<Rightarrow> string" where
  "exec_name tgt = (case map_of EXEC_NAMES tgt of None \<Rightarrow> [] | Some n \<Rightarrow> n)"

definition PASS_FRAMES :: rat where "PASS_FRAMES = 3"
definition FRAME_HZ :: rat where "FRAME_HZ = 5992 / 100"

text \<open>One line of the timer table: handler, interval word, stopped flag, interval.\<close>

type_synonym timer_entry = "nat \<times> nat \<times> bool \<times> nat"

text \<open>The rate in Hz and, of a running entry, the tick period in ms, as rationals.\<close>

definition timer_rate :: "timer_entry \<Rightarrow> rat option" where
  "timer_rate e = (case e of (addr, interval, stopped, iv) \<Rightarrow>
     let pass_hz = FRAME_HZ / PASS_FRAMES in if iv \<noteq> 0 then Some (pass_hz / of_nat iv) else None)"

definition tick_period :: "timer_entry \<Rightarrow> rat option" where
  "tick_period e = (case e of (addr, interval, stopped, iv) \<Rightarrow>
     let pass_hz = FRAME_HZ / PASS_FRAMES in if \<not> stopped \<and> iv \<noteq> 0 then Some (1000 * of_nat iv / pass_hz) else None)"

lemma tick_period_rate:
  assumes "tick_period e = Some ms"
  shows "\<exists>hz. timer_rate e = Some hz \<and> ms * hz = 1000"
proof -
  obtain addr interval stopped iv where e: "e = (addr, interval, stopped, iv)" by (rule prod_cases4)
  have iv: "\<not> stopped" "iv \<noteq> 0" "ms = 1000 * of_nat iv / (FRAME_HZ / PASS_FRAMES)"
    using assms by (auto simp: tick_period_def e Let_def split: if_splits)
  have "1000 * x / p * (p / x) = 1000" if "x \<noteq> 0" "p \<noteq> 0" for x p :: rat using that by simp
  then have "ms * (FRAME_HZ / PASS_FRAMES / of_nat iv) = 1000"
    using iv(2) unfolding iv(3) by (simp add: FRAME_HZ_def PASS_FRAMES_def)
  then show ?thesis using iv(2) by (simp add: timer_rate_def e Let_def)
qed

text \<open>Every routine the report lists call sites of has a name.\<close>

lemma exec_names_cover: "list_all (\<lambda>t. exec_name t \<noteq> []) (RNG_CALLS @ TIMER_CALLS)"
  by (simp add: RNG_CALLS_def TIMER_CALLS_def exec_name_def EXEC_NAMES_def)

text \<open>
  The walk over the timer table.  The address grows by four words in every round and the
  image ends, so the walk ends; it is a list or the IndexError of a read outside the image.
\<close>

function timer_walk :: "rom \<Rightarrow> int \<Rightarrow> exn + timer_entry list" where
  "timer_walk rom a =
     (if \<not> has rom (a + 3) then Inr []
      else case ptr rom a of Inl e \<Rightarrow> Inl e
        | Inr addr \<Rightarrow> (case ptr rom (a + 2) of Inl e \<Rightarrow> Inl e
          | Inr interval \<Rightarrow>
              if addr = 0 then Inr []
              else (case timer_walk rom (a + 4) of Inl e \<Rightarrow> Inl e
                | Inr rest \<Rightarrow> Inr ((addr, interval, interval AND 0x8000 \<noteq> 0, interval AND 0x7FFF) # rest))))"
  by pat_completeness auto
termination
  by (relation "measure (\<lambda>(rom, a). nat (rom_end rom - a))") (auto simp: has_def)

text \<open>Calls into the EXEC, in the order in which their targets were first seen.\<close>

definition add_call :: "int \<Rightarrow> int \<times> nat \<times> nat \<Rightarrow> (nat \<times> int list) list \<Rightarrow> (nat \<times> int list) list" where
  "add_call base j calls =
     (case j of (site, reg, tgt) \<Rightarrow>
        if int tgt < base
        then AList.update tgt ((case map_of calls tgt of None \<Rightarrow> [] | Some sites \<Rightarrow> sites) @ [site]) calls
        else calls)"

definition exec_calls :: "rom \<Rightarrow> (nat \<times> int list) list" where
  "exec_calls rom = fold (add_call (rom_base rom)) (jsrs rom) []"

definition calls_to :: "nat \<Rightarrow> (nat \<times> int list) list \<Rightarrow> int list" where
  "calls_to tgt calls = (case map_of calls tgt of None \<Rightarrow> [] | Some sites \<Rightarrow> sites)"

record recon_report =
  rr_tbl :: nat
  rr_start :: nat
  rr_gram :: nat
  rr_display :: "nat list"
  rr_timers :: "timer_entry list option"
  rr_rng :: "(nat \<times> int list) list"
  rr_timer_calls :: "(int \<times> nat) list"
  rr_cells :: "(nat \<times> (int \<times> string \<times> nat) list) list"
  rr_stic :: "ref list"
  rr_gramw :: "ref list"
  rr_top :: "(nat \<times> int list) list"

definition report :: "byte list \<Rightarrow> int \<Rightarrow> exn + recon_report" where
  "report d base =
     (let rom = Rom_init d base in
      case ptr rom (base + 2) of Inl e \<Rightarrow> Inl e | Inr tbl \<Rightarrow>
      (case ptr rom (base + 4) of Inl e \<Rightarrow> Inl e | Inr start \<Rightarrow>
      (case ptr rom (base + 8) of Inl e \<Rightarrow> Inl e | Inr gram \<Rightarrow>
      (case sum_map (\<lambda>off. rom_at rom (base + off)) [0x0D, 0x0E, 0x0F, 0x10, 0x11, 0x12, 0x13] of
         Inl e \<Rightarrow> Inl e | Inr disp \<Rightarrow>
      (case (if has rom (int tbl) then (case timer_walk rom (int tbl) of Inl e \<Rightarrow> Inl e | Inr ts \<Rightarrow> Inr (Some ts))
             else Inr None) of
         Inl e \<Rightarrow> Inl e | Inr timers \<Rightarrow>
      (let calls = exec_calls rom in
       case refs rom of Inl e \<Rightarrow> Inl e | Inr rs \<Rightarrow>
         Inr \<lparr>rr_tbl = tbl, rr_start = start, rr_gram = gram, rr_display = disp, rr_timers = timers,
              rr_rng = sort_key fst (filter (\<lambda>(t, s). t \<in> set RNG_CALLS) calls),
              rr_timer_calls = concat (map (\<lambda>tgt. map (\<lambda>s. (s, tgt)) (calls_to tgt calls)) TIMER_CALLS),
              rr_cells = filter (\<lambda>(cell, hits). hits \<noteq> [])
                (map (\<lambda>cell. (cell, [(s, op, r). (s, op, r, v) \<leftarrow> rs, v = cell])) CELLS),
              rr_stic = filter (\<lambda>(s, op, r, v). op = ''MVO'' \<and> v \<le> 0x003F) rs,
              rr_gramw = filter (\<lambda>(s, op, r, v). op = ''MVO'' \<and> 0x3800 \<le> v \<and> v \<le> 0x39FF) rs,
              rr_top = take 8 (sort_key (\<lambda>kv. - int (length (snd kv))) calls)\<rparr>))))))"


section \<open>The patch map\<close>

text \<open>
  tools/patches.py: word address to as1600 expression.  The expressions have five forms: the
  low and the high byte of a symbol, the two operand words of a JSR R5 to a symbol, and a
  symbol itself; the values of the symbols are defined by the assembly sources.
\<close>

datatype symbol =
    NEW_TIMER_TBL
  | NET_START
  | BX_RAND1
  | BX_RAND2
  | BX_SLOT3
  | BX_STOP_SHIM
  | BX_SLOT2
  | BX_ARM_SHIM
  | RS_SPARE0

datatype expr =
    Lo symbol
  | Hi symbol
  | Jsr_hi symbol
  | Jsr_lo symbol
  | Whole symbol

fun expr_value :: "(symbol \<Rightarrow> nat) \<Rightarrow> expr \<Rightarrow> nat" where
  "expr_value val (Lo x) = val x AND 0xFF"
| "expr_value val (Hi x) = drop_bit 8 (val x)"
| "expr_value val (Jsr_hi x) = push_bit 2 (drop_bit 10 (val x)) OR 0x0100"
| "expr_value val (Jsr_lo x) = val x AND 0x3FF"
| "expr_value val (Whole x) = val x"

definition patches :: "(int \<times> expr) list" where
  "patches =
     [(0x5002, Lo NEW_TIMER_TBL), (0x5003, Hi NEW_TIMER_TBL), (0x5004, Lo NET_START),
      (0x5005, Hi NET_START), (0x50E9, Jsr_hi BX_RAND1), (0x50EA, Jsr_lo BX_RAND1),
      (0x5301, Jsr_hi BX_RAND2), (0x5302, Jsr_lo BX_RAND2), (0x5319, Jsr_hi BX_RAND2),
      (0x531A, Jsr_lo BX_RAND2), (0x5490, Jsr_hi BX_RAND2), (0x5491, Jsr_lo BX_RAND2),
      (0x549F, Jsr_hi BX_RAND2), (0x54A0, Jsr_lo BX_RAND2), (0x54D6, Jsr_hi BX_RAND2),
      (0x54D7, Jsr_lo BX_RAND2), (0x5557, Jsr_hi BX_RAND2), (0x5558, Jsr_lo BX_RAND2),
      (0x5840, Jsr_hi BX_RAND2), (0x5841, Jsr_lo BX_RAND2), (0x521C, Lo BX_SLOT3),
      (0x521D, Hi BX_SLOT3), (0x521F, Jsr_hi BX_STOP_SHIM), (0x5220, Jsr_lo BX_STOP_SHIM),
      (0x52D5, Lo BX_SLOT2), (0x52D6, Hi BX_SLOT2), (0x52DA, Jsr_hi BX_STOP_SHIM),
      (0x52DB, Jsr_lo BX_STOP_SHIM), (0x53A8, Lo BX_SLOT2), (0x53A9, Hi BX_SLOT2),
      (0x53AB, Jsr_hi BX_ARM_SHIM), (0x53AC, Jsr_lo BX_ARM_SHIM), (0x53B0, Jsr_hi BX_ARM_SHIM),
      (0x53B1, Jsr_lo BX_ARM_SHIM), (0x558F, Lo BX_SLOT3), (0x5590, Hi BX_SLOT3),
      (0x5592, Jsr_hi BX_ARM_SHIM), (0x5593, Jsr_lo BX_ARM_SHIM), (0x56CA, Whole RS_SPARE0)]"

section \<open>dump_rom\<close>

text \<open>A DECLE line with the address of its comment: a row of original words, or a patch site.\<close>

datatype 'e line =
    Row "nat list" int
  | Patch 'e int nat

text \<open>The loop over the words: \<open>row\<close> collects up to eight words.\<close>

fun dump_loop :: "(int \<times> 'e) list \<Rightarrow> int \<Rightarrow> nat list \<Rightarrow> nat list \<Rightarrow> 'e line list" where
  "dump_loop ps addr row [] = (if row \<noteq> [] then [Row row (addr - int (length row))] else [])"
| "dump_loop ps addr row (w # ws) =
     (case map_of ps addr of
        Some e \<Rightarrow>
          (if row \<noteq> [] then [Row row (addr - int (length row))] else [])
          @ [Patch e addr w] @ dump_loop ps (addr + 1) [] ws
      | None \<Rightarrow>
          let row' = row @ [w] in
          if length row' = 8 then Row row' (addr - 7) # dump_loop ps (addr + 1) [] ws
          else dump_loop ps (addr + 1) row' ws)"

definition dump_rom :: "byte list \<Rightarrow> int \<Rightarrow> (int \<times> 'e) list \<Rightarrow> exn + 'e line list" where
  "dump_rom d base ps =
     (if length d mod 2 \<noteq> 0 then Inl AssertionError
      else let ws = words d in
        if \<not> list_all (\<lambda>(a, e). base \<le> a \<and> a < base + int (length ws)) ps then Inl AssertionError
        else Inr (dump_loop ps base [] ws))"

text \<open>The words a dump declares, in order, for given values of the patch expressions.\<close>

fun line_words :: "('e \<Rightarrow> nat) \<Rightarrow> 'e line \<Rightarrow> nat list" where
  "line_words val (Row ws _) = ws"
| "line_words val (Patch e _ _) = [val e]"

definition declared :: "('e \<Rightarrow> nat) \<Rightarrow> 'e line list \<Rightarrow> nat list" where
  "declared val ls = concat (map (line_words val) ls)"

section \<open>check_patch\<close>

definition CHECK_BASE :: int where "CHECK_BASE = 0x5000"

record patch_check =
  pc_bad :: "(int \<times> nat \<times> nat) list"
  pc_unpatched :: "int list"

definition compare_words :: "(int \<times> 'e) list \<Rightarrow> nat list \<Rightarrow> nat list \<Rightarrow> patch_check" where
  "compare_words ps orig hooked =
     (let trip = map (\<lambda>(i, a, b). (CHECK_BASE + int i, a, b)) (zip [0..<length orig] (zip orig hooked)) in
      \<lparr>pc_bad = filter (\<lambda>(addr, a, b). map_of ps addr = None \<and> a \<noteq> b) trip,
       pc_unpatched = map fst (filter (\<lambda>(addr, a, b). map_of ps addr \<noteq> None \<and> a = b) trip)\<rparr>)"

text \<open>The exit status of the tool: an error, or whether no undeclared difference was found.\<close>

definition check_patch :: "byte list \<Rightarrow> byte list \<Rightarrow> (int \<times> 'e) list \<Rightarrow> exn + bool" where
  "check_patch orig_d hook_d ps =
     (case words_count orig_d None of Inl e \<Rightarrow> Inl e
      | Inr orig \<Rightarrow> (case words_count hook_d (Some (length orig)) of Inl e \<Rightarrow> Inl e
        | Inr hooked \<Rightarrow> Inr (pc_bad (compare_words ps orig hooked) = [])))"


section \<open>Bit fields\<close>

lemma and_FC00: "n < 1024 \<Longrightarrow> n AND 0xFC00 = (0 :: nat)"
proof (rule bit_eqI)
  fix k assume "n < 1024"
  then have "take_bit 10 n = n" by (simp add: take_bit_eq_mod)
  then have "bit n k \<Longrightarrow> k < 10" by (metis bit_take_bit_iff)
  moreover have "bit (0xFC00 :: nat) k \<Longrightarrow> 10 \<le> k"
  proof -
    have "(0xFC00 :: nat) = push_bit 10 63" by (simp add: push_bit_eq_mult)
    then show "bit (0xFC00 :: nat) k \<Longrightarrow> 10 \<le> k" by (simp only: bit_push_bit_iff)
  qed
  ultimately show "bit (n AND 0xFC00) k = bit 0 k" by (auto simp: bit_and_iff)
qed

text \<open>The operand words of a JSR R5 to an address of 16 bits, as patches.py writes them.\<close>

lemma jsr_hi_value:
  assumes "val x < 65536"
  shows "expr_value val (Jsr_hi x) = 4 * (val x div 1024) + 256"
proof -
  have "4 * (val x div 1024) < 256" using assms by simp
  from or_push_bit_8[OF this, of 1] show ?thesis
    by (simp add: push_bit_eq_mult drop_bit_eq_div mult.commute[of 4])
qed

lemma or_push_bit_10:
  assumes "a < 1024"
  shows "push_bit 10 b OR a = 1024 * b + (a :: nat)"
proof -
  have "push_bit 10 b AND a = 0"
  proof (rule bit_eqI)
    fix n
    have "a = take_bit 10 a" using assms by (simp add: take_bit_eq_mod)
    then have "bit a n \<Longrightarrow> n < 10" by (metis bit_take_bit_iff)
    then show "bit (push_bit 10 b AND a) n = bit 0 n" by (auto simp: bit_and_iff bit_push_bit_iff)
  qed
  then have "push_bit 10 b OR a = push_bit 10 b + a" by (rule disjunctive_add_eq_or [symmetric])
  then show ?thesis by (simp add: push_bit_eq_mult)
qed

lemma jsr_decodes:
  assumes "val x < 65536" "rom_w rom ! i = 4" "rom_w rom ! (i + 1) = expr_value val (Jsr_hi x)"
    "rom_w rom ! (i + 2) = expr_value val (Jsr_lo x)"
  shows "jsr_at rom i = [(rom_base rom + int i, 5, val x)]"
proof -
  let ?q = "val x div 1024"
  have q: "?q < 64" using assms(1) by simp
  have w1: "rom_w rom ! (i + 1) = 4 * ?q + 256" using jsr_hi_value[of val x] assms(1) assms(3) by simp
  have w2: "rom_w rom ! (i + 2) = val x mod 1024" using assms(4) by (simp add: and_low_bits)
  have "(4 * ?q + 256) AND 0xFC00 = 0" "(val x mod 1024) AND 0xFC00 = 0" using q by (simp_all add: and_FC00)
  moreover have "4 + (drop_bit 8 (4 * ?q + 256) AND 3) = 5" using q by (simp add: drop_bit_eq_div and_low_bits)
  moreover have "push_bit 10 (drop_bit 2 ((4 * ?q + 256) AND 0xFF)) OR ((val x mod 1024) AND 0x3FF) = val x"
  proof -
    have "drop_bit 2 ((4 * ?q + 256) AND 0xFF) = ?q" using q by (simp add: and_low_bits drop_bit_eq_div)
    moreover have "(val x mod 1024) AND 0x3FF = val x mod 1024" by (simp add: and_low_bits)
    ultimately show ?thesis using or_push_bit_10[of "val x mod 1024" ?q] by simp
  qed
  ultimately show ?thesis unfolding jsr_at_def w1 w2 assms(2) Let_def by simp
qed

section \<open>The scanner\<close>

lemma length_words [simp]: "length (words d) = length d div 2"
  by (simp add: words_def)

lemma py_nth_inside: "0 \<le> i \<Longrightarrow> i < int (length xs) \<Longrightarrow> py_nth xs i = Inr (xs ! nat i)"
  by (simp add: py_nth_def)

lemma ptr_inside: "has rom a \<Longrightarrow> has rom (a + 1) \<Longrightarrow> \<exists>v. ptr rom a = Inr v"
  by (auto simp: ptr_def rom_at_def has_def rom_end_def py_nth_inside)

lemma ref_at_total: "\<exists>rs. ref_at rom i = Inr rs"
proof -
  let ?v = "rom_w rom ! i"
  have "\<exists>op. OPS (drop_bit 6 ?v AND 7) = Some op" if "0x0240 \<le> ?v" "?v \<le> 0x03FF"
  proof -
    have "9 \<le> ?v div 64" "?v div 64 \<le> 15" using that by simp_all
    then have "?v div 64 \<in> {9, 10, 11, 12, 13, 14, 15}" by auto
    then show ?thesis by (auto simp: OPS_def drop_bit_eq_div and_low_bits)
  qed
  then show ?thesis by (auto simp: ref_at_def Let_def split: option.split)
qed

lemma sum_map_total: "(\<And>x. x \<in> set xs \<Longrightarrow> \<exists>y. f x = Inr y) \<Longrightarrow> \<exists>ys. sum_map f xs = Inr ys"
proof (induction xs)
  case (Cons x xs)
  then obtain y ys where "f x = Inr y" "sum_map f xs = Inr ys" by (metis list.set_intros)
  then show ?case by simp
qed simp

lemma refs_total: "\<exists>rs. refs rom = Inr rs"
proof -
  obtain rs where "sum_map (ref_at rom) [0..<length (rom_w rom) - 1] = Inr rs"
    using sum_map_total[of _ "ref_at rom"] ref_at_total by blast
  then show ?thesis by (simp add: refs_def)
qed

declare timer_walk.simps [simp del]

lemma timer_walk_total:
  "rom_base rom \<le> a \<Longrightarrow> \<exists>ts. timer_walk rom a = Inr ts \<and> 4 * int (length ts) \<le> max 0 (rom_end rom - a)"
proof (induction rom a rule: timer_walk.induct)
  case (1 rom a)
  show ?case
  proof (cases "has rom (a + 3)")
    case True
    with "1.prems" have in1: "has rom a" "has rom (a + 1)" "has rom (a + 2)" by (auto simp: has_def)
    obtain addr where addr: "ptr rom a = Inr addr" using ptr_inside[OF in1(1,2)] by blast
    have "has rom (a + 2 + 1)" using True by (simp add: add.assoc)
    then obtain iv where iv: "ptr rom (a + 2) = Inr iv" using ptr_inside[OF in1(3)] by blast
    show ?thesis
    proof (cases "addr = 0")
      case False
      obtain ts where "timer_walk rom (a + 4) = Inr ts" "4 * int (length ts) \<le> max 0 (rom_end rom - (a + 4))"
        using "1.IH"[OF _ addr iv False] True "1.prems" by auto
      with True addr iv False show ?thesis by (subst timer_walk.simps) (auto simp: has_def)
    qed (use True addr iv in \<open>subst timer_walk.simps, simp\<close>)
  qed (subst timer_walk.simps, simp)
qed


section \<open>Dumps and checks\<close>

text \<open>The image with the patch expressions in place.\<close>

fun patched :: "('e \<Rightarrow> nat) \<Rightarrow> (int \<times> 'e) list \<Rightarrow> int \<Rightarrow> nat list \<Rightarrow> nat list" where
  "patched val ps addr [] = []"
| "patched val ps addr (w # ws) =
     (case map_of ps addr of Some e \<Rightarrow> val e | None \<Rightarrow> w) # patched val ps (addr + 1) ws"

text \<open>
  A listing of the words \<open>ws\<close> from address \<open>a\<close>: the address comments are right,
  rows hold one to eight words, and a patch line names the patch of its address and the
  original word.
\<close>

fun listing :: "(int \<times> 'e) list \<Rightarrow> int \<Rightarrow> nat list \<Rightarrow> 'e line list \<Rightarrow> bool" where
  "listing ps a ws [] \<longleftrightarrow> ws = []"
| "listing ps a ws (Row rs b # ls) \<longleftrightarrow>
     b = a \<and> rs \<noteq> [] \<and> length rs \<le> 8 \<and> take (length rs) ws = rs \<and>
     listing ps (a + int (length rs)) (List.drop (length rs) ws) ls"
| "listing ps a ws (Patch e b w # ls) \<longleftrightarrow>
     b = a \<and> map_of ps a = Some e \<and> take 1 ws = [w] \<and> listing ps (a + 1) (List.drop 1 ws) ls"

lemma declared_Cons: "declared val (l # ls) = line_words val l @ declared val ls"
  by (simp add: declared_def)

lemma declared_dump_loop:
  "declared val (dump_loop ps addr row ws) = row @ patched val ps addr ws"
  by (induction ps addr row ws rule: dump_loop.induct)
     (auto simp: declared_def Let_def split: option.split)

lemma listing_dump_loop:
  "length row < 8 \<Longrightarrow> listing ps (addr - int (length row)) (row @ ws) (dump_loop ps addr row ws)"
proof (induction ps addr row ws rule: dump_loop.induct)
  case (2 ps addr row w ws)
  show ?case
  proof (cases "map_of ps addr")
    case (Some e)
    with "2.IH"(3)[OF Some] "2.prems" show ?thesis by simp
  next
    case None
    show ?thesis
    proof (cases "length (row @ [w]) = 8")
      case True
      with "2.IH"(1)[OF None refl True] None show ?thesis by (simp add: Let_def add.commute[of addr 1])
    next
      case False
      then have "length (row @ [w]) < 8" using "2.prems" by simp
      with "2.IH"(2)[OF None refl False] None False show ?thesis by (simp add: Let_def)
    qed
  qed
qed simp

lemma length_patched [simp]: "length (patched val ps addr ws) = length ws"
  by (induction ws arbitrary: addr) simp_all

lemma nth_patched:
  "i < length ws \<Longrightarrow>
   patched val ps addr ws ! i = (case map_of ps (addr + int i) of Some e \<Rightarrow> val e | None \<Rightarrow> ws ! i)"
proof (induction ws arbitrary: addr i)
  case (Cons w ws)
  then show ?case by (cases i) (simp_all add: algebra_simps split: option.split)
qed simp

lemma dump_rom_Inr:
  "dump_rom d base ps = Inr ls \<Longrightarrow> ls = dump_loop ps base [] (words d)"
  by (auto simp: dump_rom_def Let_def split: if_splits)

lemma words_count_None: "words_count d None = Inr (words d)"
  by (simp add: words_count_def words_def mult.commute Let_def)

lemma words_count_Some:
  "words_count d (Some n) = (if 2 * n \<le> length d then Inr (take n (words d)) else Inl IndexError)"
  by (auto simp: words_count_def words_def mult.commute take_map Let_def min_absorb1)

lemma compare_words_bad:
  assumes "length hooked = length orig"
  shows "pc_bad (compare_words ps orig hooked) = [] \<longleftrightarrow>
    (\<forall>i<length orig. map_of ps (CHECK_BASE + int i) = None \<longrightarrow> orig ! i = hooked ! i)"
proof -
  have z: "set (zip [0..<length orig] (zip orig hooked)) = {(i, orig ! i, hooked ! i) | i. i < length orig}"
    using assms by (auto simp: set_zip) (metis nth_upt nth_zip add_0)
  show ?thesis
    unfolding compare_words_def Let_def
    by (auto simp: filter_empty_conv z image_iff)
qed


section \<open>Properties\<close>

text \<open>
  C27 (JSR operands): the two operand words patches.py writes for a JSR to a symbol are decoded
  by recon.py's scanner as a JSR through R5 to exactly that symbol's address, for every 16-bit
  value of the symbol.
\<close>

theorem patch_jsr_roundtrip:
  assumes "val x < 65536" "i + 2 < length (rom_w rom)" "rom_w rom ! i = 4"
    and "rom_w rom ! (i + 1) = expr_value val (Jsr_hi x)" "rom_w rom ! (i + 2) = expr_value val (Jsr_lo x)"
  shows "(rom_base rom + int i, 5, val x) \<in> set (jsrs rom)"
proof -
  have "i \<in> set [0..<length (rom_w rom) - 2]" using assms(2) by auto
  moreover have "(rom_base rom + int i, 5, val x) \<in> set (jsr_at rom i)"
    using jsr_decodes[of val x rom i] assms by simp
  ultimately show ?thesis unfolding jsrs_def by auto
qed

theorem patch_jsr_roundtrip_witness:
  "(0x5000, 5, 0x6123) \<in> set (jsrs \<lparr>rom_base = 0x5000,
     rom_w = [4, expr_value (\<lambda>_. 0x6123) (Jsr_hi BX_RAND1), expr_value (\<lambda>_. 0x6123) (Jsr_lo BX_RAND1)]\<rparr>)"
  using patch_jsr_roundtrip[of "\<lambda>_. 0x6123" BX_RAND1 0 "\<lparr>rom_base = 0x5000,
     rom_w = [4, expr_value (\<lambda>_. 0x6123) (Jsr_hi BX_RAND1), expr_value (\<lambda>_. 0x6123) (Jsr_lo BX_RAND1)]\<rparr>"]
  by (simp del: expr_value.simps)

text \<open>
  Remark (the patch map is consistent): the addresses of patches.py are distinct and inside the
  cartridge image, and every half of a JSR operand or of a split address has its other half for
  the same symbol in the adjacent word.
\<close>

theorem patches_consistent:
  "distinct (map fst patches) \<and>
   list_all (\<lambda>(a, e). 0x5000 \<le> a \<and> a < 0x6000 \<and>
     (case e of
        Lo x \<Rightarrow> map_of patches (a + 1) = Some (Hi x)
      | Hi x \<Rightarrow> map_of patches (a - 1) = Some (Lo x)
      | Jsr_hi x \<Rightarrow> map_of patches (a + 1) = Some (Jsr_lo x)
      | Jsr_lo x \<Rightarrow> map_of patches (a - 1) = Some (Jsr_hi x)
      | Whole x \<Rightarrow> x = RS_SPARE0)) patches"
  by (simp add: patches_def)

text \<open>
  C28 (dumps): a dump that is produced lists the image completely and in order, with the right
  address comments, at most eight words to a row, every patch expression at its address beside
  the original word; the words it declares are those of the image with the patches in place.
\<close>

theorem dump_rom_lists:
  assumes "dump_rom d base ps = Inr ls"
  shows "listing ps base (words d) ls \<and> length (declared val ls) = length d div 2 \<and>
    (\<forall>i < length d div 2. declared val ls ! i =
       (case map_of ps (base + int i) of Some e \<Rightarrow> val e | None \<Rightarrow> words d ! i))"
  using dump_rom_Inr[OF assms] listing_dump_loop[of "[]" ps base "words d"]
  by (auto simp: declared_dump_loop nth_patched)

theorem dump_rom_lists_witness:
  "declared (\<lambda>_. 7) [Row [0x0102] 0x5000, Patch () 0x5001 0x0304] = [0x0102, 7]"
proof -
  have "dump_rom [1, 2, 3, 4] 0x5000 [(0x5001, ())] = Inr [Row [0x0102] 0x5000, Patch () 0x5001 0x0304]"
    by (simp add: dump_rom_def words_def be16_def upt_rec)
  from dump_rom_lists[OF this, of "\<lambda>_. 7"] show ?thesis
    by (simp add: declared_def)
qed

text \<open>
  C30 (dump and check agree): an image that starts with the words of the dump passes
  check_patch, whatever the patch expressions evaluate to.
\<close>

theorem dump_passes_check:
  assumes "dump_rom d CHECK_BASE ps = Inr ls" "words_count hook (Some (length d div 2)) = Inr (declared val ls)"
  shows "check_patch d hook ps = Inr True"
proof -
  let ?h = "patched val ps CHECK_BASE (words d)"
  have h: "declared val ls = ?h" using dump_rom_Inr[OF assms(1)] by (simp add: declared_dump_loop)
  have "pc_bad (compare_words ps (words d) ?h) = []"
    by (subst compare_words_bad) (simp_all add: nth_patched)
  with assms(2) h show ?thesis by (simp add: check_patch_def words_count_None)
qed

theorem dump_passes_check_witness: "check_patch [1, 2, 3, 4] [1, 2, 0, 7, 99] [(0x5001, ())] = Inr True"
proof (rule dump_passes_check)
  show "dump_rom [1, 2, 3, 4] CHECK_BASE [(0x5001, ())] = Inr [Row [0x0102] 0x5000, Patch () 0x5001 0x0304]"
    by (simp add: dump_rom_def words_def be16_def CHECK_BASE_def upt_rec)
  show "words_count [1, 2, 0, 7, 99] (Some (length [1 :: byte, 2, 3, 4] div 2)) =
      Inr (declared (\<lambda>_. 7) [Row [0x0102] 0x5000, Patch () 0x5001 0x0304])"
    by (simp add: words_count_def be16_def declared_def upt_rec)
qed


text \<open>
  C29 (what the checker accepts): check_patch succeeds exactly when the hooked file is long
  enough and agrees with the original image at every address that is not a declared patch site.
\<close>

theorem check_patch_exact:
  "check_patch d hook ps = Inr True \<longleftrightarrow>
     2 * (length d div 2) \<le> length hook \<and>
     list_all (\<lambda>i. map_of ps (CHECK_BASE + int i) \<noteq> None \<or> words hook ! i = words d ! i) [0..<length d div 2]"
proof (cases "2 * (length d div 2) \<le> length hook")
  case True
  let ?n = "length d div 2"
  have len: "length (take ?n (words hook)) = length (words d)" using True by simp
  have "check_patch d hook ps = Inr True \<longleftrightarrow> pc_bad (compare_words ps (words d) (take ?n (words hook))) = []"
    using True by (simp add: check_patch_def words_count_None words_count_Some)
  also have "\<dots> \<longleftrightarrow> (\<forall>i<?n. map_of ps (CHECK_BASE + int i) = None \<longrightarrow> words d ! i = words hook ! i)"
    using compare_words_bad[OF len, of ps] by simp
  also have "\<dots> \<longleftrightarrow> list_all (\<lambda>i. map_of ps (CHECK_BASE + int i) \<noteq> None \<or> words hook ! i = words d ! i) [0..<?n]"
    unfolding list_all_iff by (simp only: atLeast_upt [symmetric] lessThan_iff Ball_def) metis
  finally show ?thesis using True by (simp only: simp_thms)
qed (simp add: check_patch_def words_count_None words_count_Some)

theorem check_patch_exact_witness: "check_patch [1, 2, 3, 4] [1, 2, 0, 7, 99] [(0x5001, ())] = Inr True"
  using check_patch_exact[of "[1, 2, 3, 4]" "[1, 2, 0, 7, 99]" "[(0x5001, ())]"]
  by (simp add: words_def be16_def CHECK_BASE_def upt_rec)

text \<open>
  C31 (the scanner is total): on an image of at least 20 words the report is always produced: no
  read leaves the image, no opcode is unknown, and the walk over the timer table ends after at
  most a quarter of the words from its start.
\<close>

theorem report_total:
  assumes "40 \<le> length d"
  shows "\<exists>r. report d base = Inr r \<and>
    (case rr_timers r of None \<Rightarrow> True
     | Some ts \<Rightarrow> 4 * int (length ts) \<le> base + int (length d div 2) - int (rr_tbl r))"
proof -
  let ?rom = "Rom_init d base"
  have in_rom: "has ?rom (base + k)" if "0 \<le> k" "k < 20" for k
    using that assms by (simp add: has_def rom_end_def Rom_init_def)
  obtain tbl where tbl: "ptr ?rom (base + 2) = Inr tbl"
    using ptr_inside[OF in_rom[of 2]] in_rom[of 3] by (auto simp: add.assoc)
  obtain start where start: "ptr ?rom (base + 4) = Inr start"
    using ptr_inside[OF in_rom[of 4]] in_rom[of 5] by (auto simp: add.assoc)
  obtain gram where gram: "ptr ?rom (base + 8) = Inr gram"
    using ptr_inside[OF in_rom[of 8]] in_rom[of 9] by (auto simp: add.assoc)
  have "\<exists>v. rom_at ?rom (base + off) = Inr v" if "0 \<le> off" "off < 20" for off
    using in_rom[OF that] by (auto simp: rom_at_def has_def rom_end_def py_nth_inside)
  then have "\<exists>v. rom_at ?rom (base + off) = Inr v" if "off \<in> set [0x0D, 0x0E, 0x0F, 0x10, 0x11, 0x12, 0x13]" for off
    using that by auto
  then obtain disp where disp:
    "sum_map (\<lambda>off. rom_at ?rom (base + off)) [0x0D, 0x0E, 0x0F, 0x10, 0x11, 0x12, 0x13] = Inr disp"
    using sum_map_total[of "[0x0D, 0x0E, 0x0F, 0x10, 0x11, 0x12, 0x13]" "\<lambda>off. rom_at ?rom (base + off)"] by blast
  obtain rs where rs: "refs ?rom = Inr rs" using refs_total by blast
  show ?thesis
  proof (cases "has ?rom (int tbl)")
    case True
    then have "rom_base ?rom \<le> int tbl" by (simp add: has_def)
    then obtain ts where ts: "timer_walk ?rom (int tbl) = Inr ts" "4 * int (length ts) \<le> max 0 (rom_end ?rom - int tbl)"
      using timer_walk_total by blast
    have "4 * int (length ts) \<le> base + int (length d div 2) - int tbl"
      using ts(2) True by (simp add: has_def rom_end_def Rom_init_def)
    then show ?thesis
      unfolding report_def Let_def tbl start gram disp rs using True ts(1) by simp
  next
    case False
    then show ?thesis unfolding report_def Let_def tbl start gram disp rs by simp
  qed
qed

theorem report_total_witness: "\<exists>r. report (replicate 40 0) 0x5000 = Inr r"
  using report_total[of "replicate 40 0"] by fastforce

end
