(* ===== verification/Trace_Tools.thy ===== *)
theory Trace_Tools
  imports Prelude
begin

text \<open>
  The tools that read debugger session logs: the dump parser and the determinism gate of
  tools/crc_trace_diff.py, tools/mk_replay.py, tools/cell_diff.py and the destination-phase
  assertion tools/check_dest_phase.py.  A log is its text; a memory is the dictionary from
  addresses to words that the parser builds; messages are values.
\<close>

section \<open>Parsing dumps\<close>

text \<open>
  \<open>DUMP_RE\<close> is \<open>^([0-9A-F]{4}):((?:\s+[0-9A-F]{4}\*?){1,8})\s*#\<close> with re.M.  No
  part of it can match in two ways (a group starts with white space and ends before white space
  or \<open>#\<close>), so greedy matching without backtracking finds what the regular expression
  finds.
\<close>

definition hex_digit :: "char \<Rightarrow> nat option" where
  "hex_digit c =
     (let n = (of_char c :: nat) in
      if 48 \<le> n \<and> n \<le> 57 then Some (n - 48) else if 65 \<le> n \<and> n \<le> 70 then Some (n - 55) else None)"

definition hex4 :: "string \<Rightarrow> (nat \<times> string) option" where
  "hex4 s =
     (case s of
        a # b # c # d # rest \<Rightarrow>
          (case (hex_digit a, hex_digit b, hex_digit c, hex_digit d) of
             (Some w, Some x, Some y, Some z) \<Rightarrow> Some (4096 * w + 256 * x + 16 * y + z, rest)
           | _ \<Rightarrow> None)
      | _ \<Rightarrow> None)"

definition skip_char :: "char \<Rightarrow> string \<Rightarrow> string" where
  "skip_char c s = (if s \<noteq> [] \<and> hd s = c then tl s else s)"

fun hex_groups :: "nat \<Rightarrow> string \<Rightarrow> nat list \<times> string" where
  "hex_groups 0 s = ([], s)"
| "hex_groups (Suc n) s =
     (let s1 = dropWhile is_space s in
      if s1 = s then ([], s)
      else case hex4 s1 of
        None \<Rightarrow> ([], s)
      | Some (w, s2) \<Rightarrow> (case hex_groups n (skip_char (CHR ''*'') s2) of (ws, s4) \<Rightarrow> (w # ws, s4)))"

definition match_dump :: "string \<Rightarrow> (nat \<times> nat list \<times> string) option" where
  "match_dump s =
     (case hex4 s of
        None \<Rightarrow> None
      | Some (addr, s1) \<Rightarrow>
          if skip_char (CHR '':'') s1 = s1 then None
          else (case hex_groups 8 (skip_char (CHR '':'') s1) of (ws, s2) \<Rightarrow>
             let s3 = dropWhile is_space s2 in
             if ws = [] \<or> skip_char (CHR ''#'') s3 = s3 then None
             else Some (addr, ws, skip_char (CHR ''#'') s3)))"

lemma skip_char_le: "length (skip_char c s) \<le> length s"
  by (simp add: skip_char_def)

lemma hex4_shorter: "hex4 s = Some (w, rest) \<Longrightarrow> length rest < length s"
  by (auto simp: hex4_def split: list.splits option.splits)

lemma hex_groups_shorter: "length (snd (hex_groups n s)) \<le> length s"
proof (induction n arbitrary: s)
  case (Suc n)
  show ?case
  proof (cases "hex4 (dropWhile is_space s)")
    case (Some p)
    obtain w s2 where p: "p = (w, s2)" by fastforce
    have "length s2 \<le> length s"
      using hex4_shorter[OF Some[unfolded p]] length_dropWhile_le[of is_space s] by linarith
    then have "length (snd (hex_groups n (skip_char (CHR ''*'') s2))) \<le> length s"
      using Suc.IH[of "skip_char (CHR ''*'') s2"] skip_char_le[of "CHR ''*''" s2] by linarith
    then show ?thesis by (simp add: Let_def Some p split: prod.split) (metis snd_conv)
  qed (simp add: Let_def)
qed simp

lemma match_dump_shorter:
  assumes "match_dump s = Some (addr, ws, rest)"
  shows "length rest < length s"
proof -
  obtain s1 where h: "hex4 s = Some (addr, s1)" and rest:
    "rest = skip_char (CHR ''#'') (dropWhile is_space (snd (hex_groups 8 (skip_char (CHR '':'') s1))))"
    using assms by (auto simp: match_dump_def Let_def split: option.splits prod.splits if_splits)
  have "length rest \<le> length s1"
    using skip_char_le[of "CHR ''#''"] length_dropWhile_le[of is_space] hex_groups_shorter[of 8] skip_char_le[of "CHR '':''" s1]
    unfolding rest by (meson le_trans)
  then show ?thesis using hex4_shorter[OF h] by simp
qed

text \<open>\<open>finditer\<close>: a match is tried at the start of the text and after every newline.\<close>

function find_dumps :: "bool \<Rightarrow> string \<Rightarrow> (nat \<times> nat list) list" where
  "find_dumps bol s =
     (case (if bol then match_dump s else None) of
        Some (addr, ws, rest) \<Rightarrow> (addr, ws) # find_dumps False rest
      | None \<Rightarrow> (case s of [] \<Rightarrow> [] | c # cs \<Rightarrow> find_dumps (c = CHR 0x0A) cs))"
  by pat_completeness auto
termination
  by (relation "measure (\<lambda>(bol, s). length s)") (auto split: if_splits dest: match_dump_shorter)

type_synonym mem = "(nat \<times> nat) list"

fun store_words :: "nat \<Rightarrow> nat list \<Rightarrow> mem \<Rightarrow> mem" where
  "store_words addr [] m = m"
| "store_words addr (w # ws) m = store_words (addr + 1) ws (AList.update addr w m)"

definition parse :: "string \<Rightarrow> mem" where
  "parse text = fold (\<lambda>(addr, ws). store_words addr ws) (find_dumps True text) []"


section \<open>The determinism gate\<close>

definition mem_at :: "mem \<Rightarrow> nat \<Rightarrow> exn + nat" where
  "mem_at m a = (case map_of m a of None \<Rightarrow> Inl KeyError | Some v \<Rightarrow> Inr v)"

definition mem_get :: "mem \<Rightarrow> nat \<Rightarrow> nat \<Rightarrow> nat" where
  "mem_get m a d = (case map_of m a of None \<Rightarrow> d | Some v \<Rightarrow> v)"

text \<open>\<open>m[a] | (m[a + 1] << 8)\<close>\<close>

definition pair_at :: "mem \<Rightarrow> nat \<Rightarrow> exn + nat" where
  "pair_at m a =
     (case mem_at m a of Inl e \<Rightarrow> Inl e
      | Inr lo \<Rightarrow> (case mem_at m (a + 1) of Inl e \<Rightarrow> Inl e | Inr hi \<Rightarrow> Inr (lo OR push_bit 8 hi)))"

text \<open>One ring slot: missing, or the checksums of both runs.\<close>

definition ring_slot :: "mem \<Rightarrow> mem \<Rightarrow> nat \<Rightarrow> exn + (nat \<times> nat) option" where
  "ring_slot a b slot =
     (let addr = 0x9000 + slot * 2 in
      if map_of a addr = None \<or> map_of b addr = None then Inr None
      else case pair_at a addr of Inl e \<Rightarrow> Inl e
        | Inr ca \<Rightarrow> (case pair_at b addr of Inl e \<Rightarrow> Inl e | Inr cb \<Rightarrow> Inr (Some (ca, cb))))"

definition slot_tick :: "nat \<Rightarrow> nat \<Rightarrow> int" where
  "slot_tick tick_a slot =
     (if slot \<ge> tick_a AND 0xFF then (int tick_a AND NOT 0xFF) - 0x100 + int slot
      else (int tick_a AND NOT 0xFF) + int slot)"

definition anim_field :: "nat \<Rightarrow> bool" where
  "anim_field x \<longleftrightarrow> 0x031D \<le> x \<and> x < 0x035D \<and> (x - 0x031D) mod 8 = 5"

definition common :: "mem \<Rightarrow> mem \<Rightarrow> nat list" where
  "common a b = sorted_list_of_set (set (map fst a) \<inter> set (map fst b))"

definition settled_diffs :: "mem \<Rightarrow> mem \<Rightarrow> nat list" where
  "settled_diffs a b =
     filter (\<lambda>x. map_of a x \<noteq> map_of b x \<and> \<not> anim_field x \<and>
              (0x015D \<le> x \<and> x < 0x01F0 \<or> 0x0315 \<le> x \<and> x < 0x35E)) (common a b)"

datatype trace_verdict =
    No_dump string
  | Park_mismatch nat nat
  | Settled_fail "nat list"
  | Determinism_fail "(int \<times> nat \<times> nat \<times> nat) list" int
  | Trace_pass nat

definition slot_mismatches :: "nat \<Rightarrow> (nat \<times> nat) option list \<Rightarrow> (int \<times> nat \<times> nat \<times> nat) list" where
  "slot_mismatches tick_a slots =
     concat (map (\<lambda>(slot, r). case r of
         None \<Rightarrow> []
       | Some (ca, cb) \<Rightarrow> if ca \<noteq> cb then [(slot_tick tick_a slot, slot, ca, cb)] else []) (zip [0..<256] slots))"

definition trace_diff :: "mem \<Rightarrow> mem \<Rightarrow> exn + trace_verdict" where
  "trace_diff a b =
     (if map_of a 0x8108 = None then Inr (No_dump ''A'')
      else if map_of b 0x8108 = None then Inr (No_dump ''B'')
      else case pair_at a 0x8108 of Inl e \<Rightarrow> Inl e | Inr tick_a \<Rightarrow>
      (case pair_at b 0x8108 of Inl e \<Rightarrow> Inl e | Inr tick_b \<Rightarrow>
       if tick_a \<noteq> tick_b then Inr (Park_mismatch tick_a tick_b)
       else (case sum_map (ring_slot a b) [0..<256] of Inl e \<Rightarrow> Inl e | Inr slots \<Rightarrow>
         let mismatches = slot_mismatches tick_a slots;
             missing = length (filter (\<lambda>r. r = None) slots)
         in if settled_diffs a b \<noteq> [] then Inr (Settled_fail (settled_diffs a b))
            else if mismatches \<noteq> [] then
              Inr (Determinism_fail mismatches (Min (set (map fst mismatches))))
            else Inr (Trace_pass missing))))"

section \<open>cell_diff, mk_replay\<close>

definition cell_diffs :: "mem \<Rightarrow> mem \<Rightarrow> (nat \<times> nat \<times> nat) list" where
  "cell_diffs a b =
     map (\<lambda>x. (x, mem_get a x 0, mem_get b x 0))
       (filter (\<lambda>x. map_of a x \<noteq> map_of b x \<and>
                 (0x015D \<le> x \<and> x \<le> 0x01EF \<or> 0x02F0 \<le> x \<and> x \<le> 0x035F)) (common a b))"

definition REC_CAP :: nat where "REC_CAP = 768"

text \<open>The value of REPLAY_LEN and the rows of REPLAY_TBL.\<close>

definition mk_replay :: "mem \<Rightarrow> nat \<times> nat list list" where
  "mk_replay m =
     (let ticks = mem_get m 0x8108 0 OR push_bit 8 (mem_get m 0x8109 0);
          n = min ticks REC_CAP
      in (n, map (\<lambda>t. let slot = 0x9000 + t * 4 in
               [mem_get m slot 0x40 AND 0xFF, mem_get m (slot + 1) 0x40 AND 0xFF,
                mem_get m (slot + 2) 0x00 AND 0xFF, mem_get m (slot + 3) 0x00 AND 0xFF]) [0..<REC_CAP]))"

section \<open>check_dest_phase\<close>

definition BX_HTBL_PROMPT :: nat where "BX_HTBL_PROMPT = 0x5932"
definition BX_HTBL_LIVE :: nat where "BX_HTBL_LIVE = 0x593C"

datatype phase_failure =
    No_memory_dumps
  | No_table_dump
  | Still_prompt
  | Wrong_table nat
  | No_confirm_dump
  | Not_confirmed nat nat
  | Same_boxer nat
  | Objects_all_zero

text \<open>
  The format \<open>{seat0_pick:#04x}\<close> of the success message raises TypeError when the pick was
  not dumped.
\<close>

definition check_phase :: "mem \<Rightarrow> exn + phase_failure list" where
  "check_phase m =
     (if m = [] then Inr [No_memory_dumps]
      else
        let c0 = map_of m 0x1AC; c1 = map_of m 0x1AD; p0 = map_of m 0x1AE; p1 = map_of m 0x1AF;
            lo = map_of m 0x80C0; hi = map_of m 0x80C1;
            tab = (case (lo, hi) of (Some l, Some h) \<Rightarrow> Some (l OR push_bit 8 h) | _ \<Rightarrow> None);
            f1 = (case tab of
                None \<Rightarrow> [No_table_dump]
              | Some t \<Rightarrow> if t = BX_HTBL_PROMPT then [Still_prompt]
                          else if t \<noteq> BX_HTBL_LIVE then [Wrong_table t] else []);
            f2 = (case (c0, c1) of
                (Some x, Some y) \<Rightarrow> if \<not> (x \<noteq> 0 \<and> y \<noteq> 0) then [Not_confirmed x y] else []
              | _ \<Rightarrow> [No_confirm_dump]);
            f3 = (case (p0, p1) of
                (Some x, Some y) \<Rightarrow> if x = y then [Same_boxer x] else []
              | _ \<Rightarrow> []);
            f4 = (if \<not> list_ex (\<lambda>a. mem_get m a 0 \<noteq> 0) [0x31D..<0x35D] then [Objects_all_zero] else []);
            fail = f1 @ f2 @ f3 @ f4
        in if fail \<noteq> [] then Inr fail
           else if p0 = None \<or> p1 = None then Inl TypeError
           else Inr [])"

definition check_dest_phase :: "string list \<Rightarrow> exn + bool" where
  "check_dest_phase texts =
     (case sum_map (\<lambda>text. check_phase (parse text)) texts of
        Inl e \<Rightarrow> Inl e
      | Inr fs \<Rightarrow> Inr (concat fs = []))"

section \<open>Properties\<close>

lemma mem_at_Some: "map_of m a = Some v \<Longrightarrow> mem_at m a = Inr v"
  by (simp add: mem_at_def)

lemma and_not_FF: "int n AND NOT 0xFF = int n - int n mod 256"
proof -
  have "int n AND 0xFF = take_bit 8 (int n)" by (simp add: take_bit_eq_mask mask_eq_exp_minus_1)
  then have "int n AND 0xFF = int n mod 256" by (simp add: take_bit_eq_mod)
  moreover have "(int n AND NOT 0xFF) + (int n AND 0xFF) = int n"
  proof -
    have "(int n AND NOT 0xFF) OR (int n AND 0xFF) = int n"
      by (simp add: bit.conj_disj_distrib [symmetric] or.commute)
    moreover have "(int n AND NOT 0xFF) AND (int n AND 0xFF) = 0" by (rule bit_eqI) (auto simp: bit_simps)
    ultimately show ?thesis by (simp add: disjunctive_add_eq_or)
  qed
  ultimately show ?thesis by simp
qed

text \<open>
  Remark (ring slots are the last 256 ticks): the tick that the determinism gate reports for a ring
  slot is the one among the 256 ticks before the park tick that the ring stores there.
\<close>

theorem slot_tick_exact:
  assumes "slot < 256"
  shows "int tick - 256 \<le> slot_tick tick slot \<and> slot_tick tick slot < int tick \<and>
    slot_tick tick slot mod 256 = int slot"
proof -
  have m: "int tick mod 256 < 256" "0 \<le> int tick mod 256" by simp_all
  have c: "(slot \<ge> tick AND 0xFF) = (int tick mod 256 \<le> int slot)"
    unfolding and_low_bits(2) using zmod_int[of tick 256] by (metis of_nat_le_iff of_nat_numeral)
  have e: "(int tick - int tick mod 256) mod 256 = 0" by (simp add: minus_mod_eq_mult_div)
  have "(int tick - int tick mod 256 + int slot) mod 256 = int slot"
    using e assms by (simp add: mod_add_eq [symmetric] mod_pos_pos_trivial)
  moreover have "(int tick - int tick mod 256 - 256 + int slot) mod 256 = (int tick - int tick mod 256 + int slot) mod 256"
    by (metis add_diff_eq diff_add_eq minus_mod_self2)
  ultimately have r: "(int tick - int tick mod 256 + int slot) mod 256 = int slot"
    "(int tick - int tick mod 256 - 256 + int slot) mod 256 = int slot" by simp_all
  show ?thesis
  proof (cases "int tick mod 256 \<le> int slot")
    case True
    then have "slot_tick tick slot = int tick - int tick mod 256 - 256 + int slot"
      unfolding slot_tick_def c and_not_FF by simp
    with r(2) m True assms show ?thesis by (intro conjI) (linarith, linarith, simp)
  next
    case False
    then have "slot_tick tick slot = int tick - int tick mod 256 + int slot"
      unfolding slot_tick_def c and_not_FF by simp
    with r(1) m False show ?thesis by (intro conjI) (linarith, linarith, simp)
  qed
qed

theorem slot_tick_exact_witness:
  "744 \<le> slot_tick 1000 240 \<and> slot_tick 1000 240 < 1000 \<and> slot_tick 1000 240 mod 256 = 240"
  using slot_tick_exact[of 240 1000] by simp

text \<open>The verdict PASS and its exact meaning.\<close>

definition park_tick :: "mem \<Rightarrow> nat" where
  "park_tick m = mem_get m 0x8108 0 OR push_bit 8 (mem_get m 0x8109 0)"

definition ring_word :: "mem \<Rightarrow> nat \<Rightarrow> nat" where
  "ring_word m slot = mem_get m (0x9000 + slot * 2) 0 OR push_bit 8 (mem_get m (0x9000 + slot * 2 + 1) 0)"

definition slot_present :: "mem \<Rightarrow> mem \<Rightarrow> nat \<Rightarrow> bool" where
  "slot_present a b slot \<longleftrightarrow> map_of a (0x9000 + slot * 2) \<noteq> None \<and> map_of b (0x9000 + slot * 2) \<noteq> None"

lemma pair_at_Inr:
  "pair_at m x = Inr v \<longleftrightarrow> map_of m x \<noteq> None \<and> map_of m (x + 1) \<noteq> None \<and>
     v = mem_get m x 0 OR push_bit 8 (mem_get m (x + 1) 0)"
  by (auto simp: pair_at_def mem_at_def mem_get_def split: option.splits)

lemma ring_slot_Inr:
  assumes "ring_slot a b slot = Inr r"
  shows "r = (if slot_present a b slot then Some (ring_word a slot, ring_word b slot) else None)"
  using assms
  by (auto simp: ring_slot_def Let_def slot_present_def ring_word_def pair_at_Inr split: sum.splits if_splits)

lemma sum_map_Inr_iff:
  "sum_map f xs = Inr ys \<Longrightarrow> length ys = length xs \<and> (\<forall>i<length xs. f (xs ! i) = Inr (ys ! i))"
proof (induction xs arbitrary: ys)
  case (Cons x xs)
  then obtain y zs where "f x = Inr y" "sum_map f xs = Inr zs" "ys = y # zs"
    by (auto split: sum.splits)
  with Cons.IH[of zs] show ?case by (auto simp: nth_Cons split: nat.split)
qed simp

lemma ring_slots:
  assumes "sum_map (ring_slot a b) [0..<256] = Inr slots"
  shows "slots = map (\<lambda>slot. if slot_present a b slot then Some (ring_word a slot, ring_word b slot) else None) [0..<256]"
proof (rule nth_equalityI)
  note s = sum_map_Inr_iff[OF assms]
  show "length slots = length (map (\<lambda>slot. if slot_present a b slot then Some (ring_word a slot, ring_word b slot) else None) [0..<256])"
    using s by (simp del: upt_rec_numeral)
  fix i assume "i < length slots"
  then have i: "i < 256" using s by (simp del: upt_rec_numeral)
  then have "ring_slot a b i = Inr (slots ! i)" using s by (simp del: upt_rec_numeral)
  from ring_slot_Inr[OF this] i
  show "slots ! i = map (\<lambda>slot. if slot_present a b slot then Some (ring_word a slot, ring_word b slot) else None) [0..<256] ! i"
    by (simp del: upt_rec_numeral)
qed

lemma slot_mismatches_Nil:
  "slot_mismatches tick (map f [0..<256]) = [] \<longleftrightarrow>
     (\<forall>slot<256. case f slot of None \<Rightarrow> True | Some (x, y) \<Rightarrow> x = y)"
proof -
  have "zip [0..<256] (map f [0..<256]) = map (\<lambda>i. (i, f i)) [0..<256]"
    by (simp add: zip_map2 zip_same_conv_map del: upt_rec_numeral)
  then have "slot_mismatches tick (map f [0..<256]) =
      concat (map (\<lambda>i. case f i of None \<Rightarrow> []
        | Some (x, y) \<Rightarrow> if x \<noteq> y then [(slot_tick tick i, i, x, y)] else []) [0..<256])"
    by (simp add: slot_mismatches_def comp_def del: upt_rec_numeral)
  moreover have "(case f i of None \<Rightarrow> [] | Some (x, y) \<Rightarrow> if x \<noteq> y then [(slot_tick tick i, i, x, y)] else []) = []
      \<longleftrightarrow> (case f i of None \<Rightarrow> True | Some (x, y) \<Rightarrow> x = y)" for i
    by (simp split: option.split prod.split)
  ultimately show ?thesis by (simp del: upt_rec_numeral) (simp add: Ball_def)
qed

text \<open>
  C32 (what a determinism PASS means): the gate passes only if both runs parked at the same tick,
  every ring slot that both dumps contain holds the same checksum, no compared cell of the
  settled state differs, and the number it counts as missing is the number of slots absent from
  a dump.
\<close>

theorem trace_pass_sound:
  assumes "trace_diff a b = Inr (Trace_pass missing)"
  shows "park_tick a = park_tick b \<and>
    (\<forall>slot < 256. slot_present a b slot \<longrightarrow> ring_word a slot = ring_word b slot) \<and>
    settled_diffs a b = [] \<and> missing = card {slot. slot < 256 \<and> \<not> slot_present a b slot}"
proof -
  let ?f = "\<lambda>slot. if slot_present a b slot then Some (ring_word a slot, ring_word b slot) else None"
  obtain ta tb slots where t: "pair_at a 0x8108 = Inr ta" "pair_at b 0x8108 = Inr tb" "ta = tb"
      "sum_map (ring_slot a b) [0..<256] = Inr slots" "settled_diffs a b = []" "slot_mismatches ta slots = []"
      "missing = length (filter (\<lambda>r. r = None) slots)"
    using assms unfolding trace_diff_def Let_def by (auto split: sum.splits if_splits simp del: upt_rec_numeral)
  have slots: "slots = map ?f [0..<256]" by (rule ring_slots[OF t(4)])
  have "\<forall>slot<256. case ?f slot of None \<Rightarrow> True | Some (x, y) \<Rightarrow> x = y"
    using t(6) unfolding slots slot_mismatches_Nil .
  then have "\<forall>slot < 256. slot_present a b slot \<longrightarrow> ring_word a slot = ring_word b slot" by auto
  moreover have "park_tick a = park_tick b" using t(1-3) by (simp add: pair_at_Inr park_tick_def)
  moreover have "missing = card {slot. slot < 256 \<and> \<not> slot_present a b slot}"
  proof -
    have "missing = length (filter (\<lambda>slot. \<not> slot_present a b slot) [0..<256])"
      unfolding t(7) slots by (simp add: filter_map comp_def del: upt_rec_numeral)
    also have "\<dots> = card (set (filter (\<lambda>slot. \<not> slot_present a b slot) [0..<256]))"
      by (rule distinct_card [symmetric]) (simp del: upt_rec_numeral)
    finally show ?thesis by (simp add: conj_commute del: upt_rec_numeral)
  qed
  ultimately show ?thesis using t(5) by blast
qed


definition mem_demo :: "nat \<Rightarrow> mem" where
  "mem_demo x = [(0x8108, 0), (0x8109, 4), (0x9000, x), (0x9001, 0)]"

lemma mem_demo_slots:
  "ring_slot (mem_demo x) (mem_demo y) slot = Inr (if slot = 0 then Some (x, y) else None)"
  by (auto simp: ring_slot_def mem_demo_def pair_at_def mem_at_def)

lemma mem_demo_pass: "trace_diff (mem_demo 7) (mem_demo 7) = Inr (Trace_pass 255)"
proof -
  have slots: "sum_map (ring_slot (mem_demo 7) (mem_demo 7)) [0..<256] =
      Inr (map (\<lambda>slot. if slot = 0 then Some (7, 7) else None) [0..<256])"
    by (rule sum_map_Inr) (rule mem_demo_slots)
  have "slot_mismatches 1024 (map (\<lambda>slot. if slot = 0 then Some (7, 7) else None) [0..<256]) = []"
    by (simp add: slot_mismatches_Nil)
  moreover have "settled_diffs (mem_demo 7) (mem_demo 7) = []" by (simp add: settled_diffs_def)
  moreover have "pair_at (mem_demo 7) 0x8108 = Inr 1024"
    by (simp add: pair_at_def mem_at_def mem_demo_def)
  moreover have "length (filter (\<lambda>r. r = None) (map (\<lambda>slot. if slot = 0 then Some (7 :: nat, 7 :: nat) else None) [0..<256])) = 255"
  proof -
    have "[0..<256] = 0 # [1..<256 :: nat]" by (simp add: upt_conv_Cons)
    moreover have "filter (\<lambda>slot. 0 < slot) [1..<256 :: nat] = [1..<256]" by (rule filter_True) auto
    ultimately show ?thesis by (simp add: filter_map comp_def del: upt_rec_numeral)
  qed
  moreover have "map_of (mem_demo 7) 0x8108 \<noteq> None" by (simp add: mem_demo_def)
  ultimately show ?thesis unfolding trace_diff_def slots Let_def by (simp del: upt_rec_numeral)
qed

theorem trace_pass_sound_witness:
  "park_tick (mem_demo 7) = park_tick (mem_demo 7) \<and> card {slot. slot < 256 \<and> \<not> slot_present (mem_demo 7) (mem_demo 7) slot} = 255"
  using trace_pass_sound[OF mem_demo_pass] by simp

text \<open>
  Remark (a PASS may compare nothing): missing ring slots only produce a warning, so two logs
  without any ring dump pass the gate, with the message that all 256 compared ticks have
  identical checksums.
\<close>

theorem trace_pass_vacuous:
  "trace_diff [(0x8108, 0), (0x8109, 4)] [(0x8108, 0), (0x8109, 4)] = Inr (Trace_pass 256)"
proof -
  let ?m = "[(0x8108, 0), (0x8109, 4)] :: mem"
  have "ring_slot ?m ?m slot = Inr None" if "slot < 256" for slot
    using that by (auto simp: ring_slot_def)
  then have slots: "sum_map (ring_slot ?m ?m) [0..<256] = Inr (map (\<lambda>_. None) [0..<256])"
    by (intro sum_map_Inr) (simp del: upt_rec_numeral)
  have "slot_mismatches 1024 (map (\<lambda>_. None) [0..<256]) = []" by (simp add: slot_mismatches_Nil)
  moreover have "settled_diffs ?m ?m = []" by (simp add: settled_diffs_def)
  moreover have "pair_at ?m 0x8108 = Inr 1024" by (simp add: pair_at_def mem_at_def)
  ultimately show ?thesis unfolding trace_diff_def slots Let_def by (simp del: upt_rec_numeral)
qed

text \<open>
  Remark (cell_diff shows every settled failure): every address for which the determinism gate
  reports a settled-state difference is listed by cell_diff with the two values.
\<close>

theorem settled_in_cell_diff:
  assumes "x \<in> set (settled_diffs a b)"
  shows "(x, mem_get a x 0, mem_get b x 0) \<in> set (cell_diffs a b) \<and> mem_get a x 0 \<noteq> mem_get b x 0"
proof -
  from assms have x: "x \<in> set (common a b)" "map_of a x \<noteq> map_of b x"
    "0x015D \<le> x \<and> x < 0x01F0 \<or> 0x0315 \<le> x \<and> x < 0x35E"
    by (auto simp: settled_diffs_def)
  have "set (common a b) = set (map fst a) \<inter> set (map fst b)" by (simp add: common_def)
  with x(1) obtain v w where "map_of a x = Some v" "map_of b x = Some w"
    using weak_map_of_SomeI by (metis IntD1 IntD2 map_of_eq_None_iff not_None_eq list.set_map)
  with x(2) have "mem_get a x 0 \<noteq> mem_get b x 0" by (simp add: mem_get_def)
  moreover have "0x015D \<le> x \<and> x \<le> 0x01EF \<or> 0x02F0 \<le> x \<and> x \<le> 0x035F" using x(3) by auto
  ultimately show ?thesis using x(1,2) by (auto simp: cell_diffs_def)
qed

theorem settled_in_cell_diff_witness: "(0x160, 1, 2) \<in> set (cell_diffs [(0x160, 1)] [(0x160, 2)])"
  using settled_in_cell_diff[where x = "0x160" and a = "[(0x160, 1)]" and b = "[(0x160, 2)]"]
  by (simp add: settled_diffs_def common_def anim_field_def mem_get_def)

text \<open>
  Remark (replay tables): the generated table always has 768 rows of four bytes; its length symbol
  is at most 768; and the row of a tick holds the low bytes of the four recorded words, or the
  idle values for words that were not dumped.
\<close>

theorem mk_replay_table:
  "fst (mk_replay m) \<le> REC_CAP \<and> length (snd (mk_replay m)) = REC_CAP \<and>
   list_all (\<lambda>t. snd (mk_replay m) ! t =
     [mem_get m (0x9000 + 4 * t) 0x40 mod 256, mem_get m (0x9000 + 4 * t + 1) 0x40 mod 256,
      mem_get m (0x9000 + 4 * t + 2) 0 mod 256, mem_get m (0x9000 + 4 * t + 3) 0 mod 256]) [0..<REC_CAP]"
  by (auto simp: mk_replay_def Let_def list_all_iff and_low_bits mult.commute)

text \<open>
  Remark (the destination phase): the assertion accepts a log exactly when it is in the live phase
  with both seats confirmed on different boxers and some object is populated; it raises
  TypeError instead when everything else holds but a pick was not dumped.
\<close>

theorem check_phase_exact:
  "(check_phase m = Inr [] \<longleftrightarrow>
     (\<exists>l h x y p q. map_of m 0x80C0 = Some l \<and> map_of m 0x80C1 = Some h \<and> l OR push_bit 8 h = BX_HTBL_LIVE \<and>
        map_of m 0x1AC = Some x \<and> x \<noteq> 0 \<and> map_of m 0x1AD = Some y \<and> y \<noteq> 0 \<and>
        map_of m 0x1AE = Some p \<and> map_of m 0x1AF = Some q \<and> p \<noteq> q \<and>
        list_ex (\<lambda>a. mem_get m a 0 \<noteq> 0) [0x31D..<0x35D])) \<and>
   (check_phase m = Inl TypeError \<longleftrightarrow>
     (\<exists>l h x y. map_of m 0x80C0 = Some l \<and> map_of m 0x80C1 = Some h \<and> l OR push_bit 8 h = BX_HTBL_LIVE \<and>
        map_of m 0x1AC = Some x \<and> x \<noteq> 0 \<and> map_of m 0x1AD = Some y \<and> y \<noteq> 0 \<and>
        (map_of m 0x1AE = None \<or> map_of m 0x1AF = None) \<and>
        list_ex (\<lambda>a. mem_get m a 0 \<noteq> 0) [0x31D..<0x35D]))"
proof -
  define objs where "objs \<longleftrightarrow> list_ex (\<lambda>a. mem_get m a 0 \<noteq> 0) [0x31D..<0x35D]"
  have neq: "BX_HTBL_LIVE \<noteq> BX_HTBL_PROMPT" by (simp add: BX_HTBL_LIVE_def BX_HTBL_PROMPT_def)
  show ?thesis
    unfolding check_phase_def objs_def [symmetric] Let_def
    by (cases "m = []"; cases "map_of m 0x80C0"; cases "map_of m 0x80C1"; cases "map_of m 0x1AC";
        cases "map_of m 0x1AD"; cases "map_of m 0x1AE"; cases "map_of m 0x1AF"; cases objs)
       (auto simp: neq)
qed

end
