(* ===== verification/Peers.thy ===== *)
theory Peers
  imports Wire
begin

text \<open>
  What the Python peers of the relay share (tools/bbnet_client_sim.py, ghost_peer.py,
  server_diff.py, soak.py, test/lobby_idlers.py): the client side \<open>frame\<close>, the
  length-prefixed reader that has no length check, results of \<open>socket.recv\<close>, and Python's
  UTF-8 \<open>encode\<close> and \<open>decode\<close>.  A decoded text is the list of its code points.
\<close>

section \<open>Frames\<close>

text \<open>
  The client's \<open>frame\<close> has no assertion: \<open>bytes([len(body)])\<close> raises ValueError
  when the body has more than 255 bytes.
\<close>

definition peer_frame :: "byte \<Rightarrow> byte list \<Rightarrow> exn + byte list" where
  "peer_frame t payload =
     (let body = [t] @ payload in
      case to_bytes [int (length body)] of Inl e \<Rightarrow> Inl e | Inr n \<Rightarrow> Inr (n @ body))"

lemma peer_frame_ok: "length p < 255 \<Longrightarrow> peer_frame t p = Inr (encode_msg (t, p))"
  by (simp add: peer_frame_def encode_msg_def Let_def)

lemma peer_frame_too_long: "255 \<le> length p \<Longrightarrow> peer_frame t p = Inl ValueError"
  by (simp add: peer_frame_def Let_def)

text \<open>
  One look at the buffer: a frame is complete when the buffer holds the number of bytes its
  first byte announces; a zero length byte is a complete frame without a type, on which
  \<open>body[0]\<close> raises IndexError.
\<close>

definition peer_read :: "byte list \<Rightarrow> (byte \<times> byte list) read" where
  "peer_read buf =
     (if buf = [] \<or> length buf < unat (buf ! 0) + 1 then More
      else if unat (buf ! 0) = 0 then Bad
      else let n = unat (buf ! 0) + 1; body = List.drop 1 (take n buf)
           in Msg (body ! 0, List.drop 1 body) (List.drop n buf))"

lemma unat_len_byte: "length p < 255 \<Longrightarrow> unat (word_of_nat (Suc (length p)) :: byte) = Suc (length p)"
  by (simp add: unat_of_nat del: of_nat_Suc)

lemma peer_read_encoded:
  assumes "length (snd m) < 255"
  shows "peer_read (encode_msg m @ rest) = Msg m rest"
proof -
  have n: "unat (word_of_nat (Suc (length (snd m))) :: byte) = Suc (length (snd m))"
    using assms by (rule unat_len_byte)
  then show ?thesis by (cases m) (simp add: peer_read_def encode_msg_def Let_def)
qed

interpretation peer_reader: frame_codec peer_read encode_msg "\<lambda>m. length (snd m) < 255"
proof unfold_locales
  show "peer_read xs = Msg m rest \<Longrightarrow> peer_read (xs @ ys) = Msg m (rest @ ys)" for xs ys m rest
    by (auto simp: peer_read_def Let_def nth_append split: if_splits)
  show "peer_read xs = Bad \<Longrightarrow> peer_read (xs @ ys) = Bad" for xs ys
    by (auto simp: peer_read_def Let_def nth_append split: if_splits)
  show "peer_read xs = Msg m rest \<Longrightarrow> length rest < length xs" for xs m rest
    by (auto simp: peer_read_def Let_def split: if_splits)
  show "length (snd m) < 255 \<Longrightarrow> peer_read (encode_msg m @ rest) = Msg m rest" for m rest
    by (rule peer_read_encoded)
  show "peer_read [] = More" by (simp add: peer_read_def)
qed

lemma peer_read_More_encoded:
  assumes "length (snd m) < 255" "buf @ more = encode_msg m @ rest" "length buf < length (encode_msg m)"
  shows "peer_read buf = More"
proof (cases buf)
  case (Cons b bs)
  then have b: "b = word_of_nat (Suc (length (snd m)))" using assms(2) by (simp add: encode_msg_def)
  have "length buf < unat b + 1"
    using assms(3) unfolding b unat_len_byte[OF assms(1)] by (simp add: encode_msg_def)
  then show ?thesis by (simp add: peer_read_def Cons)
qed (simp add: peer_read_def)

section \<open>Text\<close>

type_synonym ustr = "nat list"

abbreviation codepoints :: "string \<Rightarrow> ustr" where
  "codepoints s \<equiv> map of_char s"

definition continues :: "byte \<Rightarrow> bool" where
  "continues b \<longleftrightarrow> 0x80 \<le> unat b \<and> unat b \<le> 0xBF"

definition put_cp :: "nat \<Rightarrow> exn + ustr \<Rightarrow> exn + ustr" where
  "put_cp n r = (case r of Inl e \<Rightarrow> Inl e | Inr t \<Rightarrow> Inr (n # t))"

text \<open>\<open>bytes.decode()\<close>: strict UTF-8, without overlong forms and surrogates.\<close>

fun utf8_decode :: "byte list \<Rightarrow> exn + ustr" where
  "utf8_decode [] = Inr []"
| "utf8_decode (a # rest) =
     (let x = unat a in
      if x < 0x80 then put_cp x (utf8_decode rest)
      else if 0xC2 \<le> x \<and> x \<le> 0xDF then
        (case rest of
           b # r \<Rightarrow> if continues b then put_cp (64 * (x - 0xC0) + (unat b - 0x80)) (utf8_decode r)
                    else Inl UnicodeDecodeError
         | _ \<Rightarrow> Inl UnicodeDecodeError)
      else if 0xE0 \<le> x \<and> x \<le> 0xEF then
        (case rest of
           b # c # r \<Rightarrow>
             if continues b \<and> continues c \<and> (x = 0xE0 \<longrightarrow> 0xA0 \<le> unat b) \<and> (x = 0xED \<longrightarrow> unat b \<le> 0x9F)
             then put_cp (4096 * (x - 0xE0) + 64 * (unat b - 0x80) + (unat c - 0x80)) (utf8_decode r)
             else Inl UnicodeDecodeError
         | _ \<Rightarrow> Inl UnicodeDecodeError)
      else if 0xF0 \<le> x \<and> x \<le> 0xF4 then
        (case rest of
           b # c # d # r \<Rightarrow>
             if continues b \<and> continues c \<and> continues d \<and>
                (x = 0xF0 \<longrightarrow> 0x90 \<le> unat b) \<and> (x = 0xF4 \<longrightarrow> unat b \<le> 0x8F)
             then put_cp (262144 * (x - 0xF0) + 4096 * (unat b - 0x80) + 64 * (unat c - 0x80) + (unat d - 0x80))
                    (utf8_decode r)
             else Inl UnicodeDecodeError
         | _ \<Rightarrow> Inl UnicodeDecodeError)
      else Inl UnicodeDecodeError)"

text \<open>\<open>str.encode()\<close> of a text of code points below 256.\<close>

definition utf8_encode :: "string \<Rightarrow> byte list" where
  "utf8_encode s = concat (map (\<lambda>c. let n = of_char c in
     if n < 0x80 then [word_of_nat n] else [word_of_nat (0xC0 + n div 64), word_of_nat (0x80 + n mod 64)]) s)"

lemma utf8_encode_ascii: "list_all ascii_char s \<Longrightarrow> utf8_encode s = map byte_of_char s"
  by (induction s) (simp_all add: utf8_encode_def ascii_char_def byte_of_char_def)

lemma utf8_decode_ascii: "list_all (\<lambda>b. unat b < 128) bs \<Longrightarrow> utf8_decode bs = Inr (map unat bs)"
  by (induction bs) (simp_all add: Let_def put_cp_def)

lemma unat_byte_of_char: "unat (byte_of_char c) = of_char c"
  by (simp add: byte_of_char_def unat_of_nat)

text \<open>A name on the wire, as the peers decode it.\<close>

definition field_text :: "byte list \<Rightarrow> exn + ustr" where
  "field_text bs = utf8_decode (rstrip {0} bs)"

lemma field_text_zeros: "field_text (replicate n 0) = Inr []"
proof -
  have "rstrip {0 :: byte} ([] @ replicate n 0) = rstrip {0} []" by (rule rstrip_replicate) simp
  then show ?thesis by (simp only: field_text_def append_Nil rstrip_id utf8_decode.simps simp_thms)
qed

lemma rstrip_pad8:
  assumes "valid_name n"
  shows "rstrip {0} (pad8 (map byte_of_char n)) = map byte_of_char n"
proof -
  have len: "length n \<le> 8" "n \<noteq> []" using assms by (auto simp: valid_name_def)
  have "last n \<in> set NAME_CHARS" using assms len by (auto simp: valid_name_def)
  then have "ascii_char (last n) \<and> last n \<noteq> CHR 0x00" by (auto dest: name_char_ascii)
  then have "(of_char (last n) :: nat) \<noteq> of_char (CHR 0x00)" by (simp only: of_char_eq_iff simp_thms)
  then have "byte_of_char (last n) \<noteq> 0" unfolding unat_byte_of_char [symmetric] by (auto simp: byte_of_char_def)
  then show ?thesis using len by (simp add: pad8_def rstrip_replicate rstrip_id last_map)
qed

lemma field_text_name:
  assumes "valid_name n"
  shows "field_text (pad8 (map byte_of_char n)) = Inr (codepoints n)"
proof -
  have "list_all ascii_char n" by (rule valid_name_ascii[OF assms])
  then have "list_all (\<lambda>b. unat b < 128) (map byte_of_char n)"
    by (auto simp: list_all_iff ascii_char_def unat_byte_of_char)
  then show ?thesis
    by (simp add: field_text_def rstrip_pad8[OF assms] utf8_decode_ascii unat_byte_of_char comp_def)
qed

lemma codepoints_eq_iff: "codepoints m = codepoints n \<longleftrightarrow> m = n"
  by (simp add: inj_map_eq_map inj_def)

end
