(* ===== verification/Client_Sim.thy ===== *)
theory Client_Sim
  imports Relay_Props Peers
begin

text \<open>
  The simulated console of tools/bbnet_client_sim.py: class Cli with its frame reader,
  \<open>expect\<close>, \<open>drain_lobby\<close>, \<open>lobby\<close> and \<open>expect_silence\<close>, and the payload
  decoders \<open>lobby_status\<close> and \<open>roster_names\<close> with which the protocol gate looks at the
  server's answers.  The socket is the script of the results its \<open>recv\<close> calls will have; an
  exhausted script times out.  The last section puts the client behind the relay: the byte
  stream the server queues for a client, cut into segments in any way, is what the client reads.
\<close>

section \<open>The client\<close>

definition sim_T :: "string \<Rightarrow> byte option" where
  "sim_T = map_of
     [(''HELLO'', 0x01), (''LIST'', 0x02), (''LOBBY'', 0x03), (''JOIN'', 0x04), (''START'', 0x05),
      (''INPUT'', 0x06), (''CRC'', 0x07), (''STATE'', 0x08), (''RESYNC'', 0x09), (''BYE'', 0x0A),
      (''PEER_LEFT'', 0x0B), (''PING'', 0x0C), (''PONG'', 0x0D), (''ROOM'', 0x0E), (''GO'', 0x0F)]"

text \<open>A result of \<open>recv\<close>; \<open>Got []\<close> is the end of the stream.\<close>

datatype sock_recv = Got "byte list" | Timed_out | Sock_error

record cli =
  cli_name :: string
  cli_buf :: "byte list"
  cli_in :: "sock_recv list"
  cli_out :: "byte list"
  cli_up :: bool

definition sim_pad :: "string \<Rightarrow> byte list" where
  "sim_pad name = pad8 (utf8_encode name)"

definition st :: "nat \<Rightarrow> nat \<Rightarrow> nat" where
  "st SEATS n = (if n \<ge> SEATS then 0x80 OR n else n)"

text \<open>\<open>sendall\<close>, which raises OSError when the connection is down.\<close>

definition cli_send :: "byte list \<Rightarrow> cli \<Rightarrow> (exn + unit) \<times> cli" where
  "cli_send data c = (if cli_up c then (Inr (), c\<lparr>cli_out := cli_out c @ data\<rparr>) else (Inl OSError, c))"

text \<open>The constructor on an established connection: it sends HELLO.\<close>

definition Cli_init :: "string \<Rightarrow> int \<Rightarrow> sock_recv list \<Rightarrow> exn + cli" where
  "Cli_init name ver script =
     (case to_bytes [ver] of Inl e \<Rightarrow> Inl e
      | Inr v \<Rightarrow> (case peer_frame (the (sim_T ''HELLO'')) (v @ utf8_encode name) of Inl e \<Rightarrow> Inl e
        | Inr data \<Rightarrow> (case cli_send data \<lparr>cli_name = name, cli_buf = [], cli_in = script, cli_out = [], cli_up = True\<rparr>
                       of (Inl e, _) \<Rightarrow> Inl e | (Inr _, c) \<Rightarrow> Inr c)))"

text \<open>The loop of \<open>recv_frame\<close> on the buffer and the script.\<close>

fun recv_loop :: "byte list \<Rightarrow> sock_recv list \<Rightarrow> (exn + byte \<times> byte list) \<times> byte list \<times> sock_recv list" where
  "recv_loop buf script =
     (if buf \<noteq> [] \<and> length buf \<ge> unat (buf ! 0) + 1 then
        let n = unat (buf ! 0) + 1; body = List.drop 1 (take n buf)
        in (if body = [] then Inl IndexError else Inr (body ! 0, List.drop 1 body), List.drop n buf, script)
      else case script of
          [] \<Rightarrow> (Inl TimeoutError, buf, [])
        | Timed_out # rest \<Rightarrow> (Inl TimeoutError, buf, rest)
        | Sock_error # rest \<Rightarrow> (Inl OSError, buf, rest)
        | Got chunk # rest \<Rightarrow> if chunk = [] then (Inl EOFError, buf, rest) else recv_loop (buf @ chunk) rest)"

definition recv_frame :: "cli \<Rightarrow> (exn + byte \<times> byte list) \<times> cli" where
  "recv_frame c =
     (case recv_loop (cli_buf c) (cli_in c) of (r, buf, script) \<Rightarrow> (r, c\<lparr>cli_buf := buf, cli_in := script\<rparr>))"

definition expect :: "string \<Rightarrow> cli \<Rightarrow> (exn + byte list) \<times> cli" where
  "expect ftype c =
     (case recv_frame c of
        (Inl e, c1) \<Rightarrow> (Inl e, c1)
      | (Inr (t, p), c1) \<Rightarrow>
          (case sim_T ftype of
             None \<Rightarrow> (Inl KeyError, c1)
           | Some t' \<Rightarrow> if t = t' then (Inr p, c1) else (Inl AssertionError, c1)))"

definition lobby :: "cli \<Rightarrow> (exn + byte list) \<times> cli" where
  "lobby c =
     (case peer_frame (the (sim_T ''LIST'')) [] of
        Inl e \<Rightarrow> (Inl e, c)
      | Inr data \<Rightarrow> (case cli_send data c of (Inl e, c1) \<Rightarrow> (Inl e, c1) | (Inr _, c1) \<Rightarrow> expect ''LOBBY'' c1))"

definition expect_silence :: "cli \<Rightarrow> (exn + unit) \<times> cli" where
  "expect_silence c =
     (case recv_frame c of
        (Inr _, c1) \<Rightarrow> (Inl AssertionError, c1)
      | (Inl TimeoutError, c1) \<Rightarrow> (Inr (), c1)
      | (Inl e, c1) \<Rightarrow> (Inl e, c1))"

text \<open>
  The loop of \<open>drain_lobby\<close> with the last payload seen; every round consumes a frame, so
  the bytes in the buffer and in the script bound the rounds.
\<close>

definition pending :: "byte list \<Rightarrow> sock_recv list \<Rightarrow> nat" where
  "pending buf script = length buf + sum_list (map (\<lambda>r. case r of Got d \<Rightarrow> length d | _ \<Rightarrow> 0) script)"

declare recv_loop.simps [simp del]

lemma recv_loop_pending:
  assumes "recv_loop buf script = (Inr m, buf', script')"
  shows "pending buf' script' < pending buf script"
  using assms
proof (induction buf script rule: recv_loop.induct)
  case (1 buf script)
  show ?case
  proof (cases "buf \<noteq> [] \<and> length buf \<ge> unat (buf ! 0) + 1")
    case True
    with "1.prems" have "buf' = List.drop (unat (buf ! 0) + 1) buf" "script' = script"
      by (simp_all add: recv_loop.simps[of buf] Let_def split: if_splits)
    with True show ?thesis by (simp add: pending_def)
  next
    case False
    with "1.prems" obtain chunk rest where s: "script = Got chunk # rest" "chunk \<noteq> []"
        "recv_loop (buf @ chunk) rest = (Inr m, buf', script')"
      by (simp add: recv_loop.simps[of buf] split: list.splits sock_recv.splits if_splits)
    from "1.IH"[OF False s(1) _ s(2,3)] have "pending buf' script' < pending (buf @ chunk) rest" by simp
    then show ?thesis by (simp add: s(1) pending_def)
  qed
qed

function drain_lobby_loop :: "byte list option \<Rightarrow> byte list \<Rightarrow> sock_recv list
    \<Rightarrow> (exn + byte list option) \<times> byte list \<times> sock_recv list" where
  "drain_lobby_loop seen buf script =
     (case recv_loop buf script of
        (Inl e, buf1, script1) \<Rightarrow> (if e = TimeoutError then Inr seen else Inl e, buf1, script1)
      | (Inr (t, p), buf1, script1) \<Rightarrow>
          if sim_T ''LOBBY'' = Some t then drain_lobby_loop (Some p) buf1 script1
          else (case peer_frame t p of
                  Inl e \<Rightarrow> (Inl e, buf1, script1)
                | Inr data \<Rightarrow> (Inr seen, data @ buf1, script1)))"
  by pat_completeness auto
termination
  by (relation "measure (\<lambda>(l, buf, script). pending buf script)") (auto dest: recv_loop_pending[OF sym])

declare drain_lobby_loop.simps [simp del]

definition drain_lobby :: "cli \<Rightarrow> (exn + byte list option) \<times> cli" where
  "drain_lobby c =
     (case drain_lobby_loop None (cli_buf c) (cli_in c) of
        (r, buf, script) \<Rightarrow> (r, c\<lparr>cli_buf := buf, cli_in := script\<rparr>))"

section \<open>Decoders\<close>

fun lobby_scan :: "byte list \<Rightarrow> ustr \<Rightarrow> nat list \<Rightarrow> exn + byte option" where
  "lobby_scan payload name [] = Inr None"
| "lobby_scan payload name (i # ks) =
     (let e = take 9 (List.drop (1 + 9 * i) payload) in
      case field_text (take 8 e) of
        Inl x \<Rightarrow> Inl x
      | Inr nm \<Rightarrow>
          if nm = name then (if length e > 8 then Inr (Some (e ! 8)) else Inl IndexError)
          else lobby_scan payload name ks)"

definition lobby_status :: "byte list \<Rightarrow> ustr \<Rightarrow> exn + byte option" where
  "lobby_status payload name =
     (if payload = [] then Inl IndexError else lobby_scan payload name [0..<unat (payload ! 0)])"

definition roster_names :: "byte list \<Rightarrow> exn + ustr list" where
  "roster_names raw = sum_map (\<lambda>i. field_text (take 8 (List.drop (i * 8) raw))) [0..<4]"


section \<open>Reading a stream\<close>

lemma recv_loop_read:
  "recv_loop buf script =
     (case peer_read buf of
        Msg m rest \<Rightarrow> (Inr m, rest, script)
      | Bad \<Rightarrow> (Inl IndexError, List.drop 1 buf, script)
      | More \<Rightarrow>
          (case script of
             [] \<Rightarrow> (Inl TimeoutError, buf, [])
           | Timed_out # rest \<Rightarrow> (Inl TimeoutError, buf, rest)
           | Sock_error # rest \<Rightarrow> (Inl OSError, buf, rest)
           | Got chunk # rest \<Rightarrow> if chunk = [] then (Inl EOFError, buf, rest) else recv_loop (buf @ chunk) rest))"
proof (cases "buf \<noteq> [] \<and> length buf \<ge> unat (buf ! 0) + 1")
  case True
  then obtain b bs where buf: "buf = b # bs" by (cases buf) auto
  show ?thesis
  proof (cases "unat b = 0")
    case False
    then have "take (unat b) bs \<noteq> []" using True by (auto simp: buf)
    with True False show ?thesis by (subst recv_loop.simps) (simp add: buf peer_read_def Let_def)
  qed (use True in \<open>subst recv_loop.simps, simp add: buf peer_read_def\<close>)
next
  case False
  then have "buf = [] \<or> length buf < unat (buf ! 0) + 1" by linarith
  then have "peer_read buf = More" by (simp add: peer_read_def)
  with False show ?thesis by (subst recv_loop.simps) (simp only: if_False read.case)
qed

abbreviation whole :: "byte list list \<Rightarrow> bool" where
  "whole ds \<equiv> list_all (\<lambda>d. d \<noteq> []) ds"

lemma recv_loop_frame:
  assumes "length (snd m) < 255" "whole ds" "buf @ concat ds = encode_msg m @ rest"
  shows "\<exists>buf' ds'. recv_loop buf (map Got ds @ script) = (Inr m, buf', map Got ds' @ script) \<and>
    buf' @ concat ds' = rest \<and> whole ds'"
  using assms
proof (induction ds arbitrary: buf)
  case Nil
  then have "peer_read buf = Msg m rest" by (simp add: peer_read_encoded)
  with Nil show ?case by (subst recv_loop_read) simp
next
  case (Cons d ds)
  show ?case
  proof (cases "length buf < length (encode_msg m)")
    case True
    then have "peer_read buf = More"
      using peer_read_More_encoded[OF Cons.prems(1), of buf "concat (d # ds)" rest] Cons.prems(3) by simp
    moreover have "d \<noteq> []" using Cons.prems(2) by simp
    moreover have "\<exists>buf' ds'. recv_loop (buf @ d) (map Got ds @ script) = (Inr m, buf', map Got ds' @ script) \<and>
        buf' @ concat ds' = rest \<and> whole ds'"
      using Cons.IH[of "buf @ d"] Cons.prems by simp
    ultimately show ?thesis by (subst recv_loop_read) simp
  next
    case False
    from Cons.prems(3) obtain us where
      "buf = encode_msg m @ us \<and> us @ concat (d # ds) = rest \<or> buf @ us = encode_msg m \<and> concat (d # ds) = us @ rest"
      unfolding append_eq_append_conv2 by blast
    with False obtain r where r: "buf = encode_msg m @ r" "r @ concat (d # ds) = rest"
      by (metis append_Nil2 append_eq_conv_conj length_append linorder_not_less le_add1 self_append_conv2 take_all_iff)
    then have "peer_read buf = Msg m r" by (simp add: peer_read_encoded Cons.prems(1))
    moreover have "whole (d # ds)" by (rule Cons.prems(2))
    ultimately show ?thesis
      using r(2) by (intro exI[of _ r] exI[of _ "d # ds"]) (subst recv_loop_read, simp)
  qed
qed

lemma recv_loop_exhausted: "peer_read buf = More \<Longrightarrow> recv_loop buf [] = (Inl TimeoutError, buf, [])"
  by (subst recv_loop_read) simp

text \<open>A client that has nothing buffered and whose socket will deliver \<open>ds\<close>.\<close>

definition ready :: "cli \<Rightarrow> byte list list \<Rightarrow> bool" where
  "ready c ds \<longleftrightarrow> cli_buf c = [] \<and> cli_in c = map Got ds \<and> whole ds"

lemma ready_expect:
  assumes "ready c ds" "concat ds = encode_msg (t, p)" "length p < 255" "sim_T ftype = Some t"
  shows "\<exists>c1. expect ftype c = (Inr p, c1) \<and> ready c1 []"
proof -
  obtain buf' ds' where r: "recv_loop [] (map Got ds @ []) = (Inr (t, p), buf', map Got ds' @ [])"
      "buf' @ concat ds' = []" "whole ds'"
    using recv_loop_frame[of "(t, p)" ds "[]" "[]" "[]"] assms by (auto simp: ready_def)
  then have "ds' = []" "buf' = []" by (cases ds'; simp)+
  with r(1) assms(1,4) show ?thesis
    by (simp add: expect_def recv_frame_def ready_def)
qed

text \<open>
  C33 (reassembly in the client): when the buffered bytes and the segments still to come start
  with the frame of a message, \<open>recv_frame\<close> returns that message, however the bytes were
  cut, and exactly the bytes behind it remain, in the buffer and in the socket.
\<close>

theorem recv_frame_reassembles:
  assumes "length (snd m) < 255" "whole ds" "cli_in c = map Got ds @ script"
    and "cli_buf c @ concat ds = encode_msg m @ rest"
  shows "\<exists>c1 ds'. recv_frame c = (Inr m, c1) \<and> cli_in c1 = map Got ds' @ script \<and>
    cli_buf c1 @ concat ds' = rest \<and> cli_out c1 = cli_out c"
  using recv_loop_frame[OF assms(1,2,4), of script] assms(3) by (fastforce simp: recv_frame_def)

theorem recv_frame_reassembles_witness:
  "\<exists>c1 ds'. recv_frame \<lparr>cli_name = ''EVE'', cli_buf = [2], cli_in = [Got [13], Got [7, 1], Got [13]], cli_out = [], cli_up = True\<rparr>
      = (Inr (13, [7]), c1) \<and> cli_in c1 = map Got ds' \<and> cli_buf c1 @ concat ds' = [1, 13] \<and> cli_out c1 = []"
  using recv_frame_reassembles[of "(13, [7])" "[[13], [7, 1], [13]]"
      "\<lparr>cli_name = ''EVE'', cli_buf = [2], cli_in = [Got [13], Got [7, 1], Got [13]], cli_out = [], cli_up = True\<rparr>" "[]" "[1, 13]"]
  by (simp add: encode_msg_def)


lemma drain_lobby_loop_lobbies:
  assumes "list_all (\<lambda>p. length p < 255) ps" "fst m \<noteq> T_LOBBY" "length (snd m) < 255" "whole ds"
    and "buf @ concat ds = concat (map (\<lambda>p. encode_msg (T_LOBBY, p)) ps) @ encode_msg m @ rest"
  shows "\<exists>buf' ds'. drain_lobby_loop seen buf (map Got ds @ script)
      = (Inr (if ps = [] then seen else Some (List.last ps)), buf', map Got ds' @ script) \<and>
    buf' @ concat ds' = encode_msg m @ rest"
  using assms
proof (induction ps arbitrary: seen buf ds)
  case Nil
  obtain buf' ds' where r: "recv_loop buf (map Got ds @ script) = (Inr m, buf', map Got ds' @ script)"
      "buf' @ concat ds' = rest"
    using recv_loop_frame[OF Nil.prems(3,4), of buf rest script] Nil.prems(5) by auto
  have "peer_frame (fst m) (snd m) = Inr (encode_msg m)" using Nil.prems(3) by (simp add: peer_frame_ok)
  with Nil.prems(2) r show ?case
    by (cases m) (subst drain_lobby_loop.simps, auto simp: sim_T_def T_LOBBY_def)
next
  case (Cons p ps)
  obtain buf' ds' where r: "recv_loop buf (map Got ds @ script) = (Inr (T_LOBBY, p), buf', map Got ds' @ script)"
      "buf' @ concat ds' = concat (map (\<lambda>p. encode_msg (T_LOBBY, p)) ps) @ encode_msg m @ rest" "whole ds'"
    using recv_loop_frame[of "(T_LOBBY, p)" ds buf "concat (map (\<lambda>p. encode_msg (T_LOBBY, p)) ps) @ encode_msg m @ rest" script]
      Cons.prems by auto
  obtain b2 d2 where "drain_lobby_loop (Some p) buf' (map Got ds' @ script)
      = (Inr (if ps = [] then Some p else Some (List.last ps)), b2, map Got d2 @ script)"
      "b2 @ concat d2 = encode_msg m @ rest"
    using Cons.IH[OF _ Cons.prems(2,3) r(3,2), of "Some p"] Cons.prems(1) by auto
  moreover have "sim_T ''LOBBY'' = Some T_LOBBY" by (simp add: sim_T_def T_LOBBY_def)
  ultimately show ?case
    by (intro exI[of _ b2] exI[of _ d2]) (subst drain_lobby_loop.simps, simp add: r(1))
qed

text \<open>
  Remark (draining the lobby): when LOBBY frames and then another frame are to come,
  \<open>drain_lobby\<close> returns the payload of the last of them and puts the other frame back, so
  that what remains to be read is that frame and the bytes behind it.
\<close>

theorem drain_lobby_last:
  assumes "list_all (\<lambda>p. length p < 255) ps" "fst m \<noteq> T_LOBBY" "length (snd m) < 255" "whole ds"
    and "cli_in c = map Got ds @ script"
    and "cli_buf c @ concat ds = concat (map (\<lambda>p. encode_msg (T_LOBBY, p)) ps) @ encode_msg m @ rest"
  shows "\<exists>c1 ds'. drain_lobby c = (Inr (if ps = [] then None else Some (List.last ps)), c1) \<and>
    cli_in c1 = map Got ds' @ script \<and> cli_buf c1 @ concat ds' = encode_msg m @ rest"
  using drain_lobby_loop_lobbies[OF assms(1-4,6), of None script] assms(5) by (fastforce simp: drain_lobby_def)

section \<open>The client behind the relay\<close>

lemma lobby_scan_entries:
  assumes "\<And>i. i \<in> set ks \<Longrightarrow> \<exists>n. valid_name n \<and> take 9 (List.drop (1 + 9 * i) payload) = pad8 (map byte_of_char n) @ [b i] \<and> nm i = n"
  shows "lobby_scan payload (codepoints name) ks =
    Inr (case find (\<lambda>i. nm i = name) ks of None \<Rightarrow> None | Some i \<Rightarrow> Some (b i))"
  using assms
proof (induction ks)
  case (Cons i ks)
  obtain n where n: "valid_name n" "take 9 (List.drop (1 + 9 * i) payload) = pad8 (map byte_of_char n) @ [b i]" "nm i = n"
    using Cons.prems[of i] by auto
  have "take 8 (pad8 (map byte_of_char n) @ [b i]) = pad8 (map byte_of_char n)" by simp
  moreover have "(pad8 (map byte_of_char n) @ [b i]) ! 8 = b i" by (simp add: nth_append)
  ultimately show ?case
    using Cons.IH Cons.prems n(3)
    by (simp only: lobby_scan.simps n(2) Let_def field_text_name[OF n(1)] sum.case codepoints_eq_iff) auto
qed simp

lemma lobby_status_decodes:
  assumes "good {} s"
  shows "lobby_status (lobby_payload_of c s) (codepoints name) =
    Inr (map_option (\<lambda>d. if cl_room (client_of s d) = None then 1 else 0x82)
      (find (\<lambda>d. cl_name (client_of s d) = Some name) (lobby_others c s)))"
proof -
  let ?os = "lobby_others c s"
  let ?b = "\<lambda>d. if cl_room (client_of s d) = None then 1 else 0x82 :: byte"
  define nm where "nm d = the (cl_name (client_of s d))" for d
  have name: "\<exists>n. cl_name (client_of s d) = Some n \<and> valid_name n" if "d \<in> set ?os" for d
    using lobby_other_named[OF assms that] by blast
  have n: "unat (word_of_int (int (length ?os)) :: byte) = length ?os"
    using lobby_others_le[of c s] by (simp add: unat_of_nat)
  have entry: "take 9 (List.drop (1 + 9 * i) (lobby_payload_of c s)) = pad8 (map byte_of_char (nm (?os ! i))) @ [?b (?os ! i)]"
    if "i < length ?os" for i
    using lobby_entry_at[OF assms that] by (simp only: name_bytes_def nm_def)
  have "lobby_scan (lobby_payload_of c s) (codepoints name) [0..<length ?os] =
      Inr (case find (\<lambda>i. nm (?os ! i) = name) [0..<length ?os] of None \<Rightarrow> None | Some i \<Rightarrow> Some (?b (?os ! i)))"
  proof (rule lobby_scan_entries)
    fix i assume "i \<in> set [0..<length ?os]"
    then have i: "i < length ?os" by simp
    then obtain n where "cl_name (client_of s (?os ! i)) = Some n" "valid_name n" using name[of "?os ! i"] by auto
    with entry[OF i] show "\<exists>n. valid_name n \<and> take 9 (List.drop (1 + 9 * i) (lobby_payload_of c s)) =
        pad8 (map byte_of_char n) @ [?b (?os ! i)] \<and> nm (?os ! i) = n" by (auto simp: nm_def)
  qed
  also have "(case find (\<lambda>i. nm (?os ! i) = name) [0..<length ?os] of None \<Rightarrow> None | Some i \<Rightarrow> Some (?b (?os ! i)))
      = map_option ?b (find (\<lambda>d. nm d = name) ?os)"
    using find_map[of "\<lambda>d. nm d = name" "(!) ?os" "[0..<length ?os]"]
    unfolding map_nth by (cases "find (\<lambda>i. nm (?os ! i) = name) [0..<length ?os]") (simp_all del: not_None_eq)
  also have "find (\<lambda>d. nm d = name) ?os = find (\<lambda>d. cl_name (client_of s d) = Some name) ?os"
    by (rule find_cong) (use name in \<open>force simp: nm_def\<close>)+
  finally show ?thesis
    using n by (simp add: lobby_status_def lobby_payload_of_def)
qed


text \<open>
  Remark (the client reads the lobby): a client that has read everything the relay sent it before,
  asks for the list and is still connected gets exactly one frame, which it accepts as LOBBY;
  in its payload it finds, for every name, the status the gate expects: that of a solo player,
  or of a full room, when the name is that of one of the first eight other players, and nothing
  otherwise.
\<close>

theorem sim_sees_lobby:
  assumes "server_inv s" "handle c T_LIST payload s = Ok t" "\<not> cl_dead (client_of t c)"
    and "ready cl ds" "stream t c = stream s c @ concat ds"
  shows "\<exists>p cl'. expect ''LOBBY'' cl = (Inr p, cl') \<and> ready cl' [] \<and>
    (\<forall>name. lobby_status p (codepoints name) =
       Inr (map_option (\<lambda>d. word_of_nat (st 2 (if cl_room (client_of s d) = None then 1 else 2)))
         (find (\<lambda>d. cl_name (client_of s d) = Some name)
           (take 8 (filter (\<lambda>d. d \<noteq> c) (map snd (sv_by_name s)))))))"
proof -
  have g: "good {} s" using assms(1) by (simp add: server_inv_def)
  have "on_list c s = Ok t" using assms(2) by (simp add: handle_simps)
  from delivered_stream[OF on_list_delivers[OF g this assms(3)], of c] assms(5)
  have ds: "concat ds = encode_msg (T_LOBBY, lobby_payload_of c s)" by simp
  have "length (lobby_payload_of c s) < 255"
    using lobby_others_le[of c s] by (simp add: length_lobby_payload)
  moreover have "sim_T ''LOBBY'' = Some T_LOBBY" by (simp add: sim_T_def T_LOBBY_def)
  ultimately obtain cl' where cl': "expect ''LOBBY'' cl = (Inr (lobby_payload_of c s), cl')" "ready cl' []"
    using ready_expect[OF assms(4) ds] by blast
  have "(if cl_room (client_of s d) = None then 1 else 0x82 :: byte) =
      word_of_nat (st 2 (if cl_room (client_of s d) = None then 1 else 2))" for d
    by (simp add: st_def)
  then show ?thesis
    using cl' lobby_status_decodes[OF g, of c] unfolding lobby_payload_form(1)[OF g] by auto
qed

lemma roster_names_pair:
  assumes "good {} s" "members s r = [a, b]"
    and "cl_name (client_of s a) = Some na" "cl_name (client_of s b) = Some nb"
  shows "roster_names (name_bytes s a @ name_bytes s b @ replicate 16 0) = Inr [codepoints na, codepoints nb, [], []]"
proof -
  have v: "valid_name na" "valid_name nb" using assms(1,3,4) by (auto simp: good_def core_def names_ok_def)
  have n: "name_bytes s a = pad8 (map byte_of_char na)" "name_bytes s b = pad8 (map byte_of_char nb)"
    using assms(3,4) by (simp_all add: name_bytes_def)
  have z: "field_text (replicate 8 0) = Inr []" by (rule field_text_zeros)
  show ?thesis
    unfolding roster_names_def n
    by (simp add: upt_rec field_text_name[OF v(1)] field_text_name[OF v(2)] z)
qed


lemma start_notice_decodes:
  assumes "good {} s" "members s r = [h, g]" "sd \<le> 65535" "i < 2"
    and "cl_name (client_of s h) = Some nh" "cl_name (client_of s g) = Some ng"
  shows "start_notice s h g sd i = (T_START, p) \<Longrightarrow>
    length p = 37 \<and> p ! 0 = word_of_nat i \<and> p ! 1 = 2 \<and> pair16 (p ! 2) (p ! 3) = sd \<and>
    p ! 4 = word_of_int (sv_delay s) \<and>
    roster_names (take 32 (List.drop 5 p)) = Inr [codepoints nh, codepoints ng, [], []]"
proof -
  assume p: "start_notice s h g sd i = (T_START, p)"
  have "unat (word_of_nat (sd AND 0xFF) :: byte) = sd mod 256"
    by (simp add: and_low_bits unat_of_nat)
  moreover have "unat (word_of_nat (drop_bit 8 sd) :: byte) = sd div 256"
    using assms(3) by (simp add: drop_bit_eq_div unat_of_nat)
  ultimately have "pair16 (word_of_nat (sd AND 0xFF)) (word_of_nat (drop_bit 8 sd)) = sd"
    by (simp only: pair16_eq) simp
  with p roster_names_pair[OF assms(1,2,5,6)] show ?thesis
    by (auto simp: start_notice_def eval_nat_numeral)
qed

text \<open>
  Remark (the client reads the start): after the host's GO, each of the two players that has read
  everything before and is still connected accepts the next frame as START; its payload has 37
  bytes and carries the player's own seat, two seats, the seed of the room, the input delay and
  the two names in seat order.
\<close>

theorem sim_sees_start:
  assumes "server_inv s" "cl_room (client_of s h) = Some r" "members s r = [h, g]" "\<not> rm_started (room_of s r)"
    and "handle h T_GO payload s = Ok t" "\<not> cl_dead (client_of t h)" "\<not> cl_dead (client_of t g)"
    and "x \<in> {h, g}" "ready cl ds" "stream t x = stream s x @ concat ds"
    and "cl_name (client_of s h) = Some nh" "cl_name (client_of s g) = Some ng"
  shows "\<exists>p cl'. expect ''START'' cl = (Inr p, cl') \<and> ready cl' [] \<and> length p = 37 \<and>
    p ! 0 = (if x = h then 0 else 1) \<and> p ! 1 = 2 \<and>
    pair16 (p ! 2) (p ! 3) = rm_seed (room_of t r) \<and> p ! 4 = word_of_int (sv_delay s) \<and>
    roster_names (take 32 (List.drop 5 p)) = Inr [codepoints nh, codepoints ng, [], []]"
proof -
  have gd: "good {} s" and dl: "delay_ok s" using assms(1) by (simp_all add: server_inv_def)
  note neq = good_pair_distinct[OF gd assms(3)]
  have "start_room r s = Ok t"
    using assms(2-5) by (simp add: handle_simps on_go_def seat_def MAX_SEATS_def)
  from start_room_pair[OF gd dl assms(3) this assms(6,7)] obtain sd u where u: "sd < 0x10000"
      "both_delivered h (encode_msg (start_notice s h g sd 0)) g (encode_msg (start_notice s h g sd 1)) (match_begun r sd s) u"
      "t = lobby_update (add_log (Log_match_started r 2 sd) u)" by blast
  note d = both_delivered_sel[OF u(2) neq]
  have seed: "rm_seed (room_of t r) = sd" by (simp add: u(3) d(6) match_room_def)
  define i where "i = (if x = h then 0 else 1 :: nat)"
  obtain p where p: "start_notice s h g sd i = (T_START, p)" by (simp add: start_notice_def)
  have "stream t x = stream s x @ encode_msg (T_START, p)"
    using d(1,2) assms(8) neq unfolding p [symmetric] i_def by (auto simp: u(3) stream_def)
  then have ds: "concat ds = encode_msg (T_START, p)" using assms(10) by simp
  have i: "i < 2" "sd \<le> 65535" using u(1) by (simp_all add: i_def)
  note dec = start_notice_decodes[OF gd assms(3) i(2,1) assms(11,12) p]
  have "sim_T ''START'' = Some T_START" by (simp add: sim_T_def T_START_def)
  then obtain cl' where "expect ''START'' cl = (Inr p, cl')" "ready cl' []"
    using ready_expect[OF assms(9) ds] dec by auto
  then show ?thesis using dec unfolding seed i_def by auto
qed

text \<open>
  Remark (the client reads the room): after a JOIN of a solo player, host and joiner, if they have
  read everything before and are still connected, accept the next frame as ROOM; it carries the
  count 2 and the two names, the host's first.
\<close>

theorem sim_sees_room:
  assumes "server_inv s" "c < sv_next_cid s" "cl_room (client_of s c) = None"
    and "map_of (sv_by_name s) (wire_name payload) = Some h" "h \<noteq> c" "cl_room (client_of s h) = None"
    and "sv_auto_go s = 0" "handle c T_JOIN payload s = Ok t"
    and "\<not> cl_dead (client_of t h)" "\<not> cl_dead (client_of t c)"
    and "x \<in> {h, c}" "ready cl ds" "stream t x = stream s x @ concat ds"
    and "cl_name (client_of s h) = Some nh" "cl_name (client_of s c) = Some nc"
  shows "\<exists>p cl'. expect ''ROOM'' cl = (Inr p, cl') \<and> ready cl' [] \<and> p ! 0 = 2 \<and>
    roster_names (take 32 (List.drop 1 p)) = Inr [codepoints nh, codepoints nc, [], []]"
proof -
  let ?r = "sv_next_rid s" and ?j = "joined h c s"
  have g: "good {} s" using assms(1) by (simp add: server_inv_def)
  have "h < sv_next_cid s" using map_of_SomeD[OF assms(4)] g by (auto simp: good_def core_def names_ok_def)
  then have uj: "\<not> unjoinable c (Some h) s" and gj: "good {} ?j"
    using assms(2-7,14,15) g by (auto simp: unjoinable_def intro!: good_joined)
  obtain u where u: "room_broadcast ?r ?j = Ok u" using safe_room_broadcast[OF gj] by (auto simp: safe_def)
  have "sv_auto_go u = 0"
    using plumbing.room_broadcast_evolves[of ?j ?r] u assms(7) by (simp add: room_broadcast_def evolves_def)
  then have tu: "t = lobby_update u"
    using assms(8) u on_join_joins[OF g _ assms(3,4) uj] assms(15) by (simp add: handle_simps Let_def)
  have mj: "members ?j ?r = [h, c]" by simp
  have nb: "name_bytes ?j = name_bytes s" by (rule ext) (simp add: name_bytes_def)
  have bd: "both_delivered h (encode_msg (room_notice ?j h c)) c (encode_msg (room_notice ?j h c)) ?j u"
    using room_broadcast_pair[OF gj mj u] assms(9,10) by (simp add: tu)
  note d = both_delivered_sel[OF bd assms(5)]
  let ?p = "2 # name_bytes s h @ name_bytes s c @ replicate 16 0"
  have "stream t x = stream s x @ encode_msg (T_ROOM, ?p)"
    using d(1,2) assms(11) by (auto simp: tu stream_def room_notice_def nb)
  then have ds: "concat ds = encode_msg (T_ROOM, ?p)" using assms(13) by simp
  have "sim_T ''ROOM'' = Some T_ROOM" by (simp add: sim_T_def T_ROOM_def)
  then obtain cl' where "expect ''ROOM'' cl = (Inr ?p, cl')" "ready cl' []"
    using ready_expect[OF assms(12) ds] by auto
  moreover have "roster_names (name_bytes s h @ name_bytes s c @ replicate 16 0) = Inr [codepoints nh, codepoints nc, [], []]"
    using roster_names_pair[OF gj mj] assms(14,15) unfolding nb by simp
  ultimately show ?thesis by (intro exI[of _ ?p]) (simp add: numeral_eq_Suc)
qed


subsection \<open>Examples\<close>

text \<open>A client to which the bytes the relay has for it are delivered in two segments.\<close>

definition behind :: "byte list \<Rightarrow> cli" where
  "behind bytes = \<lparr>cli_name = ''EVE'', cli_buf = [], cli_in = [Got (take 1 bytes), Got (List.drop 1 bytes)],
     cli_out = [], cli_up = True\<rparr>"

lemma ready_behind: "length bytes \<ge> 2 \<Longrightarrow> ready (behind bytes) [take 1 bytes, List.drop 1 bytes]"
  by (auto simp: ready_def behind_def)

lemma length_encode_msg: "2 \<le> length (encode_msg m)"
  by (simp add: encode_msg_def)

lemma demo_lists:
  "\<exists>t. handle 2 T_LIST [] (demo True) = Ok t \<and> \<not> cl_dead (client_of t 2) \<and>
     stream t 2 = encode_msg (T_LOBBY, lobby_payload_of 2 (demo True))"
proof -
  let ?data = "encode_msg (T_LOBBY, lobby_payload_of 2 (demo True))"
  have len: "length (lobby_payload_of 2 (demo True)) < 255"
    using lobby_others_le[of 2 "demo True"] by (simp add: length_lobby_payload)
  have ol: "on_list 2 (demo True) = send 2 ?data (demo True)"
    using on_list_sends[OF demo_good[of True], of 2] encode_msg_frame[OF len, of T_LOBBY] by auto
  have "fits (demo True) 2 ?data" using len by (simp add: fits_def encode_msg_def MAX_TX_BACKLOG_def)
  then obtain t where t: "send 2 ?data (demo True) = Ok t" "\<not> cl_dead (client_of t 2)"
    using send_healthy[OF demo_healthy, of True 2 ?data] by auto
  with delivered_stream[OF send_delivers[OF t], of 2] show ?thesis
    by (auto simp: handle_simps ol demo_stream)
qed

theorem sim_sees_lobby_witness:
  "\<exists>t p cl'. handle 2 T_LIST [] (demo True) = Ok t \<and> expect ''LOBBY'' (behind (stream t 2)) = (Inr p, cl') \<and>
     lobby_status p (codepoints ''DAVE'') = Inr (Some 1) \<and> lobby_status p (codepoints ''BOB'') = Inr (Some 0x82) \<and>
     lobby_status p (codepoints ''ZOE'') = Inr None"
proof -
  obtain t where t: "handle 2 T_LIST [] (demo True) = Ok t" "\<not> cl_dead (client_of t 2)"
    "stream t 2 = encode_msg (T_LOBBY, lobby_payload_of 2 (demo True))"
    using demo_lists by blast
  have "ready (behind (stream t 2)) [take 1 (stream t 2), List.drop 1 (stream t 2)]"
    unfolding t(3) by (rule ready_behind[OF length_encode_msg])
  moreover have "stream t 2 = stream (demo True) 2 @ concat [take 1 (stream t 2), List.drop 1 (stream t 2)]"
    by (simp add: demo_stream)
  ultimately obtain p cl' where p: "expect ''LOBBY'' (behind (stream t 2)) = (Inr p, cl')"
    "\<And>name. lobby_status p (codepoints name) =
       Inr (map_option (\<lambda>d. word_of_nat (st 2 (if cl_room (client_of (demo True) d) = None then 1 else 2)))
         (find (\<lambda>d. cl_name (client_of (demo True) d) = Some name)
           (take 8 (filter (\<lambda>d. d \<noteq> 2) (map snd (sv_by_name (demo True)))))))"
    using sim_sees_lobby[OF demo_inv t(1,2)] by blast
  have "take 8 (filter (\<lambda>d. d \<noteq> 2) (map snd (sv_by_name (demo True)))) = [0, 1, 3]" by simp
  then show ?thesis
    using t(1) p(1) p(2)[of "''DAVE''"] p(2)[of "''BOB''"] p(2)[of "''ZOE''"]
    by (intro exI[of _ t] exI[of _ p] exI[of _ cl']) (simp add: st_def)
qed

theorem sim_sees_start_witness:
  "\<exists>t p cl'. handle 0 T_GO [] (demo False) = Ok t \<and> expect ''START'' (behind (stream t 1)) = (Inr p, cl') \<and>
     p ! 0 = 1 \<and> p ! 1 = 2 \<and> p ! 4 = 3 \<and>
     roster_names (take 32 (List.drop 5 p)) = Inr [codepoints ''ALICE'', codepoints ''BOB'', [], []]"
proof -
  have dl: "delay_ok (demo False)" using demo_inv[of False] by (simp add: server_inv_def)
  have go: "handle 0 T_GO [] (demo False) = start_room 0 (demo False)"
    by (simp add: handle_simps on_go_def seat_def MAX_SEATS_def Room_init_def)
  obtain t where t: "handle 0 T_GO [] (demo False) = Ok t" "\<not> cl_dead (client_of t 0)" "\<not> cl_dead (client_of t 1)"
    using start_room_healthy[OF demo_good dl, of 0 0 1] demo_healthy go by auto
  from start_room_pair[OF demo_good dl, of 0 0 1 t] t go obtain sd u where u:
      "both_delivered 0 (encode_msg (start_notice (demo False) 0 1 sd 0)) 1 (encode_msg (start_notice (demo False) 0 1 sd 1))
         (match_begun 0 sd (demo False)) u" "t = lobby_update (add_log (Log_match_started 0 2 sd) u)"
    by auto
  have "stream t 1 = encode_msg (start_notice (demo False) 0 1 sd 1)"
    using both_delivered_sel(2)[OF u(1)] by (simp add: u(2) stream_def)
  then have "ready (behind (stream t 1)) [take 1 (stream t 1), List.drop 1 (stream t 1)]"
    using ready_behind[OF length_encode_msg] by simp
  moreover have "stream t 1 = stream (demo False) 1 @ concat [take 1 (stream t 1), List.drop 1 (stream t 1)]"
    by (simp add: demo_stream)
  ultimately show ?thesis
    using t(1) sim_sees_start[OF demo_inv, of False 0 0 1 "[]" t 1 "behind (stream t 1)" _ "''ALICE''" "''BOB''"] t
    by (fastforce simp: Room_init_def)
qed

theorem drain_lobby_last_witness:
  "\<exists>c1 ds'. drain_lobby (behind [2, T_LOBBY, 0, 1, T_PONG]) = (Inr (Some [0]), c1) \<and>
     cli_in c1 = map Got ds' \<and> cli_buf c1 @ concat ds' = [1, T_PONG]"
  using drain_lobby_last[of "[[0]]" "(T_PONG, [])" "[[2], [T_LOBBY, 0, 1, T_PONG]]"
      "behind [2, T_LOBBY, 0, 1, T_PONG]" "[]" "[]"]
  by (simp add: behind_def encode_msg_def T_LOBBY_def T_PONG_def)

end
