(* ===== verification/Ghost_Peer.thy ===== *)
theory Ghost_Peer
  imports Relay_Props Peers
begin

text \<open>
  The scripted opponent tools/ghost_peer.py as a state machine: its frame handlers, the loop
  over the receive buffer and one iteration of the main loop, with the clock readings and the
  result of \<open>recv\<close> as inputs.  Printed lines are left out.
\<close>

section \<open>State\<close>

definition G_HELLO :: byte where "G_HELLO = 1"
definition G_LIST :: byte where "G_LIST = 2"
definition G_LOBBY :: byte where "G_LOBBY = 3"
definition G_JOIN :: byte where "G_JOIN = 4"
definition G_START :: byte where "G_START = 5"
definition G_INPUT :: byte where "G_INPUT = 6"
definition G_CRC :: byte where "G_CRC = 7"
definition G_PEER_LEFT :: byte where "G_PEER_LEFT = 0x0B"
definition IDLE :: byte where "IDLE = 0x40"

lemmas G_defs = G_HELLO_def G_LIST_def G_LOBBY_def G_JOIN_def G_START_def G_INPUT_def G_CRC_def G_PEER_LEFT_def

record ghost_args =
  ga_name :: string
  ga_want_ticks :: int
  ga_mirror :: bool
  ga_pitch_at :: int

record ghost =
  gh_buf :: "byte list"
  gh_out :: "byte list"
  gh_matched :: bool
  gh_last_list :: time
  gh_inputs :: nat
  gh_crcs :: nat
  gh_max_tick :: nat
  gh_crc_ticks :: "(nat \<times> nat) list"
  gh_last :: "byte list option"
  gh_deadline :: time

text \<open>The state after connecting: HELLO of version 1 has been sent.\<close>

definition ghost_init :: "ghost_args \<Rightarrow> time \<Rightarrow> time \<Rightarrow> exn + ghost" where
  "ghost_init args now timeout =
     (case peer_frame G_HELLO ([1] @ utf8_encode (ga_name args)) of
        Inl e \<Rightarrow> Inl e
      | Inr hello \<Rightarrow>
          Inr \<lparr>gh_buf = [], gh_out = hello, gh_matched = False, gh_last_list = 0, gh_inputs = 0, gh_crcs = 0,
               gh_max_tick = 0, gh_crc_ticks = [], gh_last = None, gh_deadline = now + timeout\<rparr>)"

datatype gh_result = Gh_ok ghost | Gh_stop ghost | Gh_raise exn ghost

definition gh_send :: "byte \<Rightarrow> byte list \<Rightarrow> ghost \<Rightarrow> gh_result" where
  "gh_send t payload g =
     (case peer_frame t payload of
        Inl e \<Rightarrow> Gh_raise e g
      | Inr data \<Rightarrow> Gh_ok (g\<lparr>gh_out := gh_out g @ data\<rparr>))"

section \<open>Handlers\<close>

text \<open>The entries of a LOBBY frame: the first idle player other than the ghost is joined.\<close>

fun gh_lobby :: "ghost_args \<Rightarrow> byte list \<Rightarrow> nat list \<Rightarrow> ghost \<Rightarrow> gh_result" where
  "gh_lobby args p [] g = Gh_ok g"
| "gh_lobby args p (i # ks) g =
     (let name = rstrip {0} (take 8 (List.drop (1 + i * 9) p)) in
      if length p \<le> 9 + i * 9 then Gh_raise IndexError g
      else if p ! (9 + i * 9) = 0 \<and> name \<noteq> utf8_encode (ga_name args) then
        (case utf8_decode name of Inl e \<Rightarrow> Gh_raise e g | Inr _ \<Rightarrow> gh_send G_JOIN name g)
      else gh_lobby args p ks g)"

definition gh_start :: "byte list \<Rightarrow> ghost \<Rightarrow> gh_result" where
  "gh_start p g =
     (let g1 = g\<lparr>gh_matched := True\<rparr> in
      if length p < 3 then Gh_raise IndexError g1
      else case utf8_decode (rstrip {0} (take 8 (List.drop 4 p))) of
        Inl e \<Rightarrow> Gh_raise e g1
      | Inr _ \<Rightarrow> if length p < 4 then Gh_raise IndexError g1 else Gh_ok g1)"

text \<open>The cell of the scripted player at a tick: idle, or a keypad press every 256 ticks.\<close>

definition gh_cell :: "ghost_args \<Rightarrow> nat \<Rightarrow> byte" where
  "gh_cell args tick =
     (if ga_pitch_at args \<noteq> 0 \<and> int tick \<ge> ga_pitch_at args then
        let ph = (int tick - ga_pitch_at args) mod 256
        in if ph = 0 then 0x85 else if ph < 4 then 0xC5 else IDLE
      else IDLE)"

definition gh_reply :: "ghost_args \<Rightarrow> byte list \<Rightarrow> byte list" where
  "gh_reply args p =
     (if ga_mirror args then List.drop 2 p
      else [gh_cell args (pair16 (p ! 0) (p ! 1))] @ replicate (max (length p - 3) 1) 0)"

definition gh_input :: "ghost_args \<Rightarrow> byte list \<Rightarrow> ghost \<Rightarrow> gh_result" where
  "gh_input args p g =
     (if length p < 2 then Gh_raise IndexError g
      else
        let tick = pair16 (p ! 0) (p ! 1);
            g1 = g\<lparr>gh_inputs := gh_inputs g + 1, gh_max_tick := max (gh_max_tick g) tick\<rparr>;
            reply = gh_reply args p;
            g2 = (if ga_mirror args \<and> Some (List.drop 2 p) \<noteq> gh_last g1
                  then g1\<lparr>gh_last := Some (List.drop 2 p)\<rparr> else g1)
        in gh_send G_INPUT ([p ! 0, p ! 1] @ reply) g2)"

definition gh_crc :: "byte list \<Rightarrow> ghost \<Rightarrow> gh_result" where
  "gh_crc p g =
     (if length p < 4 then Gh_raise IndexError g
      else Gh_ok (g\<lparr>gh_crcs := gh_crcs g + 1,
             gh_crc_ticks := gh_crc_ticks g @ [(pair16 (p ! 0) (p ! 1), pair16 (p ! 2) (p ! 3))]\<rparr>))"

definition gh_handle :: "ghost_args \<Rightarrow> time \<Rightarrow> byte \<Rightarrow> byte list \<Rightarrow> ghost \<Rightarrow> gh_result" where
  "gh_handle args now t p g =
     (if t = G_LOBBY \<and> \<not> gh_matched g then
        (if p = [] then Gh_raise IndexError g else gh_lobby args p [0..<unat (p ! 0)] g)
      else if t = G_START then gh_start p g
      else if t = G_INPUT then gh_input args p g
      else if t = G_CRC then gh_crc p g
      else if t = G_PEER_LEFT then Gh_ok (g\<lparr>gh_deadline := min (gh_deadline g) (now + 1)\<rparr>)
      else Gh_ok g)"

text \<open>
  The loop over the buffer.  The type is \<open>buf[1]\<close>, also when the length byte is zero; the
  buffer shrinks in every round, its length bounds the rounds.
\<close>

fun gh_frames :: "nat \<Rightarrow> ghost_args \<Rightarrow> time \<Rightarrow> ghost \<Rightarrow> gh_result" where
  "gh_frames 0 args now g = Gh_ok g"
| "gh_frames (Suc k) args now g =
     (let buf = gh_buf g in
      if buf \<noteq> [] \<and> length buf \<ge> unat (buf ! 0) + 1 then
        let n = unat (buf ! 0) + 1 in
        if length buf < 2 then Gh_raise IndexError g
        else case gh_handle args now (buf ! 1) (List.drop 2 (take n buf)) (g\<lparr>gh_buf := List.drop n buf\<rparr>) of
          Gh_ok g1 \<Rightarrow> gh_frames k args now g1
        | r \<Rightarrow> r
      else Gh_ok g)"

text \<open>
  One iteration of the main loop with four readings of the clock: the deadline test, the two of
  the lobby poll and the one a PEER_LEFT uses.
\<close>

datatype gh_recv = Gh_data "byte list" | Gh_timeout | Gh_error

definition gh_iter :: "ghost_args \<Rightarrow> time \<Rightarrow> time \<Rightarrow> time \<Rightarrow> time \<Rightarrow> gh_recv \<Rightarrow> ghost \<Rightarrow> gh_result" where
  "gh_iter args n0 n1 n2 n3 rr g =
     (if \<not> n0 < gh_deadline g then Gh_stop g
      else case (if \<not> gh_matched g \<and> n1 - gh_last_list g > 1
                 then (case gh_send G_LIST [] g of Gh_ok g1 \<Rightarrow> Gh_ok (g1\<lparr>gh_last_list := n2\<rparr>) | r \<Rightarrow> r)
                 else Gh_ok g) of
        Gh_ok g1 \<Rightarrow>
          (case rr of
             Gh_timeout \<Rightarrow> Gh_ok g1
           | Gh_error \<Rightarrow> Gh_raise OSError g1
           | Gh_data chunk \<Rightarrow>
               if chunk = [] then Gh_stop g1
               else (case gh_frames (length (gh_buf g1 @ chunk)) args n3 (g1\<lparr>gh_buf := gh_buf g1 @ chunk\<rparr>) of
                   Gh_ok g2 \<Rightarrow> if int (gh_max_tick g2) \<ge> ga_want_ticks args then Gh_stop g2 else Gh_ok g2
                 | r \<Rightarrow> r))
      | r \<Rightarrow> r)"

definition gh_passes :: "ghost_args \<Rightarrow> ghost \<Rightarrow> bool" where
  "gh_passes args g \<longleftrightarrow> int (gh_max_tick g) \<ge> ga_want_ticks args \<and> gh_crcs g > 0"


section \<open>Answering inputs\<close>

lemma gh_frames_fuel: "length (gh_buf g) \<le> k \<Longrightarrow> gh_frames k args now g = gh_frames (length (gh_buf g)) args now g"
proof -
  have buf: "gh_buf g1 = gh_buf g0" if "gh_handle args now t p g0 = Gh_ok g1" for t p g0 g1
  proof -
    have lob: "gh_lobby args p ks g0 = Gh_ok g1 \<Longrightarrow> gh_buf g1 = gh_buf g0" for ks
      by (induction ks) (auto simp: Let_def gh_send_def split: if_splits sum.splits)
    from that lob show ?thesis
      by (auto simp: gh_handle_def gh_start_def gh_input_def gh_crc_def gh_send_def Let_def split: if_splits sum.splits)
  qed
  show "length (gh_buf g) \<le> k \<Longrightarrow> gh_frames k args now g = gh_frames (length (gh_buf g)) args now g"
  proof (induction k arbitrary: g rule: less_induct)
    case (less k)
    show ?case
    proof (cases "gh_buf g \<noteq> [] \<and> length (gh_buf g) \<ge> unat (gh_buf g ! 0) + 1")
      case True
      then obtain l j where l: "length (gh_buf g) = Suc l" "k = Suc j" using less.prems by (cases "length (gh_buf g)"; cases k) auto
      let ?n = "unat (gh_buf g ! 0) + 1"
      let ?h = "gh_handle args now (gh_buf g ! 1) (List.drop 2 (take ?n (gh_buf g))) (g\<lparr>gh_buf := List.drop ?n (gh_buf g)\<rparr>)"
      have "gh_frames j args now g1 = gh_frames l args now g1" if "?h = Gh_ok g1" for g1
      proof -
        have le: "length (gh_buf g1) \<le> l" using buf[OF that] l by simp
        have "l < k" "j < k" using less.prems l by simp_all
        then show ?thesis using less.IH[of j g1] less.IH[of l g1] le less.prems l by simp
      qed
      then show ?thesis unfolding l by (auto simp: Let_def split: gh_result.split)
    qed (cases k; cases "length (gh_buf g)"; auto simp: Let_def)
  qed
qed

declare gh_frames.simps [simp del]

lemma gh_frames_msg:
  assumes "length p < 255"
  shows "gh_frames (length (encode_msg (t, p) @ rest)) args now (g\<lparr>gh_buf := encode_msg (t, p) @ rest\<rparr>) =
    (case gh_handle args now t p (g\<lparr>gh_buf := rest\<rparr>) of
       Gh_ok g1 \<Rightarrow> gh_frames (Suc (length p + length rest)) args now g1 | r \<Rightarrow> r)"
  using unat_len_byte[OF assms] by (simp add: encode_msg_def gh_frames.simps(2) Let_def del: of_nat_Suc split: gh_result.split)

text \<open>The messages of a running match: whatever comes, INPUT and CRC frames are complete.\<close>

definition match_msg :: "byte \<times> byte list \<Rightarrow> bool" where
  "match_msg m \<longleftrightarrow> length (snd m) < 255 \<and> fst m \<noteq> G_START \<and>
     (fst m = G_INPUT \<longrightarrow> 2 \<le> length (snd m)) \<and> (fst m = G_CRC \<longrightarrow> 4 \<le> length (snd m))"

definition input_tick :: "byte \<times> byte list \<Rightarrow> nat" where
  "input_tick m = pair16 (snd m ! 0) (snd m ! 1)"

lemma gh_reply_length: "2 \<le> length p \<Longrightarrow> length (take 2 p @ gh_reply args p) = (if ga_mirror args then length p else max (length p) 4)"
  by (auto simp: gh_reply_def min_absorb2)

lemma take_two: "2 \<le> length p \<Longrightarrow> [p ! 0, p ! 1] = take 2 p"
  by (cases p; cases "tl p") (auto simp: eval_nat_numeral)

lemma gh_handle_match:
  assumes "match_msg (t, p)" "gh_matched g"
  shows "\<exists>g1. gh_handle args now t p g = Gh_ok g1 \<and> gh_matched g1 \<and> gh_buf g1 = gh_buf g \<and>
    gh_out g1 = gh_out g @ (if t = G_INPUT then encode_msg (G_INPUT, take 2 p @ gh_reply args p) else []) \<and>
    gh_inputs g1 = gh_inputs g + (if t = G_INPUT then 1 else 0) \<and>
    gh_crcs g1 = gh_crcs g + (if t = G_CRC then 1 else 0) \<and>
    gh_max_tick g1 = max (gh_max_tick g) (if t = G_INPUT then input_tick (t, p) else 0)"
proof (cases "t = G_INPUT")
  case True
  then have p: "2 \<le> length p" "length p < 255" using assms(1) by (auto simp: match_msg_def)
  have "length (take 2 p @ gh_reply args p) < 255" using p gh_reply_length[OF p(1), of args] by simp
  then have "peer_frame G_INPUT ([p ! 0, p ! 1] @ gh_reply args p) = Inr (encode_msg (G_INPUT, take 2 p @ gh_reply args p))"
    unfolding take_two[OF p(1)] by (rule peer_frame_ok)
  with p assms(2) True show ?thesis
    by (simp add: gh_handle_def gh_input_def gh_send_def Let_def input_tick_def) (simp add: G_defs)
next
  case False
  with assms show ?thesis by (auto simp: gh_handle_def gh_crc_def match_msg_def G_defs)
qed

text \<open>
  C34 (the ideal opponent): during a match the ghost answers every INPUT it receives, and nothing
  else, immediately and in order with exactly one INPUT for the same tick, of the same length
  (four bytes at least); it counts inputs and checksums, and its highest tick is the highest
  tick received.  A partial frame at the end stays in the buffer.
\<close>

theorem ghost_answers_inputs:
  assumes "list_all match_msg ms" "gh_matched g" "peer_read rest = More"
    and "gh_buf g = concat (map encode_msg ms) @ rest"
  shows "\<exists>g'. gh_frames (length (gh_buf g)) args now g = Gh_ok g' \<and> gh_buf g' = rest \<and>
    gh_out g' = gh_out g @ concat (map (\<lambda>m. encode_msg (G_INPUT, take 2 (snd m) @ gh_reply args (snd m)))
      (filter (\<lambda>m. fst m = G_INPUT) ms)) \<and>
    gh_inputs g' = gh_inputs g + length (filter (\<lambda>m. fst m = G_INPUT) ms) \<and>
    gh_crcs g' = gh_crcs g + length (filter (\<lambda>m. fst m = G_CRC) ms) \<and>
    gh_max_tick g' = fold max (map input_tick (filter (\<lambda>m. fst m = G_INPUT) ms)) (gh_max_tick g) \<and>
    list_all (\<lambda>m. length (take 2 (snd m) @ gh_reply args (snd m)) =
      (if ga_mirror args then length (snd m) else max (length (snd m)) 4)) (filter (\<lambda>m. fst m = G_INPUT) ms)"
  using assms
proof (induction ms arbitrary: g)
  case Nil
  then have b: "gh_buf g = rest" by simp
  have "\<not> (rest \<noteq> [] \<and> length rest \<ge> unat (rest ! 0) + 1)"
    using Nil.prems(3) by (auto simp: peer_read_def Let_def split: if_splits)
  then have "gh_frames (length rest) args now g = Gh_ok g"
    by (cases "length rest") (auto simp: b gh_frames.simps Let_def)
  with b show ?case by simp
next
  case (Cons m ms)
  obtain t p where m: "m = (t, p)" by fastforce
  let ?r = "concat (map encode_msg ms) @ rest"
  have ok: "match_msg (t, p)" "length p < 255" using Cons.prems(1) by (auto simp: m match_msg_def)
  obtain g1 where g1: "gh_handle args now t p (g\<lparr>gh_buf := ?r\<rparr>) = Gh_ok g1" "gh_matched g1" "gh_buf g1 = ?r"
    "gh_out g1 = gh_out g @ (if t = G_INPUT then encode_msg (G_INPUT, take 2 p @ gh_reply args p) else [])"
    "gh_inputs g1 = gh_inputs g + (if t = G_INPUT then 1 else 0)"
    "gh_crcs g1 = gh_crcs g + (if t = G_CRC then 1 else 0)"
    "gh_max_tick g1 = max (gh_max_tick g) (if t = G_INPUT then input_tick (t, p) else 0)"
    using gh_handle_match[OF ok(1), of "g\<lparr>gh_buf := ?r\<rparr>" args now] Cons.prems(2) by auto
  have b: "gh_buf g = encode_msg (t, p) @ ?r" using Cons.prems(4) by (simp add: m)
  then have "g\<lparr>gh_buf := encode_msg (t, p) @ ?r\<rparr> = g" by simp
  then have "gh_frames (length (gh_buf g)) args now g = gh_frames (Suc (length p + length ?r)) args now g1"
    using gh_frames_msg[OF ok(2), of t ?r args now g] unfolding b g1(1) gh_result.case by (simp only:)
  also have "\<dots> = gh_frames (length (gh_buf g1)) args now g1" by (rule gh_frames_fuel) (simp add: g1(3))
  finally have run: "gh_frames (length (gh_buf g)) args now g = gh_frames (length (gh_buf g1)) args now g1" .
  have "list_all match_msg ms" using Cons.prems(1) by simp
  from Cons.IH[OF this g1(2) Cons.prems(3) g1(3)] gh_reply_length[of p args] ok(1) show ?case
    unfolding run by (auto simp: m g1(4-7) match_msg_def max.commute)
qed


definition ghost_demo :: "byte list \<Rightarrow> ghost" where
  "ghost_demo buf = \<lparr>gh_buf = buf, gh_out = [], gh_matched = True, gh_last_list = 0, gh_inputs = 0, gh_crcs = 0,
     gh_max_tick = 0, gh_crc_ticks = [], gh_last = None, gh_deadline = 60\<rparr>"

theorem ghost_answers_inputs_witness:
  "\<exists>g'. gh_frames 12 \<lparr>ga_name = ''GHOST1'', ga_want_ticks = 9, ga_mirror = False, ga_pitch_at = 5\<rparr> 7
      (ghost_demo [5, G_INPUT, 5, 0, 0x11, 0x22, 5, G_CRC, 5, 0, 1, 2]) = Gh_ok g' \<and>
    gh_buf g' = [] \<and> gh_out g' = [5, G_INPUT, 5, 0, 0x85, 0] \<and> gh_inputs g' = 1 \<and> gh_crcs g' = 1 \<and> gh_max_tick g' = 5"
proof -
  let ?a = "\<lparr>ga_name = ''GHOST1'', ga_want_ticks = 9, ga_mirror = False, ga_pitch_at = 5\<rparr>"
  let ?g = "ghost_demo [5, G_INPUT, 5, 0, 0x11, 0x22, 5, G_CRC, 5, 0, 1, 2]"
  have "list_all match_msg [(G_INPUT, [5, 0, 0x11, 0x22]), (G_CRC, [5, 0, 1, 2])]"
    by (simp add: match_msg_def G_defs)
  then have "\<exists>g'. gh_frames (length (gh_buf ?g)) ?a 7 ?g = Gh_ok g' \<and> gh_buf g' = [] \<and>
      gh_out g' = [5, G_INPUT, 5, 0, 0x85, 0] \<and> gh_inputs g' = 1 \<and> gh_crcs g' = 1 \<and> gh_max_tick g' = 5"
    using ghost_answers_inputs[of "[(G_INPUT, [5, 0, 0x11, 0x22]), (G_CRC, [5, 0, 1, 2])]" ?g "[]" ?a 7]
    by (simp add: ghost_demo_def encode_msg_def G_defs gh_reply_def gh_cell_def input_tick_def pair16_eq peer_read_def)
  moreover have "length (gh_buf ?g) = 12" by (simp add: ghost_demo_def)
  ultimately show ?thesis by (simp only:)
qed

section \<open>The ghost and this server\<close>

lemma gh_lobby_busy:
  assumes "\<And>i. i \<in> set ks \<Longrightarrow> 9 + i * 9 < length p \<and> p ! (9 + i * 9) \<noteq> 0"
  shows "gh_lobby args p ks g = Gh_ok g"
  using assms by (induction ks) (auto simp: Let_def not_le)

lemma lobby_payload_status:
  assumes "good {} s" "i < length (lobby_others c s)"
  shows "lobby_payload_of c s ! (9 + i * 9) = (if cl_room (client_of s (lobby_others c s ! i)) = None then 1 else 0x82)"
proof -
  let ?os = "lobby_others c s"
  have nine: "length (lobby_line s d) = 9" for d by (simp add: lobby_line_def)
  have "concat (map (lobby_line s) xs) ! (8 + i * 9) = lobby_line s (xs ! i) ! 8" if "i < length xs" for xs i
    using that
  proof (induction xs arbitrary: i)
    case (Cons x xs)
    show ?case
    proof (cases i)
      case (Suc j)
      then show ?thesis using Cons by (simp add: nth_append nine)
    qed (simp add: nth_append nine)
  qed simp
  from this[OF assms(2)] show ?thesis
    unfolding lobby_payload_of_def lobby_payload_form(2)[OF assms(1)] by (simp add: nth_append)
qed

text \<open>
  C35 (the ghost does not speak this protocol): the server of this repository never accepts the
  HELLO the ghost sends, whatever its name and the state of the server; and from no LOBBY frame
  the server can send does the ghost ever JOIN anybody, because it looks for status 0 and the
  server reports 1 for a solo player.
\<close>

theorem ghost_incompatible:
  assumes "server_inv s"
  shows "(\<exists>e. handle c T_HELLO ([1] @ utf8_encode (ga_name args)) s = Raise (ProtocolError e) s) \<and>
    (\<not> gh_matched g \<longrightarrow> gh_handle args now T_LOBBY (lobby_payload_of c s) g = Gh_ok g)"
proof
  show "\<exists>e. handle c T_HELLO ([1] @ utf8_encode (ga_name args)) s = Raise (ProtocolError e) s"
    by (simp add: handle_simps on_hello_def PROTO_VER_def)
  have g: "good {} s" using assms by (simp add: server_inv_def)
  let ?os = "lobby_others c s" and ?p = "lobby_payload_of c s"
  have n: "unat (?p ! 0) = length ?os"
    using lobby_others_le[of c s] by (simp add: lobby_payload_of_def unat_of_nat)
  have "gh_lobby args ?p [0..<length ?os] g = Gh_ok g"
    by (rule gh_lobby_busy) (auto simp: length_lobby_payload lobby_payload_status[OF g])
  then show "\<not> gh_matched g \<longrightarrow> gh_handle args now T_LOBBY ?p g = Gh_ok g"
    using n by (simp add: gh_handle_def T_LOBBY_def G_LOBBY_def) (simp add: lobby_payload_of_def)
qed

theorem ghost_incompatible_witness:
  "(\<exists>e. handle 2 T_HELLO [1, 71, 49] (demo True) = Raise (ProtocolError e) (demo True)) \<and>
   gh_handle \<lparr>ga_name = ''G1'', ga_want_ticks = 9, ga_mirror = False, ga_pitch_at = 5\<rparr> 0 T_LOBBY
     (lobby_payload_of 2 (demo True)) ((ghost_demo [])\<lparr>gh_matched := False\<rparr>) = Gh_ok ((ghost_demo [])\<lparr>gh_matched := False\<rparr>)"
  using ghost_incompatible[OF demo_inv[of True], of 2
      "\<lparr>ga_name = ''G1'', ga_want_ticks = 9, ga_mirror = False, ga_pitch_at = 5\<rparr>" "(ghost_demo [])\<lparr>gh_matched := False\<rparr>" 0]
  by (simp add: utf8_encode_def)

end
