(* ===== verification/Lobby_Idlers.thy ===== *)
theory Lobby_Idlers
  imports Relay_Props Peers
begin

text \<open>
  The lobby test helper test/lobby_idlers.py: the greeting of every idler, the pairing, and one
  pass of the polling loop with the clock reading and the results of the non-blocking
  \<open>recv\<close> calls as inputs.  Sockets are named by their player; a player's output is the
  bytes given to \<open>sendall\<close>, which is assumed to accept them.
\<close>

section \<open>State\<close>

record idle_args =
  ia_names :: "string list"
  ia_pair :: bool
  ia_go_name :: "string option"
  ia_go_delay :: time
  ia_join_guest :: "string option"

record idlers =
  id_socks :: "string list"
  id_buf :: "string \<Rightarrow> byte list"
  id_out :: "string \<Rightarrow> byte list"
  id_hunter :: "string option"
  id_goer :: "string option"
  id_joined :: bool
  id_go_at :: "time option"

definition id_send :: "string \<Rightarrow> byte \<Rightarrow> byte list \<Rightarrow> idlers \<Rightarrow> exn + idlers" where
  "id_send n t payload x =
     (case peer_frame t payload of
        Inl e \<Rightarrow> Inl e
      | Inr data \<Rightarrow> Inr (x\<lparr>id_out := (id_out x)(n := id_out x n @ data)\<rparr>))"

text \<open>Connecting every name, in order; a repeated name replaces the socket.\<close>

fun id_greet :: "string list \<Rightarrow> idlers \<Rightarrow> exn + idlers" where
  "id_greet [] x = Inr x"
| "id_greet (n # ns) x =
     (case id_send n 0x01 ([2] @ utf8_encode n) (x\<lparr>id_out := (id_out x)(n := [])\<rparr>) of
        Inl e \<Rightarrow> Inl e
      | Inr y \<Rightarrow> id_greet ns (y\<lparr>id_socks := if n \<in> set (id_socks y) then id_socks y else id_socks y @ [n]\<rparr>))"

text \<open>\<open>target.encode("ascii").ljust(8, b"\0")\<close> does not cut longer names.\<close>

definition id_ljust :: "string \<Rightarrow> exn + byte list" where
  "id_ljust n =
     (if list_all ascii_char n then Inr (map byte_of_char n @ replicate (8 - length n) 0) else Inl UnicodeEncodeError)"

definition id_pairing :: "idle_args \<Rightarrow> idlers \<Rightarrow> exn + idlers" where
  "id_pairing args x =
     (if ia_pair args \<and> length (ia_names args) \<ge> 2 then
        let joiner = ia_names args ! 0; target = ia_names args ! 1 in
        case id_ljust target of Inl e \<Rightarrow> Inl e
        | Inr nm \<Rightarrow> (case id_send joiner 0x04 nm x of Inl e \<Rightarrow> Inl e | Inr y \<Rightarrow> id_send target 0x0F [] y)
      else Inr x)"

definition id_setup :: "idle_args \<Rightarrow> exn + idlers" where
  "id_setup args =
     (case id_greet (ia_names args) \<lparr>id_socks = [], id_buf = (\<lambda>_. []), id_out = (\<lambda>_. []), id_hunter = None,
        id_goer = None, id_joined = False, id_go_at = None\<rparr> of
        Inl e \<Rightarrow> Inl e
      | Inr x \<Rightarrow> (case id_pairing args x of
          Inl e \<Rightarrow> Inl e
        | Inr y \<Rightarrow>
            if ia_join_guest args \<notin> {None, Some ''''} \<and> ia_names args = [] then Inl IndexError
            else Inr (y\<lparr>
              id_hunter := if ia_join_guest args \<in> {None, Some ''''} then None else Some (last (ia_names args)),
              id_goer := (case ia_go_name args of
                  None \<Rightarrow> None
                | Some g \<Rightarrow> if g \<noteq> '''' \<and> g \<in> set (id_socks y) then Some g else None)\<rparr>)))"

section \<open>Frames of an idler\<close>

text \<open>The hunter's search through a LOBBY frame, over \<open>body\<close> with its type byte.\<close>

fun id_hunt :: "string \<Rightarrow> string \<Rightarrow> byte list \<Rightarrow> nat list \<Rightarrow> idlers \<Rightarrow> exn + idlers" where
  "id_hunt hunter prefix body [] x = Inr x"
| "id_hunt hunter prefix body (i # ks) x =
     (let entry = take 9 (List.drop (2 + 9 * i) body);
          nm = decode_ascii (rstrip {0} (take 8 entry)) in
      if take (length prefix) nm \<noteq> prefix then id_hunt hunter prefix body ks x
      else if length entry \<le> 8 then Inl IndexError
      else if entry ! 8 AND 0x80 \<noteq> 0 then id_hunt hunter prefix body ks x
      else (case id_send hunter 0x04 (take 8 entry) x of
              Inl e \<Rightarrow> Inl e
            | Inr y \<Rightarrow> Inr (y\<lparr>id_joined := True\<rparr>)))"

definition id_goer_frame :: "idle_args \<Rightarrow> time \<Rightarrow> string \<Rightarrow> byte list \<Rightarrow> idlers \<Rightarrow> exn + idlers" where
  "id_goer_frame args now n body x =
     (if id_goer x \<noteq> Some n then Inr x
      else if body = [] then Inl IndexError
      else if body ! 0 \<noteq> 0x0E then Inr x
      else if length body < 2 then Inl IndexError
      else if unat (body ! 1) \<ge> 2 \<and> id_go_at x = None then Inr (x\<lparr>id_go_at := Some (now + ia_go_delay args)\<rparr>)
      else Inr x)"

definition id_hunter_frame :: "idle_args \<Rightarrow> string \<Rightarrow> byte list \<Rightarrow> idlers \<Rightarrow> exn + idlers" where
  "id_hunter_frame args n body x =
     (if id_hunter x \<noteq> Some n then Inr x
      else if body = [] then Inl IndexError
      else if body ! 0 \<noteq> 0x03 \<or> id_joined x then Inr x
      else if length body < 2 then Inl IndexError
      else id_hunt n (the (ia_join_guest args)) body [0..<unat (body ! 1)] x)"

definition id_frame :: "idle_args \<Rightarrow> time \<Rightarrow> string \<Rightarrow> byte list \<Rightarrow> idlers \<Rightarrow> exn + idlers" where
  "id_frame args now n body x =
     (case id_goer_frame args now n body x of Inl e \<Rightarrow> Inl e | Inr y \<Rightarrow> id_hunter_frame args n body y)"

text \<open>The loop over one idler's buffer; the buffer shrinks in every round.\<close>

fun id_frames :: "nat \<Rightarrow> idle_args \<Rightarrow> time \<Rightarrow> string \<Rightarrow> idlers \<Rightarrow> exn + idlers" where
  "id_frames 0 args now n x = Inr x"
| "id_frames (Suc k) args now n x =
     (let buf = id_buf x n in
      if length buf \<ge> 2 \<and> length buf \<ge> unat (buf ! 0) + 1 then
        let need = unat (buf ! 0) + 1;
            body = List.drop 1 (take need buf);
            y = x\<lparr>id_buf := (id_buf x)(n := List.drop need buf)\<rparr>
        in (case id_frame args now n body y of Inl e \<Rightarrow> Inl e | Inr z \<Rightarrow> id_frames k args now n z)
      else Inr x)"

section \<open>One pass of the polling loop\<close>

text \<open>\<open>None\<close> is a \<open>recv\<close> that raised.\<close>

fun id_drain :: "idle_args \<Rightarrow> time \<Rightarrow> (string \<Rightarrow> byte list option) \<Rightarrow> string list \<Rightarrow> idlers \<Rightarrow> exn + idlers" where
  "id_drain args now got [] x = Inr x"
| "id_drain args now got (n # ns) x =
     (case got n of
        None \<Rightarrow> id_drain args now got ns x
      | Some data \<Rightarrow>
          let y = x\<lparr>id_buf := (id_buf x)(n := id_buf x n @ data)\<rparr> in
          case id_frames (length (id_buf y n)) args now n y of
            Inl e \<Rightarrow> Inl e
          | Inr z \<Rightarrow> id_drain args now got ns z)"

definition id_go :: "time \<Rightarrow> idlers \<Rightarrow> exn + idlers" where
  "id_go now x =
     (case (id_goer x, id_go_at x) of
        (Some g, Some t) \<Rightarrow>
          if t \<le> now then
            (case id_send g 0x0F [] x of Inl e \<Rightarrow> Inl e | Inr y \<Rightarrow> Inr (y\<lparr>id_go_at := None, id_goer := None\<rparr>))
          else Inr x
      | _ \<Rightarrow> Inr x)"

definition id_poll_list :: "idlers \<Rightarrow> exn + idlers" where
  "id_poll_list x =
     (case id_hunter x of
        None \<Rightarrow> Inr x
      | Some h \<Rightarrow> if id_joined x then Inr x else id_send h 0x02 [] x)"

definition id_pass :: "idle_args \<Rightarrow> time \<Rightarrow> (string \<Rightarrow> byte list option) \<Rightarrow> idlers \<Rightarrow> exn + idlers" where
  "id_pass args now got x =
     (case id_drain args now got (id_socks x) x of
        Inl e \<Rightarrow> Inl e
      | Inr y \<Rightarrow> (case id_go now y of Inl e \<Rightarrow> Inl e | Inr z \<Rightarrow> id_poll_list z))"


section \<open>The hunter and the relay\<close>

lemma id_hunt_entries:
  assumes "\<And>i. i \<in> set ks \<Longrightarrow> take 9 (List.drop (2 + 9 * i) body) = pad8 (map byte_of_char (nm i)) @ [b i] \<and> valid_name (nm i)"
  shows "id_hunt h prefix body ks x =
    (case find (\<lambda>i. b i AND 0x80 = 0 \<and> take (length prefix) (nm i) = prefix) ks of
       None \<Rightarrow> Inr x
     | Some i \<Rightarrow> Inr (x\<lparr>id_out := (id_out x)(h := id_out x h @ encode_msg (T_JOIN, pad8 (map byte_of_char (nm i)))),
                        id_joined := True\<rparr>))"
  using assms
proof (induction ks)
  case (Cons i ks)
  have e: "take 9 (List.drop (2 + 9 * i) body) = pad8 (map byte_of_char (nm i)) @ [b i]" and v: "valid_name (nm i)"
    using Cons.prems[of i] by auto
  have n: "decode_ascii (rstrip {0} (pad8 (map byte_of_char (nm i)))) = nm i"
    using v by (simp add: rstrip_pad8 decode_encode valid_name_ascii)
  have j: "id_send h 0x04 (pad8 (map byte_of_char (nm i))) x =
      Inr (x\<lparr>id_out := (id_out x)(h := id_out x h @ encode_msg (T_JOIN, pad8 (map byte_of_char (nm i))))\<rparr>)"
    by (simp add: id_send_def peer_frame_ok T_JOIN_def)
  show ?case
    using Cons.IH Cons.prems n j by (auto simp: e Let_def nth_append)
qed simp

text \<open>
  C36 (the hunter joins who can be joined): when the relay's LOBBY frame reaches the hunter that
  has not joined anybody, it sends a JOIN for the first listed player who is alone and whose
  name has the prefix, and nothing when there is none; and the relay understands the name in
  that JOIN as this player.
\<close>

theorem hunter_joins_joinable:
  assumes "server_inv s" "id_hunter x = Some n" "id_goer x \<noteq> Some n" "\<not> id_joined x"
    and "ia_join_guest args = Some prefix"
  shows "case find (\<lambda>d. cl_room (client_of s d) = None \<and>
             take (length prefix) (the (cl_name (client_of s d))) = prefix) (lobby_others c s) of
      None \<Rightarrow> id_frame args now n (T_LOBBY # lobby_payload_of c s) x = Inr x
    | Some d \<Rightarrow>
        id_frame args now n (T_LOBBY # lobby_payload_of c s) x =
          Inr (x\<lparr>id_out := (id_out x)(n := id_out x n @ encode_msg (T_JOIN, name_bytes s d)), id_joined := True\<rparr>) \<and>
        map_of (sv_by_name s) (wire_name (name_bytes s d)) = Some d"
proof -
  have g: "good {} s" using assms(1) by (simp add: server_inv_def)
  let ?os = "lobby_others c s" and ?p = "lobby_payload_of c s"
  let ?P = "\<lambda>d. cl_room (client_of s d) = None \<and> take (length prefix) (the (cl_name (client_of s d))) = prefix"
  define nm where "nm i = the (cl_name (client_of s (?os ! i)))" for i
  define b where "b i = (if cl_room (client_of s (?os ! i)) = None then 1 else 0x82 :: byte)" for i
  have len: "unat (?p ! 0) = length ?os"
    using lobby_others_le[of c s] by (simp add: lobby_payload_of_def unat_of_nat)
  have ent: "take 9 (List.drop (2 + 9 * i) (T_LOBBY # ?p)) = pad8 (map byte_of_char (nm i)) @ [b i] \<and> valid_name (nm i)"
    if "i \<in> set [0..<length ?os]" for i
  proof
    have i: "i < length ?os" using that by simp
    show "take 9 (List.drop (2 + 9 * i) (T_LOBBY # ?p)) = pad8 (map byte_of_char (nm i)) @ [b i]"
      using lobby_entry_at[OF g i] by (simp add: nm_def b_def name_bytes_def)
    obtain m where "cl_name (client_of s (?os ! i)) = Some m" "valid_name m"
      by (rule lobby_other_named[OF g nth_mem[OF i]])
    then show "valid_name (nm i)" by (simp add: nm_def)
  qed
  have "id_frame args now n (T_LOBBY # ?p) x = id_hunt n prefix (T_LOBBY # ?p) [0..<length ?os] x"
    using assms(2-5) len
    by (simp add: id_frame_def id_goer_frame_def id_hunter_frame_def T_LOBBY_def) (simp add: lobby_payload_of_def)
  also have "\<dots> = (case find (\<lambda>i. b i AND 0x80 = 0 \<and> take (length prefix) (nm i) = prefix) [0..<length ?os] of
       None \<Rightarrow> Inr x
     | Some i \<Rightarrow> Inr (x\<lparr>id_out := (id_out x)(n := id_out x n @ encode_msg (T_JOIN, pad8 (map byte_of_char (nm i)))),
                        id_joined := True\<rparr>))"
    by (rule id_hunt_entries[OF ent])
  also have "(\<lambda>i. b i AND 0x80 = 0 \<and> take (length prefix) (nm i) = prefix) = (\<lambda>i. ?P (?os ! i))"
    by (rule ext) (simp add: b_def nm_def)
  finally have fr: "id_frame args now n (T_LOBBY # ?p) x = (case find (\<lambda>i. ?P (?os ! i)) [0..<length ?os] of
       None \<Rightarrow> Inr x
     | Some i \<Rightarrow> Inr (x\<lparr>id_out := (id_out x)(n := id_out x n @ encode_msg (T_JOIN, name_bytes s (?os ! i))),
                        id_joined := True\<rparr>))"
    by (simp only: nm_def name_bytes_def)
  have find: "find ?P ?os = map_option ((!) ?os) (find (\<lambda>i. ?P (?os ! i)) [0..<length ?os])"
    using find_map[of ?P "(!) ?os" "[0..<length ?os]"] unfolding map_nth .
  show ?thesis
  proof (cases "find (\<lambda>i. ?P (?os ! i)) [0..<length ?os]")
    case (Some i)
    then have "?os ! i \<in> set ?os" by (auto simp: find_Some_iff)
    then obtain m where "cl_name (client_of s (?os ! i)) = Some m" "valid_name m"
        "map_of (sv_by_name s) m = Some (?os ! i)"
      by (rule lobby_other_named[OF g])
    then have "map_of (sv_by_name s) (wire_name (name_bytes s (?os ! i))) = Some (?os ! i)"
      by (simp add: name_bytes_def wire_name_pad8)
    then show ?thesis unfolding find Some fr by simp
  qed (simp add: find fr)
qed


definition idlers_demo :: idlers where
  "idlers_demo = \<lparr>id_socks = [''ZED''], id_buf = (\<lambda>_. []), id_out = (\<lambda>_. []), id_hunter = Some ''ZED'',
     id_goer = None, id_joined = False, id_go_at = None\<rparr>"

definition idle_args_demo :: idle_args where
  "idle_args_demo = \<lparr>ia_names = [''ZED''], ia_pair = False, ia_go_name = None, ia_go_delay = 5, ia_join_guest = Some ''D''\<rparr>"

theorem hunter_joins_joinable_witness:
  "id_frame idle_args_demo 0 ''ZED'' (T_LOBBY # lobby_payload_of 2 (demo True)) idlers_demo =
     Inr (idlers_demo\<lparr>id_out := (\<lambda>_. [])(''ZED'' := encode_msg (T_JOIN, name_bytes (demo True) 3)), id_joined := True\<rparr>) \<and>
   map_of (sv_by_name (demo True)) (wire_name (name_bytes (demo True) 3)) = Some 3"
proof -
  have "lobby_others 2 (demo True) = [0, 1, 3]" by (simp add: lobby_others_def)
  moreover have "id_hunter idlers_demo = Some ''ZED''" "id_goer idlers_demo \<noteq> Some ''ZED''" "\<not> id_joined idlers_demo"
    "ia_join_guest idle_args_demo = Some ''D''" "id_out idlers_demo = (\<lambda>_. [])"
    by (simp_all add: idlers_demo_def idle_args_demo_def)
  ultimately show ?thesis
    using hunter_joins_joinable[OF demo_inv[of True], of idlers_demo "''ZED''" idle_args_demo "''D''" 0 2]
    by (simp del: map_of.simps)
qed

end
