(* ===== verification/Diff_Harness.thy ===== *)
theory Diff_Harness
  imports Peers "HOL-Library.Multiset"
begin

text \<open>
  The differential harness tools/server_diff.py: how received frames become transcript lines
  (class Client, \<open>Ctx.sync\<close>, \<open>render\<close>), how server logs become comparable
  (\<open>finish\<close>, \<open>normalize_log\<close>), and the verdict (\<open>compare\<close>, \<open>main\<close>).  Lines are
  strings.  The network is a script: per \<open>sync\<close> the list of what the successive
  \<open>select\<close> calls report; processes, ports, timeouts and printed diffs are left out.
\<close>

section \<open>Tables and formatting\<close>

definition sd_T :: "(string \<times> byte) list" where
  "sd_T =
     [(''HELLO'', 0x01), (''LIST'', 0x02), (''LOBBY'', 0x03), (''JOIN'', 0x04), (''START'', 0x05),
      (''INPUT'', 0x06), (''CRC'', 0x07), (''STATE'', 0x08), (''RESYNC'', 0x09), (''BYE'', 0x0A),
      (''PEER_LEFT'', 0x0B), (''PING'', 0x0C), (''PONG'', 0x0D), (''ROOM'', 0x0E), (''GO'', 0x0F)]"

definition TNAME :: "byte \<Rightarrow> string option" where
  "TNAME = map_of (map (\<lambda>(k, v). (v, k)) sd_T)"

definition sd_frame :: "byte \<Rightarrow> byte list \<Rightarrow> exn + byte list" where
  "sd_frame ftype payload =
     (case to_bytes [int (length payload) + 1] of Inl e \<Rightarrow> Inl e | Inr n \<Rightarrow> Inr (n @ [ftype] @ payload))"

definition sd_pad :: "string \<Rightarrow> byte list" where
  "sd_pad name = pad8 (utf8_encode name)"

definition hex_low :: "nat \<Rightarrow> char" where
  "hex_low n = (if n < 10 then char_of (48 + n) else char_of (87 + n))"

definition hex_up :: "nat \<Rightarrow> char" where
  "hex_up n = (if n < 10 then char_of (48 + n) else char_of (55 + n))"

text \<open>\<open>bytes.hex()\<close>\<close>

definition hex :: "byte list \<Rightarrow> string" where
  "hex bs = concat (map (\<lambda>b. [hex_low (unat b div 16), hex_low (unat b mod 16)]) bs)"

text \<open>Python's \<open>str\<close> and \<open>02d\<close> format of a number.\<close>

fun dec :: "nat \<Rightarrow> string" where
  "dec n = (if n < 10 then [char_of (48 + n)] else dec (n div 10) @ [char_of (48 + n mod 10)])"

declare dec.simps [simp del]

definition dec02 :: "nat \<Rightarrow> string" where
  "dec02 n = (if n < 10 then ''0'' @ dec n else dec n)"

section \<open>render\<close>

definition type_name :: "byte \<Rightarrow> string" where
  "type_name t =
     (case TNAME t of Some n \<Rightarrow> n | None \<Rightarrow> [CHR ''$'', hex_up (unat t div 16), hex_up (unat t mod 16)])"

definition render :: "nat \<Rightarrow> byte list \<Rightarrow> exn + string" where
  "render proto body =
     (case body of
        [] \<Rightarrow> Inl IndexError
      | t # p \<Rightarrow>
          if map_of sd_T ''START'' = Some t \<and> length p \<ge> 4 then
            let lo = (if proto = 1 then 1 else 2)
            in Inr (''START '' @ hex (p[lo := 0xAA, lo + 1 := 0xAA]) @ '' (seed masked)'')
          else Inr (type_name t @ '' '' @ hex p))"

section \<open>Clients and sync\<close>

record sd_client =
  dc_label :: string
  dc_buf :: "byte list"
  dc_closed :: bool
  dc_eof_seen :: bool
  dc_out :: "byte list"

record sd_ctx =
  dx_clients :: "sd_client list"
  dx_transcript :: "string list"
  dx_step :: nat

definition Client_open :: "string \<Rightarrow> sd_client" where
  "Client_open label = \<lparr>dc_label = label, dc_buf = [], dc_closed = False, dc_eof_seen = False, dc_out = []\<rparr>"

definition dc_send :: "byte list \<Rightarrow> sd_client \<Rightarrow> sd_client" where
  "dc_send data c = (if \<not> dc_closed c then c\<lparr>dc_out := dc_out c @ data\<rparr> else c)"

definition dc_close :: "sd_client \<Rightarrow> sd_client" where
  "dc_close c = (if \<not> dc_closed c then c\<lparr>dc_closed := True\<rparr> else c)"

text \<open>
  What \<open>recv\<close> gives for a readable socket: data, or the end (no data, or an OSError, which
  the code treats alike).
\<close>

definition dc_recv :: "byte list \<Rightarrow> sd_client \<Rightarrow> sd_client" where
  "dc_recv data c =
     (if data = [] then c\<lparr>dc_eof_seen := True, dc_closed := True\<rparr> else c\<lparr>dc_buf := dc_buf c @ data\<rparr>)"

text \<open>
  The draining loop: each element of the script is what one \<open>select\<close> reports, as pairs of a
  client's index and its data; a client that is not live is never reported.
\<close>

definition sd_select :: "(nat \<times> byte list) list \<Rightarrow> sd_client list \<Rightarrow> sd_client list" where
  "sd_select r cs = fold (\<lambda>(i, data) cs. if i < length cs \<and> \<not> dc_closed (cs ! i) then cs[i := dc_recv data (cs ! i)] else cs) r cs"

fun sd_drain :: "(nat \<times> byte list) list list \<Rightarrow> sd_client list \<Rightarrow> sd_client list" where
  "sd_drain [] cs = cs"
| "sd_drain (r # rs) cs = (if list_all dc_closed cs \<or> r = [] then cs else sd_drain rs (sd_select r cs))"

text \<open>The complete frames at the start of a buffer, and what is left.\<close>

function sd_bodies :: "byte list \<Rightarrow> byte list list \<times> byte list" where
  "sd_bodies buf =
     (if length buf \<ge> 1 \<and> length buf \<ge> unat (buf ! 0) + 1 then
        let need = unat (buf ! 0) + 1 in
        case sd_bodies (List.drop need buf) of (bs, left) \<Rightarrow> (List.drop 1 (take need buf) # bs, left)
      else ([], buf))"
  by pat_completeness auto
termination by (relation "measure length") auto

declare sd_bodies.simps [simp del]

definition sd_record :: "nat \<Rightarrow> string \<Rightarrow> sd_client \<Rightarrow> exn + string list" where
  "sd_record proto tag c =
     (case sd_bodies (dc_buf c) of (bodies, left) \<Rightarrow>
        (case sum_map (render proto) bodies of
           Inl e \<Rightarrow> Inl e
         | Inr rs \<Rightarrow>
             let line = (\<lambda>x. tag @ '' | '' @ dc_label c @ '' <- '' @ x)
             in Inr (map line rs
                  @ (if left \<noteq> [] then [line (''PARTIAL '' @ hex left)] else [])
                  @ (if dc_eof_seen c then [line ''EOF''] else []))))"

definition sd_sync :: "nat \<Rightarrow> string \<Rightarrow> (nat \<times> byte list) list list \<Rightarrow> sd_ctx \<Rightarrow> exn + sd_ctx" where
  "sd_sync proto step rounds x =
     (let n = dx_step x + 1;
          tag = dec02 n @ '' '' @ step;
          cs = sd_drain rounds (dx_clients x)
      in case sum_map (sd_record proto tag) cs of
           Inl e \<Rightarrow> Inl e
         | Inr ls \<Rightarrow> Inr (x\<lparr>dx_step := n, dx_transcript := dx_transcript x @ concat ls,
                            dx_clients := map (\<lambda>c. c\<lparr>dc_buf := [], dc_eof_seen := False\<rparr>) cs\<rparr>))"

section \<open>Server logs\<close>

definition digit :: "char \<Rightarrow> bool" where
  "digit c \<longleftrightarrow> (of_char c :: nat) \<in> {48..57}"

definition hexdigit_up :: "char \<Rightarrow> bool" where
  "hexdigit_up c \<longleftrightarrow> digit c \<or> (of_char c :: nat) \<in> {65..70}"

definition strip_prefix :: "string \<Rightarrow> string \<Rightarrow> string option" where
  "strip_prefix pre s = (if take (length pre) s = pre then Some (List.drop (length pre) s) else None)"

text \<open>The timestamp of LOGLINE: a \<open>d\<close> of the template stands for a digit.\<close>

fun match_template :: "string \<Rightarrow> string \<Rightarrow> string option" where
  "match_template [] s = Some s"
| "match_template (p # ps) [] = None"
| "match_template (p # ps) (c # cs) =
     (if (if p = CHR ''d'' then digit c else c = p) then match_template ps cs else None)"

definition LEVELS :: "string list" where
  "LEVELS = [''INFO'', ''WARNING'', ''DEBUG'', ''ERROR'']"

text \<open>A line that matches LOGLINE becomes \<open>log LEVEL text\<close>; \<open>None\<close> is a line without a match.\<close>

definition log_record :: "string \<Rightarrow> string option" where
  "log_record line =
     (case match_template ''dddd-dd-dd dd:dd:dd,ddd '' line of
        None \<Rightarrow> None
      | Some rest \<Rightarrow>
          (case find (\<lambda>l. strip_prefix (l @ '' '') rest \<noteq> None) LEVELS of
             None \<Rightarrow> None
           | Some l \<Rightarrow> Some (''log '' @ l @ '' '' @ the (strip_prefix (l @ '' '') rest))))"

definition finish_lines :: "string list \<Rightarrow> string list \<Rightarrow> string list" where
  "finish_lines transcript raw_log = transcript @ List.map_filter log_record raw_log"

text \<open>
  \<open>re.sub\<close> with a matcher that returns what follows a match at the start of a text: the
  leftmost matches are replaced, from left to right.
\<close>

function re_sub :: "(string \<Rightarrow> string option) \<Rightarrow> string \<Rightarrow> string \<Rightarrow> string" where
  "re_sub m repl [] = []"
| "re_sub m repl (c # cs) =
     (case m (c # cs) of
        Some rest \<Rightarrow> if length rest < length (c # cs) then repl @ re_sub m repl rest else c # re_sub m repl cs
      | None \<Rightarrow> c # re_sub m repl cs)"
  by pat_completeness auto
termination by (relation "measure (\<lambda>(m, r, s). length s)") auto

definition match_seed :: "string \<Rightarrow> string option" where
  "match_seed s =
     (case strip_prefix ''(seed $'' s of
        None \<Rightarrow> None
      | Some r \<Rightarrow>
          if length r \<ge> 4 \<and> list_all hexdigit_up (take 4 r) then strip_prefix '')'' (List.drop 4 r) else None)"

definition match_peer :: "string \<Rightarrow> string option" where
  "match_peer s =
     (case strip_prefix ([CHR ''('', CHR 0x27] @ ''127.0.0.1'' @ [CHR 0x27] @ '', '') s of
        None \<Rightarrow> None
      | Some r \<Rightarrow> if takeWhile digit r = [] then None else strip_prefix '')'' (dropWhile digit r))"

definition match_listen :: "string \<Rightarrow> string option" where
  "match_listen s =
     (case strip_prefix ''listening on :'' s of
        None \<Rightarrow> None
      | Some r \<Rightarrow> if takeWhile digit r = [] then None else Some (dropWhile digit r))"

definition C_ONLY :: "string \<Rightarrow> bool" where
  "C_ONLY l \<longleftrightarrow> strip_prefix ''log WARNING a protocol v1 console tried to connect'' l \<noteq> None"

definition normalize_line :: "string \<Rightarrow> string" where
  "normalize_line l =
     re_sub match_listen ''listening on :PORT''
       (re_sub match_peer ([CHR ''('', CHR 0x27] @ ''127.0.0.1'' @ [CHR 0x27] @ '', PORT)'')
         (re_sub match_seed ''(seed $SEED)'' l))"

definition normalize_log :: "string list \<Rightarrow> string list \<times> nat" where
  "normalize_log lines =
     (map normalize_line (filter (\<lambda>l. \<not> C_ONLY l) lines), length (filter C_ONLY lines))"

section \<open>Verdicts\<close>

definition compare :: "nat \<Rightarrow> string \<Rightarrow> bool \<Rightarrow> string list \<Rightarrow> string list \<Rightarrow> bool" where
  "compare proto name strict py c =
     (let same = (if name = ''limits'' then mset py = mset c else py = c) in
      if same then True
      else if name = ''framing'' \<and> proto = 2 then \<not> strict
      else False)"

definition DEFAULT_ORDER_V2 :: "string list" where
  "DEFAULT_ORDER_V2 = [''roster'', ''rooms'', ''start'', ''relay'', ''drops'', ''framing'']"

definition DEFAULT_ORDER_V1 :: "string list" where
  "DEFAULT_ORDER_V1 = [''roster'', ''pairing'', ''relay'', ''drops'', ''framing'']"

definition SCENARIO_NAMES :: "nat \<Rightarrow> string list" where
  "SCENARIO_NAMES proto =
     (if proto = 1 then [''roster'', ''pairing'', ''relay'', ''drops'', ''framing'', ''limits'']
      else [''roster'', ''rooms'', ''start'', ''relay'', ''drops'', ''framing'', ''limits''])"

datatype sd_exit =
    Listed "string list"
  | No_reference
  | Needs_reference
  | Not_built
  | Unknown_scenario string
  | Not_diffable nat
  | Verdict bool

record sd_args =
  sa_seats :: nat
  sa_proto :: nat
  sa_python_server :: "string option"
  sa_scenario :: "string list"
  sa_strict :: bool
  sa_list :: bool

text \<open>
  The files that exist and the two normalized logs of a scenario are parameters; an option that
  is not given and an empty one are alike for the code.
\<close>

definition sd_main :: "(string \<Rightarrow> bool) \<Rightarrow> bool \<Rightarrow> (string \<Rightarrow> string list \<times> string list) \<Rightarrow> sd_args \<Rightarrow> sd_exit" where
  "sd_main exists built run args =
     (let names = (if sa_scenario args \<noteq> [] then sa_scenario args
                   else if sa_proto args = 1 then DEFAULT_ORDER_V1 else DEFAULT_ORDER_V2)
      in if sa_list args then Listed (SCENARIO_NAMES (sa_proto args))
         else if (case sa_python_server args of None \<Rightarrow> False | Some p \<Rightarrow> p \<noteq> [] \<and> \<not> exists p) then No_reference
         else if sa_python_server args \<in> {None, Some []} \<and> sa_proto args = 1 then Needs_reference
         else if \<not> built then Not_built
         else case find (\<lambda>n. n \<notin> set (SCENARIO_NAMES (sa_proto args))) names of
           Some n \<Rightarrow> Unknown_scenario n
         | None \<Rightarrow>
             if sa_proto args = 2 \<and> sa_seats args \<noteq> 2 then Not_diffable (sa_seats args)
             else Verdict (list_all (\<lambda>n. compare (sa_proto args) n (sa_strict args) (fst (run n)) (snd (run n))) names))"

section \<open>Rendering is faithful\<close>

lemma hex_low_code: "k < 16 \<Longrightarrow> (of_char (hex_low k) :: nat) = (if k < 10 then 48 + k else 87 + k)"
  by (simp add: hex_low_def)

lemma hex_up_code: "k < 16 \<Longrightarrow> (of_char (hex_up k) :: nat) = (if k < 10 then 48 + k else 55 + k)"
  by (simp add: hex_up_def)

lemma hex_low_inj:
  assumes "m < 16" "n < 16" "hex_low m = hex_low n"
  shows "m = n"
proof -
  have "(if m < 10 then 48 + m else 87 + m) = (if n < 10 then 48 + n else 87 + n)"
    unfolding hex_low_code[OF assms(1), symmetric] hex_low_code[OF assms(2), symmetric] assms(3) by (rule refl)
  then show ?thesis using assms(1,2) by (simp split: if_splits)
qed

lemma hex_up_inj:
  assumes "m < 16" "n < 16" "hex_up m = hex_up n"
  shows "m = n"
proof -
  have "(if m < 10 then 48 + m else 55 + m) = (if n < 10 then 48 + n else 55 + n)"
    unfolding hex_up_code[OF assms(1), symmetric] hex_up_code[OF assms(2), symmetric] assms(3) by (rule refl)
  then show ?thesis using assms(1,2) by (simp split: if_splits)
qed

lemma nibbles: "unat (b :: byte) div 16 < 16" "unat (b :: byte) mod 16 < 16"
  using unat_byte_less[of b] less_mult_imp_div_less[of "unat b" 16 16] by simp_all

lemma byte_of_nibbles:
  "unat (a :: byte) div 16 = unat b div 16 \<Longrightarrow> unat a mod 16 = unat b mod 16 \<Longrightarrow> a = b"
  by (metis div_mult_mod_eq word_unat_eq_iff)

lemma hex_inj: "hex p = hex q \<longleftrightarrow> p = q"
proof (induction p arbitrary: q)
  case Nil
  show ?case by (cases q) (simp_all add: hex_def)
next
  case (Cons a p)
  show ?case
  proof (cases q)
    case (Cons b q')
    have "hex_low (unat a div 16) = hex_low (unat b div 16) \<and> hex_low (unat a mod 16) = hex_low (unat b mod 16) \<longleftrightarrow> a = b"
      using hex_low_inj nibbles byte_of_nibbles by metis
    then show ?thesis using Cons.IH[of q'] Cons by (auto simp: hex_def)
  qed (simp add: hex_def)
qed

lemma hex_chars: "c \<in> set (hex p) \<Longrightarrow> c \<noteq> CHR '')'' \<and> c \<noteq> CHR '' ''"
proof -
  have "hex_low k \<noteq> CHR '')'' \<and> hex_low k \<noteq> CHR '' ''" if "k < 16" for k
    using hex_low_code[OF that] by (auto split: if_splits)
  with nibbles show "c \<in> set (hex p) \<Longrightarrow> c \<noteq> CHR '')'' \<and> c \<noteq> CHR '' ''"
    by (auto simp: hex_def)
qed

lemma TNAME_T: "TNAME t = Some n \<Longrightarrow> (n, t) \<in> set sd_T"
  unfolding TNAME_def by (auto dest!: map_of_SomeD)

lemma TNAME_inj:
  assumes "TNAME t = Some n" "TNAME u = Some n"
  shows "t = u"
proof -
  have "distinct (map fst sd_T)" by (simp add: sd_T_def)
  from eq_key_imp_eq_value[OF this TNAME_T[OF assms(1)] TNAME_T[OF assms(2)]] show ?thesis .
qed

lemma TNAME_chars:
  assumes "TNAME t = Some n"
  shows "hd (n @ [x]) \<noteq> CHR ''$'' \<and> (\<forall>c\<in>set n. c \<noteq> CHR '' '')"
proof -
  have "list_all (\<lambda>(n, t). n \<noteq> [] \<and> hd n \<noteq> CHR ''$'' \<and> list_all (\<lambda>c. c \<noteq> CHR '' '') n) sd_T"
    by (simp add: sd_T_def)
  with TNAME_T[OF assms] have "n \<noteq> [] \<and> hd n \<noteq> CHR ''$'' \<and> list_all (\<lambda>c. c \<noteq> CHR '' '') n"
    by (auto simp: list_all_iff)
  then show ?thesis by (simp add: list_all_iff)
qed

lemma type_name_spaceless: "c \<in> set (type_name t) \<Longrightarrow> c \<noteq> CHR '' ''"
proof (cases "TNAME t")
  case None
  have "hex_up k \<noteq> CHR '' ''" if "k < 16" for k
  proof
    assume "hex_up k = CHR '' ''"
    then have "(of_char (hex_up k) :: nat) = of_char (CHR '' '')" by (rule arg_cong)
    then show False unfolding hex_up_code[OF that] by (simp split: if_splits)
  qed
  from this[OF nibbles(1)[of t]] this[OF nibbles(2)[of t]] None
  show "c \<in> set (type_name t) \<Longrightarrow> c \<noteq> CHR '' ''"
    by (auto simp: type_name_def)
qed (use TNAME_chars in \<open>auto simp: type_name_def\<close>)

lemma type_name_inj: "type_name t = type_name u \<longleftrightarrow> t = u"
proof
  assume eq: "type_name t = type_name u"
  have dollar: "TNAME v = None \<longleftrightarrow> hd (type_name v @ ''x'') = CHR ''$''" for v
    using TNAME_chars[of v _ "CHR ''x''"] by (cases "TNAME v") (auto simp: type_name_def)
  show "t = u"
  proof (cases "TNAME t")
    case None
    then have "TNAME u = None" using dollar eq by simp
    with None eq show ?thesis using nibbles[of t] nibbles[of u]
      by (intro byte_of_nibbles hex_up_inj) (simp_all add: type_name_def)
  next
    case (Some n)
    then have "TNAME u \<noteq> None" using dollar eq by (metis option.distinct(1))
    with Some eq show ?thesis using TNAME_inj by (auto simp: type_name_def)
  qed
qed simp

text \<open>A frame without what a transcript hides: the seed of a START.\<close>

definition masked :: "byte list \<Rightarrow> bool" where
  "masked body \<longleftrightarrow> body \<noteq> [] \<and> hd body = 0x05 \<and> length body \<ge> 5"

definition unseeded :: "nat \<Rightarrow> byte list \<Rightarrow> byte list" where
  "unseeded proto body =
     (if masked body then (let k = (if proto = 1 then 2 else 3) in body[k := 0xAA, k + 1 := 0xAA]) else body)"

lemma split_at_space:
  assumes "\<forall>c\<in>set m. c \<noteq> CHR '' ''" "\<forall>c\<in>set n. c \<noteq> CHR '' ''" "m @ CHR '' '' # x = n @ CHR '' '' # y"
  shows "m = n \<and> x = y"
  using assms
proof (induction m arbitrary: n)
  case Nil
  then show ?case by (cases n) auto
next
  case (Cons a m)
  then show ?case by (cases n) auto
qed

lemma sd_T_START: "map_of sd_T ''START'' = Some 0x05" "type_name 0x05 = ''START''"
  by (simp_all add: sd_T_def type_name_def TNAME_def)

definition mask_note :: "byte list \<Rightarrow> string" where
  "mask_note body = (if masked body then '' (seed masked)'' else [])"

lemma render_form:
  assumes "body \<noteq> []"
  shows "render proto body = Inr (type_name (hd body) @ CHR '' '' # hex (tl (unseeded proto body)) @ mask_note body)"
proof -
  obtain t p where b: "body = t # p" using assms by (cases body) auto
  show ?thesis
    using sd_T_START by (auto simp: b render_def unseeded_def masked_def mask_note_def Let_def eval_nat_numeral)
qed

lemma unseeded_hd: "body \<noteq> [] \<Longrightarrow> unseeded proto body = hd body # tl (unseeded proto body)"
  by (cases body) (auto simp: unseeded_def Let_def)

lemma masked_unseeded: "masked (unseeded proto body) = masked body"
  by (cases body) (auto simp: unseeded_def masked_def Let_def)

lemma hex_note_inj:
  "hex p @ mask_note a = hex q @ mask_note b \<Longrightarrow> p = q \<and> (masked a \<longleftrightarrow> masked b)"
proof -
  assume eq: "hex p @ mask_note a = hex q @ mask_note b"
  have note_paren: "mask_note x = [] \<or> last (hex y @ mask_note x) = CHR '')''" for x y by (simp add: mask_note_def)
  have "CHR '')'' \<in> set (hex p @ mask_note a) \<longleftrightarrow> masked a" for p a
    using hex_chars[of "CHR '')''" p] by (auto simp: mask_note_def)
  with eq have "masked a \<longleftrightarrow> masked b" by metis
  then show ?thesis using eq by (simp add: mask_note_def hex_inj split: if_splits)
qed

text \<open>
  C37 (a transcript hides only the seed): two received frames are rendered alike exactly when they
  are equal, or both are START frames that are equal up to the two bytes of the seed (bytes 2-3
  of the payload in protocol 2, bytes 1-2 in protocol 1).
\<close>

theorem render_separates:
  assumes "a \<noteq> []" "b \<noteq> []"
  shows "render proto a = render proto b \<longleftrightarrow> unseeded proto a = unseeded proto b"
proof
  assume "render proto a = render proto b"
  then have "type_name (hd a) @ CHR '' '' # hex (tl (unseeded proto a)) @ mask_note a =
      type_name (hd b) @ CHR '' '' # hex (tl (unseeded proto b)) @ mask_note b"
    by (simp only: render_form[OF assms(1)] render_form[OF assms(2)] sum.inject)
  with split_at_space have "type_name (hd a) = type_name (hd b) \<and>
      hex (tl (unseeded proto a)) @ mask_note a = hex (tl (unseeded proto b)) @ mask_note b"
    using type_name_spaceless by blast
  then have "hd a = hd b" "tl (unseeded proto a) = tl (unseeded proto b)"
    using hex_note_inj by (auto simp: type_name_inj)
  then show "unseeded proto a = unseeded proto b" using unseeded_hd[OF assms(1)] unseeded_hd[OF assms(2)] by metis
next
  assume eq: "unseeded proto a = unseeded proto b"
  then have "hd a = hd b" using unseeded_hd[OF assms(1)] unseeded_hd[OF assms(2)] by (metis list.sel(1))
  moreover have "mask_note a = mask_note b"
    using eq masked_unseeded by (metis mask_note_def)
  ultimately show "render proto a = render proto b"
    unfolding render_form[OF assms(1)] render_form[OF assms(2)] eq by simp
qed

theorem render_separates_witness:
  "render 2 [5, 0, 2, 0x12, 0x34, 3] = render 2 [5, 0, 2, 0x56, 0x78, 3] \<and> render 2 [5, 0, 2, 0x12, 0x34, 3] \<noteq> render 2 [5, 1, 2, 0x12, 0x34, 3]"
  using render_separates[of "[5, 0, 2, 0x12, 0x34, 3]" "[5, 0, 2, 0x56, 0x78, 3]" 2]
    render_separates[of "[5, 0, 2, 0x12, 0x34, 3]" "[5, 1, 2, 0x12, 0x34, 3]" 2]
  by (simp add: unseeded_def masked_def Let_def eval_nat_numeral)

section \<open>Transcripts do not depend on the timing\<close>

lemma sd_bodies_encoded:
  "list_all (\<lambda>m. length (snd m) < 255) ms \<Longrightarrow>
   sd_bodies (concat (map encode_msg ms)) = (map (\<lambda>m. fst m # snd m) ms, [])"
proof (induction ms)
  case Nil
  show ?case by (subst sd_bodies.simps) simp
next
  case (Cons m ms)
  have "unat (word_of_nat (Suc (length (snd m))) :: byte) = Suc (length (snd m))"
    using Cons.prems by (intro unat_len_byte) simp
  moreover have "sd_bodies (concat (map encode_msg ms)) = (map (\<lambda>m. fst m # snd m) ms, [])"
    using Cons by simp
  ultimately show ?case by (subst sd_bodies.simps) (simp add: encode_msg_def Let_def)
qed

text \<open>
  A script that makes sense: every \<open>select\<close> reports something, each client at most once, and
  nothing after a client's end; the last rounds may end the clients.
\<close>

definition sd_got :: "(nat \<times> byte list) list list \<Rightarrow> nat \<Rightarrow> byte list" where
  "sd_got rounds i = concat (map snd (filter (\<lambda>p. fst p = i) (concat rounds)))"

definition sd_ended :: "(nat \<times> byte list) list list \<Rightarrow> nat \<Rightarrow> bool" where
  "sd_ended rounds i \<longleftrightarrow> (i, []) \<in> set (concat rounds)"

fun sd_orderly :: "(nat \<times> byte list) list \<Rightarrow> bool" where
  "sd_orderly [] \<longleftrightarrow> True"
| "sd_orderly ((i, d) # es) \<longleftrightarrow> (d = [] \<longrightarrow> i \<notin> fst ` set es) \<and> sd_orderly es"

definition sd_event :: "nat \<times> byte list \<Rightarrow> sd_client list \<Rightarrow> sd_client list" where
  "sd_event e cs = (case e of (i, data) \<Rightarrow>
     if i < length cs \<and> \<not> dc_closed (cs ! i) then cs[i := dc_recv data (cs ! i)] else cs)"

lemma length_sd_event [simp]: "length (sd_event e cs) = length cs"
  by (simp add: sd_event_def split: prod.split)

lemma sd_select_event: "sd_select r cs = fold sd_event r cs"
  by (simp add: sd_select_def sd_event_def [abs_def] case_prod_unfold)

lemma length_sd_events: "length (fold sd_event es cs) = length cs"
  by (induction es arbitrary: cs) simp_all

lemma sd_event_closed: "list_all dc_closed cs \<Longrightarrow> fold sd_event es cs = cs"
  by (induction es) (auto simp: sd_event_def list_all_length split: prod.split)

lemma sd_drain_fold: "list_all (\<lambda>r. r \<noteq> []) rounds \<Longrightarrow> sd_drain rounds cs = fold sd_event (concat rounds) cs"
  by (induction rounds arbitrary: cs) (auto simp: sd_select_event sd_event_closed)

lemma sd_event_nth:
  "i < length cs \<Longrightarrow> sd_event (j, d) cs ! i = (if j = i \<and> \<not> dc_closed (cs ! i) then dc_recv d (cs ! i) else cs ! i)"
  by (auto simp: sd_event_def nth_list_update)

lemma sd_events_nth:
  assumes "sd_orderly es" "i < length cs"
  shows "fold sd_event es cs ! i =
    (if dc_closed (cs ! i) then cs ! i
     else (cs ! i)\<lparr>dc_buf := dc_buf (cs ! i) @ concat (map snd (filter (\<lambda>p. fst p = i) es)),
                   dc_closed := (i, []) \<in> set es, dc_eof_seen := dc_eof_seen (cs ! i) \<or> (i, []) \<in> set es\<rparr>)"
  using assms
proof (induction es arbitrary: cs)
  case (Cons e es)
  obtain j d where e: "e = (j, d)" by fastforce
  note IH = Cons.IH[of "sd_event e cs"]
  have gone: "filter (\<lambda>p. fst p = i) es = [] \<and> (i, []) \<notin> set es" if "j = i" "d = []"
    using Cons.prems(1) that by (force simp: e filter_empty_conv)
  show ?case
    using IH Cons.prems sd_event_nth[OF Cons.prems(2), of j d] gone
    by (auto simp: e dc_recv_def)
qed simp

definition rendered :: "nat \<Rightarrow> byte \<times> byte list \<Rightarrow> string" where
  "rendered proto m = projr (render proto (fst m # snd m))"

lemma render_rendered: "render proto (fst m # snd m) = Inr (rendered proto m)"
  using render_form[of "fst m # snd m" proto] by (simp add: rendered_def)

definition sd_line :: "string \<Rightarrow> sd_client \<Rightarrow> string \<Rightarrow> string" where
  "sd_line tag c x = tag @ '' | '' @ dc_label c @ '' <- '' @ x"

lemma sum_map_map: "sum_map f (map g xs) = sum_map (\<lambda>x. f (g x)) xs"
  by (induction xs) (auto split: sum.split)

lemma sd_record_messages:
  assumes "dc_buf c = concat (map encode_msg ms)" "list_all (\<lambda>m. length (snd m) < 255) ms"
  shows "sd_record proto tag c =
    Inr (map (\<lambda>m. sd_line tag c (rendered proto m)) ms @ (if dc_eof_seen c then [sd_line tag c ''EOF''] else []))"
proof -
  have "sum_map (render proto) (map (\<lambda>m. fst m # snd m) ms) = Inr (map (rendered proto) ms)"
    unfolding sum_map_map render_rendered by (rule sum_map_Inr) (rule refl)
  then show ?thesis
    by (simp add: sd_record_def assms(1) sd_bodies_encoded[OF assms(2)] sd_line_def Let_def)
qed

text \<open>What a sync leaves: one line for each message of a client that is not closed, and EOF.\<close>

definition sync_lines :: "nat \<Rightarrow> string \<Rightarrow> (nat \<Rightarrow> (byte \<times> byte list) list) \<Rightarrow> (nat \<Rightarrow> bool) \<Rightarrow> sd_client list \<Rightarrow> string list" where
  "sync_lines proto tag ms ends cs =
     concat (map (\<lambda>i. if dc_closed (cs ! i) then []
       else map (\<lambda>m. sd_line tag (cs ! i) (rendered proto m)) (ms i) @ (if ends i then [sd_line tag (cs ! i) ''EOF''] else []))
       [0..<length cs])"

lemma sd_sync_lines:
  assumes "list_all (\<lambda>r. r \<noteq> []) rounds" "sd_orderly (concat rounds)"
    and "\<And>i. i < length (dx_clients x) \<Longrightarrow> dc_buf (dx_clients x ! i) = [] \<and> \<not> dc_eof_seen (dx_clients x ! i)"
    and "\<And>i. i < length (dx_clients x) \<Longrightarrow> \<not> dc_closed (dx_clients x ! i) \<Longrightarrow>
      sd_got rounds i = concat (map encode_msg (ms i)) \<and> list_all (\<lambda>m. length (snd m) < 255) (ms i)"
  shows "sd_sync proto step rounds x = Inr (x\<lparr>
    dx_step := dx_step x + 1,
    dx_transcript := dx_transcript x @ sync_lines proto (dec02 (dx_step x + 1) @ '' '' @ step) ms (sd_ended rounds) (dx_clients x),
    dx_clients := map (\<lambda>i. (dx_clients x ! i)\<lparr>dc_closed := dc_closed (dx_clients x ! i) \<or> sd_ended rounds i\<rparr>)
      [0..<length (dx_clients x)]\<rparr>)"
proof -
  let ?cs = "dx_clients x" and ?tag = "dec02 (dx_step x + 1) @ '' '' @ step"
  let ?lines = "\<lambda>i. if dc_closed (?cs ! i) then []
    else map (\<lambda>m. sd_line ?tag (?cs ! i) (rendered proto m)) (ms i) @ (if sd_ended rounds i then [sd_line ?tag (?cs ! i) ''EOF''] else [])"
  let ?ds = "sd_drain rounds ?cs"
  have ds: "?ds = fold sd_event (concat rounds) ?cs" by (rule sd_drain_fold[OF assms(1)])
  have len: "length ?ds = length ?cs" unfolding ds by (rule length_sd_events)
  have d: "?ds ! i = (if dc_closed (?cs ! i) then ?cs ! i else (?cs ! i)\<lparr>dc_buf := sd_got rounds i,
      dc_closed := sd_ended rounds i, dc_eof_seen := sd_ended rounds i\<rparr>)" if i: "i < length ?cs" for i
    using sd_events_nth[OF assms(2) i] assms(3)[OF i] unfolding ds by (simp add: sd_got_def sd_ended_def)
  have rec: "sd_record proto ?tag (?ds ! i) = Inr (?lines i)" if i: "i < length ?cs" for i
  proof (cases "dc_closed (?cs ! i)")
    case True
    then show ?thesis
      using sd_record_messages[of "?cs ! i" "[]" proto ?tag] assms(3)[OF i] by (simp add: d[OF i])
  next
    case False
    then show ?thesis
      using sd_record_messages[of "?ds ! i" "ms i" proto ?tag] assms(3,4)[OF i]
      by (simp add: d[OF i] sd_line_def Let_def)
  qed
  have idx: "map ((!) ?ds) [0..<length ?cs] = ?ds" using len map_nth[of ?ds] by simp
  have "sum_map (sd_record proto ?tag) (map ((!) ?ds) [0..<length ?cs]) = Inr (map ?lines [0..<length ?cs])"
    unfolding sum_map_map by (rule sum_map_Inr) (use rec in simp)
  then have r: "sum_map (sd_record proto ?tag) ?ds = Inr (map ?lines [0..<length ?cs])" by (simp only: idx)
  have clients: "map (\<lambda>c. c\<lparr>dc_buf := [], dc_eof_seen := False\<rparr>) (map ((!) ?ds) [0..<length ?cs]) =
      map (\<lambda>i. (?cs ! i)\<lparr>dc_closed := dc_closed (?cs ! i) \<or> sd_ended rounds i\<rparr>) [0..<length ?cs]"
    using d assms(3) by simp
  then show ?thesis by (simp only: sd_sync_def Let_def r idx sum.case sync_lines_def)
qed



text \<open>
  The verdict: a run of the harness passes exactly when every selected scenario leaves the
  same normalized lines for both servers, as a multiset for the racy scenario \<open>limits\<close>; only
  the scenario \<open>framing\<close> of protocol 2 may differ, unless \<open>--strict\<close> is given.
\<close>

theorem harness_verdict:
  "sd_main exists built run args = Verdict True \<longleftrightarrow>
     (sa_list args = False \<and> built \<and>
      (case sa_python_server args of None \<Rightarrow> sa_proto args \<noteq> 1
         | Some p \<Rightarrow> if p = [] then sa_proto args \<noteq> 1 else exists p) \<and>
      \<not> (sa_proto args = 2 \<and> sa_seats args \<noteq> 2) \<and>
      list_all (\<lambda>n. n \<in> set (SCENARIO_NAMES (sa_proto args)) \<and>
          (fst (run n) = snd (run n) \<or> n = ''limits'' \<and> mset (fst (run n)) = mset (snd (run n)) \<or>
           (if n = ''framing'' \<and> sa_proto args = 2 then sa_strict args = False else False)))
        (if sa_scenario args \<noteq> [] then sa_scenario args
         else if sa_proto args = 1 then DEFAULT_ORDER_V1 else DEFAULT_ORDER_V2))"
proof -
  have cmp: "compare p n st a b \<longleftrightarrow> a = b \<or> n = ''limits'' \<and> mset a = mset b \<or>
      (if n = ''framing'' \<and> p = 2 then st = False else False)" for p n st a b
    by (auto simp: compare_def Let_def)
  define names where "names = (if sa_scenario args \<noteq> [] then sa_scenario args
         else if sa_proto args = 1 then DEFAULT_ORDER_V1 else DEFAULT_ORDER_V2)"
  define good where "good n \<longleftrightarrow> n \<in> set (SCENARIO_NAMES (sa_proto args))" for n
  define same where "same n \<longleftrightarrow> compare (sa_proto args) n (sa_strict args) (fst (run n)) (snd (run n))" for n
  have none: "find (\<lambda>n. \<not> good n) names = None \<longleftrightarrow> list_all good names"
    by (auto simp: find_None_iff list_all_iff)
  have main: "sd_main exists built run args =
      (if sa_list args then Listed (SCENARIO_NAMES (sa_proto args))
       else if (case sa_python_server args of None \<Rightarrow> False | Some p \<Rightarrow> p \<noteq> [] \<and> \<not> exists p) then No_reference
       else if sa_python_server args \<in> {None, Some []} \<and> sa_proto args = 1 then Needs_reference
       else if \<not> built then Not_built
       else case find (\<lambda>n. \<not> good n) names of
         Some n \<Rightarrow> Unknown_scenario n
       | None \<Rightarrow> if sa_proto args = 2 \<and> sa_seats args \<noteq> 2 then Not_diffable (sa_seats args)
                 else Verdict (list_all same names))"
    unfolding sd_main_def Let_def names_def [symmetric] good_def same_def ..
  have "list_all (\<lambda>n. good n \<and> same n) names \<longleftrightarrow> list_all good names \<and> list_all same names"
    by (auto simp: list_all_iff)
  then show ?thesis
    unfolding main cmp [symmetric] names_def [symmetric] good_def [symmetric] same_def [symmetric]
    using none by (cases "find (\<lambda>n. \<not> good n) names"; cases "sa_python_server args") auto
qed

end
