(* ===== verification/Diff_Scenarios.thy ===== *)
theory Diff_Scenarios
  imports Relay_Frames Diff_Harness
begin

text \<open>
  The scripted scenarios of tools/server_diff.py as lists of actions on the harness, for protocol
  2 and protocol 1, and their execution.  A scenario's client variables are named by their
  labels.  The actions are \<open>connect\<close>, \<open>hello\<close>, \<open>send(frame(T[..], ..))\<close>, a frame
  with an explicit type, raw bytes, \<open>close\<close>, \<open>sync\<close> and \<open>time.sleep\<close>.
\<close>

section \<open>Actions\<close>

datatype action =
    Connect string
  | Hello string "string option" "nat option"
  | Frame string string "byte list"
  | Frame_code string byte "byte list"
  | Raw string "byte list"
  | Close string
  | Sync string
  | Sleep

definition hello_as :: "string \<Rightarrow> action" where
  "hello_as l = Hello l None None"

fun client_index :: "string \<Rightarrow> sd_client list \<Rightarrow> nat option" where
  "client_index l [] = None"
| "client_index l (c # cs) = (if dc_label c = l then Some 0 else map_option Suc (client_index l cs))"

text \<open>\<open>c.send\<close> and \<open>c.close\<close> on the client a variable names.\<close>

definition on_client :: "string \<Rightarrow> (sd_client \<Rightarrow> sd_client) \<Rightarrow> sd_ctx \<Rightarrow> exn + sd_ctx" where
  "on_client l f x =
     (case client_index l (dx_clients x) of
        None \<Rightarrow> Inl KeyError
      | Some i \<Rightarrow> Inr (x\<lparr>dx_clients := (dx_clients x)[i := f (dx_clients x ! i)]\<rparr>))"

definition send_frame :: "string \<Rightarrow> byte \<Rightarrow> byte list \<Rightarrow> sd_ctx \<Rightarrow> exn + sd_ctx" where
  "send_frame l t payload x =
     (case sd_frame t payload of Inl e \<Rightarrow> Inl e | Inr data \<Rightarrow> on_client l (dc_send data) x)"

definition connect :: "string \<Rightarrow> sd_ctx \<Rightarrow> sd_ctx" where
  "connect l x = x\<lparr>dx_clients := dx_clients x @ [Client_open l]\<rparr>"

text \<open>\<open>bytes([ver]) + (name or label).encode()\<close>\<close>

definition hello_payload :: "nat \<Rightarrow> string \<Rightarrow> string option \<Rightarrow> nat option \<Rightarrow> exn + byte list" where
  "hello_payload proto l name ver =
     (let v = (case ver of None \<Rightarrow> proto | Some v \<Rightarrow> v);
          n = (case name of None \<Rightarrow> l | Some n \<Rightarrow> if n = [] then l else n)
      in case to_bytes [int v] of Inl e \<Rightarrow> Inl e | Inr b \<Rightarrow> Inr (b @ utf8_encode n))"

type_synonym network = "(nat \<times> byte list) list list list"

fun sd_action :: "nat \<Rightarrow> action \<Rightarrow> network \<Rightarrow> sd_ctx \<Rightarrow> exn + sd_ctx \<times> network" where
  "sd_action proto (Connect l) net x = Inr (connect l x, net)"
| "sd_action proto (Hello l name ver) net x =
     (case hello_payload proto l name ver of
        Inl e \<Rightarrow> Inl e
      | Inr p \<Rightarrow>
          (case map_of sd_T ''HELLO'' of
             None \<Rightarrow> Inl KeyError
           | Some t \<Rightarrow>
               (case send_frame l t p (connect l x) of
                  Inl e \<Rightarrow> Inl e
                | Inr y \<Rightarrow>
                    (case sd_sync proto (''hello '' @ l) (if net = [] then [] else hd net) y of
                       Inl e \<Rightarrow> Inl e
                     | Inr z \<Rightarrow> Inr (z, tl net)))))"
| "sd_action proto (Frame l t p) net x =
     (case map_of sd_T t of
        None \<Rightarrow> Inl KeyError
      | Some b \<Rightarrow> (case send_frame l b p x of Inl e \<Rightarrow> Inl e | Inr y \<Rightarrow> Inr (y, net)))"
| "sd_action proto (Frame_code l b p) net x =
     (case send_frame l b p x of Inl e \<Rightarrow> Inl e | Inr y \<Rightarrow> Inr (y, net))"
| "sd_action proto (Raw l bs) net x =
     (case on_client l (dc_send bs) x of Inl e \<Rightarrow> Inl e | Inr y \<Rightarrow> Inr (y, net))"
| "sd_action proto (Close l) net x =
     (case on_client l dc_close x of Inl e \<Rightarrow> Inl e | Inr y \<Rightarrow> Inr (y, net))"
| "sd_action proto (Sync step) net x =
     (case sd_sync proto step (if net = [] then [] else hd net) x of Inl e \<Rightarrow> Inl e | Inr y \<Rightarrow> Inr (y, tl net))"
| "sd_action proto Sleep net x = Inr (x, net)"

fun sd_exec :: "nat \<Rightarrow> action list \<Rightarrow> network \<Rightarrow> sd_ctx \<Rightarrow> exn + sd_ctx" where
  "sd_exec proto [] net x = Inr x"
| "sd_exec proto (a # as) net x =
     (case sd_action proto a net x of Inl e \<Rightarrow> Inl e | Inr (y, net') \<Rightarrow> sd_exec proto as net' y)"

text \<open>\<open>run\<close>: the scenario, then a last \<open>sync\<close>; the server's log is a parameter.\<close>

definition sd_run :: "nat \<Rightarrow> action list \<Rightarrow> network \<Rightarrow> string list \<Rightarrow> exn + string list \<times> nat" where
  "sd_run proto scenario net raw_log =
     (case sd_exec proto (scenario @ [Sync ''final'']) net \<lparr>dx_clients = [], dx_transcript = [], dx_step = 0\<rparr> of
        Inl e \<Rightarrow> Inl e
      | Inr x \<Rightarrow> Inr (normalize_log (finish_lines (dx_transcript x) raw_log)))"

section \<open>Scenarios of protocol 2\<close>

definition s1_roster_order :: "action list" where
  "s1_roster_order =
     map hello_as [''ALICE'', ''BOB'', ''CAROL'', ''DAVE''] @
     [Connect ''OLDGUY'', Frame ''OLDGUY'' ''HELLO'' ([1] @ utf8_encode ''OLDGUY''), Sync ''v1 hello refused''] @
     map (\<lambda>l. Frame l ''LIST'' []) [''ALICE'', ''BOB'', ''CAROL'', ''DAVE''] @
     [Sync ''LIST from each'',
      Frame ''CAROL'' ''HELLO'' ([2] @ utf8_encode ''CAROL2''), Sync ''CAROL renames to CAROL2'',
      hello_as ''EVE'', Frame ''EVE'' ''HELLO'' ([2] @ utf8_encode ''BOB''), Sync ''EVE steals the name BOB''] @
     map (\<lambda>l. Frame l ''LIST'' []) [''ALICE'', ''DAVE'', ''EVE''] @
     [Sync ''LIST after the churn'', Close ''ALICE'', Sync ''ALICE disconnects''] @
     map (\<lambda>l. Frame l ''LIST'' []) [''DAVE'', ''EVE''] @
     [Sync ''LIST after a drop'']"

definition s2_rooms :: "nat \<Rightarrow> action list" where
  "s2_rooms seats =
     map hello_as [''ALICE'', ''BOB'', ''CAROL''] @
     [Frame ''BOB'' ''JOIN'' (sd_pad ''ALICE''), Sync ''BOB joins ALICE'',
      Frame ''CAROL'' ''LIST'' [], Sync ''status: forming room''] @
     (if seats \<ge> 3
      then [Frame ''CAROL'' ''JOIN'' (sd_pad ''BOB''), Sync ''CAROL joins the guest BOB (redirect)'']
      else [Frame ''CAROL'' ''JOIN'' (sd_pad ''ALICE''), Sync ''CAROL joins a full room (refused -> LOBBY)'']) @
     [Frame ''BOB'' ''JOIN'' (sd_pad ''ALICE''), Sync ''in-room JOIN is silent'',
      Frame ''CAROL'' ''JOIN'' (sd_pad ''NOBODY''), Sync ''JOIN unknown name -> LOBBY'',
      Frame ''ALICE'' ''JOIN'' (sd_pad ''ALICE''), Sync ''self-join from an in-room client'',
      hello_as ''DAVE'', Frame ''DAVE'' ''JOIN'' (sd_pad ''DAVE''), Sync ''DAVE self-join -> LOBBY'',
      Frame ''DAVE'' ''JOIN'' (utf8_encode ''THISNAMEISWAYTOOLONG''), Sync ''JOIN an over-long name -> LOBBY'']"

definition s3_go_start :: "action list" where
  "s3_go_start =
     map hello_as [''ALICE'', ''BOB''] @
     [Frame ''ALICE'' ''GO'' [], Sync ''GO with no room (ignored)'',
      Frame ''BOB'' ''JOIN'' (sd_pad ''ALICE''), Sync ''BOB joins ALICE'',
      Frame ''BOB'' ''GO'' [], Sync ''guest GO (ignored)'',
      Frame ''ALICE'' ''GO'' [], Sync ''host GO -> START'',
      Frame ''ALICE'' ''GO'' [], Sync ''second GO on a started room (ignored)'',
      hello_as ''CAROL'', Frame ''CAROL'' ''JOIN'' (sd_pad ''ALICE''), Sync ''join a started room -> LOBBY'',
      Frame ''ALICE'' ''PING'' [], Sync ''PING -> PONG'']"

text \<open>The bytes \<open>range(96)\<close> and a checksum report.\<close>

definition bytes96 :: "byte list" where
  "bytes96 = map word_of_nat [0..<96]"

definition crc_report :: "nat \<Rightarrow> nat \<Rightarrow> nat \<Rightarrow> nat \<Rightarrow> byte list" where
  "crc_report sn tick lo hi = map word_of_nat [sn, tick AND 0xFF, drop_bit 8 tick, lo, hi]"

definition s4_relay_crc :: "action list" where
  "s4_relay_crc =
     map hello_as [''ALICE'', ''BOB''] @
     [Frame ''ALICE'' ''INPUT'' [0, 1, 0, 0x40, 0], Sync ''relay before a room exists (dropped)'',
      Frame ''BOB'' ''JOIN'' (sd_pad ''ALICE''), Sync ''BOB joins ALICE'',
      Frame ''ALICE'' ''INPUT'' [0, 1, 0, 0x40, 0], Sync ''relay before start (dropped)'',
      Frame ''ALICE'' ''GO'' [], Sync ''host GO -> START'',
      Frame ''ALICE'' ''INPUT'' [0, 7, 0, 0x40, 0], Sync ''INPUT fanout'',
      Frame ''BOB'' ''STATE'' ([0, 0] @ bytes96), Sync ''96-byte STATE fanout'',
      Frame ''ALICE'' ''RESYNC'' [5, 0], Sync ''RESYNC fanout''] @
     concat (map (\<lambda>t. [Frame ''ALICE'' ''CRC'' (crc_report 0 t 0x11 0x22),
                       Frame ''BOB'' ''CRC'' (crc_report 1 t 0x11 0x22)]) [0..<4]) @
     [Sync ''four agreed CRC rounds'',
      Frame ''ALICE'' ''CRC'' [0, 9, 0, 0xAA, 0x00], Frame ''BOB'' ''CRC'' [1, 9, 0, 0xBB, 0x00],
      Sync ''a CRC mismatch''] @
     map (\<lambda>t. Frame ''ALICE'' ''CRC'' (crc_report 0 t 0x33 0x44)) [100..<170] @
     [Sync ''70 half-reported ticks (eviction)'',
      Frame ''BOB'' ''CRC'' [1, 100, 0, 0x33, 0x44], Sync ''complete an evicted tick (no line)'',
      Frame ''BOB'' ''CRC'' [1, 169, 0, 0x33, 0x44], Sync ''complete a surviving tick'',
      Frame ''ALICE'' ''CRC'' [3, 200, 0, 0x01, 0x00], Frame ''BOB'' ''CRC'' [1, 200, 0, 0x02, 0x00],
      Sync ''a lying seat index'']"

definition s5_drop_matrix :: "action list" where
  "s5_drop_matrix =
     [hello_as ''ALICE'', hello_as ''BOB'', Frame ''BOB'' ''JOIN'' (sd_pad ''ALICE''), Sync ''BOB joins ALICE'',
      Frame ''ALICE'' ''GO'' [], Sync ''host GO -> START'',
      Close ''BOB'', Sync ''guest leaves a STARTED room -> PEER_LEFT'',
      hello_as ''CAROL'', hello_as ''DAVE'', Frame ''DAVE'' ''JOIN'' (sd_pad ''CAROL''), Sync ''DAVE joins CAROL'',
      Close ''CAROL'', Sync ''host leaves a FORMING room -> ROOM 0'',
      hello_as ''EVE'', hello_as ''FRANK'', Frame ''FRANK'' ''JOIN'' (sd_pad ''EVE''), Sync ''FRANK joins EVE'',
      Close ''FRANK'', Sync ''guest leaves a FORMING room of 2 -> dissolve'',
      hello_as ''GRACE'', Frame ''GRACE'' ''BYE'' [], Sync ''BYE'',
      hello_as ''HEIDI'', Frame ''HEIDI'' ''HELLO'' ([2] @ utf8_encode ''!!''), Sync ''a bad name drops the connection'']"

text \<open>\<open>f = frame(T["PING"])\<close>, \<open>big = frame(T["LIST"])\<close> and \<open>j = frame(T["JOIN"], pad("NOBODY"))\<close>.\<close>

definition ping_frame :: "byte list" where "ping_frame = projr (sd_frame 0x0C [])"
definition list_frame :: "byte list" where "list_frame = projr (sd_frame 0x02 [])"
definition join_frame :: "byte list" where "join_frame = projr (sd_frame 0x04 (sd_pad ''NOBODY''))"

definition s6_framing :: "action list" where
  "s6_framing =
     [hello_as ''ALICE''] @
     concat (map (\<lambda>b. [Raw ''ALICE'' [b], Sleep]) ping_frame) @ [Sync ''PING dribbled one byte at a time''] @
     [Raw ''ALICE'' (ping_frame @ ping_frame), Sync ''two frames in one write''] @
     (let listx3 = list_frame @ list_frame @ list_frame in
      [Raw ''ALICE'' (take 2 listx3), Sleep, Raw ''ALICE'' (List.drop 2 listx3), Sync ''three LISTs split mid-frame'']) @
     [Raw ''ALICE'' (take 1 join_frame), Sleep, Raw ''ALICE'' (take 3 (List.drop 1 join_frame)), Sleep,
      Raw ''ALICE'' (List.drop 4 join_frame), Sync ''JOIN in three fragments''] @
     [Connect ''BADLEN'', Raw ''BADLEN'' [0], Sync ''length byte 0 -> bad frame length'',
      Connect ''BADLEN2'', Raw ''BADLEN2'' [0xC9], Sync ''length byte 201 -> bad frame length'',
      hello_as ''DAVE'', Frame_code ''DAVE'' 0x7F [], Sync ''unknown type $7F'']"

definition s7_limits :: "action list" where
  "s7_limits = map (\<lambda>i. Connect (''IP'' @ dec i)) [0..<9] @ [Sync ''9 connections from one IP'']"

section \<open>Scenarios of protocol 1\<close>

definition v1_roster_order :: "action list" where
  "v1_roster_order =
     map hello_as [''ALICE'', ''BOB'', ''CAROL''] @
     map (\<lambda>l. Frame l ''LIST'' []) [''ALICE'', ''BOB'', ''CAROL''] @
     [Sync ''LIST from each'',
      Frame ''CAROL'' ''HELLO'' ([1] @ utf8_encode ''CAROL2''), Sync ''CAROL renames to CAROL2'',
      hello_as ''DAVE'', Frame ''DAVE'' ''HELLO'' ([1] @ utf8_encode ''BOB''), Sync ''DAVE steals the name BOB''] @
     map (\<lambda>l. Frame l ''LIST'' []) [''ALICE'', ''DAVE''] @
     [Sync ''LIST after the churn'', Close ''ALICE'', Sync ''ALICE disconnects'',
      Frame ''DAVE'' ''LIST'' [], Sync ''LIST after a drop'',
      Hello ''EVE'' None (Some 7), Frame ''EVE'' ''LIST'' [], Sync ''HELLO with an absurd version byte is accepted'']"

definition v1_pairing :: "action list" where
  "v1_pairing =
     map hello_as [''ALICE'', ''BOB'', ''CAROL''] @
     [Frame ''CAROL'' ''LIST'' [], Sync ''status: everyone idle (0)'',
      Frame ''BOB'' ''JOIN'' (sd_pad ''ALICE''), Sync ''BOB joins ALICE -> both START'',
      Frame ''CAROL'' ''LIST'' [], Sync ''status: both busy (1)'',
      Frame ''CAROL'' ''JOIN'' (sd_pad ''ALICE''), Sync ''JOIN a busy player -> LOBBY'',
      Frame ''CAROL'' ''JOIN'' (sd_pad ''NOBODY''), Sync ''JOIN an unknown name -> LOBBY'',
      Frame ''CAROL'' ''JOIN'' (sd_pad ''CAROL''), Sync ''self-join -> LOBBY'',
      Frame ''CAROL'' ''JOIN'' (utf8_encode ''THISNAMEISWAYTOOLONG''), Sync ''JOIN an over-long name -> LOBBY'',
      Frame ''BOB'' ''JOIN'' (sd_pad ''CAROL''), Sync ''JOIN while matched is silent'',
      Frame ''ALICE'' ''PING'' [], Sync ''PING -> PONG'',
      Frame ''CAROL'' ''GO'' [], Sync ''GO is an unknown type in v1'']"

definition v1_crc_report :: "nat \<Rightarrow> byte list" where
  "v1_crc_report tick = map word_of_nat [tick AND 0xFF, drop_bit 8 tick, 0x33, 0x44]"

definition v1_relay_crc :: "action list" where
  "v1_relay_crc =
     map hello_as [''ALICE'', ''BOB''] @
     [Frame ''ALICE'' ''INPUT'' [1, 0, 0x40, 0], Sync ''relay before a match (dropped)'',
      Frame ''BOB'' ''JOIN'' (sd_pad ''ALICE''), Sync ''BOB joins ALICE'',
      Frame ''ALICE'' ''INPUT'' [7, 0, 0x40, 0], Sync ''INPUT fanout (untagged, 4 bytes)'',
      Frame ''BOB'' ''STATE'' ([0, 0] @ bytes96), Sync ''96-byte STATE fanout'',
      Frame ''ALICE'' ''RESYNC'' [5, 0], Sync ''RESYNC fanout''] @
     concat (map (\<lambda>t. [Frame ''ALICE'' ''CRC'' [word_of_nat t, 0, 0x11, 0x22],
                       Frame ''BOB'' ''CRC'' [word_of_nat t, 0, 0x11, 0x22]]) [0..<4]) @
     [Sync ''four agreed CRC pairs'',
      Frame ''ALICE'' ''CRC'' [9, 0, 0xAA, 0x00], Frame ''BOB'' ''CRC'' [9, 0, 0xBB, 0x00],
      Sync ''a CRC mismatch''] @
     map (\<lambda>t. Frame ''ALICE'' ''CRC'' (v1_crc_report t)) [100..<170] @
     [Sync ''70 unanswered ticks (eviction)'',
      Frame ''BOB'' ''CRC'' [100, 0, 0x33, 0x44], Sync ''answer an evicted tick'',
      Frame ''BOB'' ''CRC'' [169, 0, 0x33, 0x44], Sync ''answer a surviving tick'']"

definition v1_drops :: "action list" where
  "v1_drops =
     [hello_as ''ALICE'', hello_as ''BOB'', Frame ''BOB'' ''JOIN'' (sd_pad ''ALICE''), Sync ''BOB joins ALICE'',
      Close ''BOB'', Sync ''partner leaves -> PEER_LEFT'',
      Frame ''ALICE'' ''LIST'' [], Sync ''ALICE is idle again'',
      hello_as ''CAROL'', Frame ''CAROL'' ''BYE'' [], Sync ''BYE'',
      hello_as ''DAVE'', Frame ''DAVE'' ''HELLO'' ([1] @ utf8_encode ''!!''), Sync ''a bad name drops the connection'',
      Connect ''NOHELLO'', Frame ''NOHELLO'' ''JOIN'' (sd_pad ''ALICE''), Sync ''JOIN before HELLO drops'']"

definition SCENARIOS_V2 :: "nat \<Rightarrow> (string \<times> action list) list" where
  "SCENARIOS_V2 seats =
     [(''roster'', s1_roster_order), (''rooms'', s2_rooms seats), (''start'', s3_go_start), (''relay'', s4_relay_crc),
      (''drops'', s5_drop_matrix), (''framing'', s6_framing), (''limits'', s7_limits)]"

definition SCENARIOS_V1 :: "(string \<times> action list) list" where
  "SCENARIOS_V1 =
     [(''roster'', v1_roster_order), (''pairing'', v1_pairing), (''relay'', v1_relay_crc), (''drops'', v1_drops),
      (''framing'', s6_framing), (''limits'', s7_limits)]"

lemma scenario_names:
  "map fst (SCENARIOS_V2 seats) = SCENARIO_NAMES 2" "set (map fst SCENARIOS_V1) = set (SCENARIO_NAMES 1)"
  by (simp_all add: SCENARIOS_V2_def SCENARIOS_V1_def SCENARIO_NAMES_def)

section \<open>Well-typed scenarios\<close>

text \<open>
  The typing of actions: clients are connected once and before they are used, type names exist,
  and payloads fit a frame.
\<close>

fun typed :: "string list \<Rightarrow> action list \<Rightarrow> bool" where
  "typed ls [] \<longleftrightarrow> True"
| "typed ls (a # as) \<longleftrightarrow>
     (case a of
        Connect l \<Rightarrow> l \<notin> set ls \<and> typed (l # ls) as
      | Hello l name ver \<Rightarrow>
          l \<notin> set ls \<and> length (utf8_encode l) < 254 \<and>
          (case name of None \<Rightarrow> True | Some n \<Rightarrow> length (utf8_encode n) < 254) \<and>
          (case ver of None \<Rightarrow> True | Some v \<Rightarrow> v < 256) \<and> typed (l # ls) as
      | Frame l t p \<Rightarrow> l \<in> set ls \<and> map_of sd_T t \<noteq> None \<and> length p < 255 \<and> typed ls as
      | Frame_code l b p \<Rightarrow> l \<in> set ls \<and> length p < 255 \<and> typed ls as
      | Raw l bs \<Rightarrow> l \<in> set ls \<and> typed ls as
      | Close l \<Rightarrow> l \<in> set ls \<and> typed ls as
      | Sync step \<Rightarrow> typed ls as
      | Sleep \<Rightarrow> typed ls as)"

definition labels :: "sd_ctx \<Rightarrow> string list" where
  "labels x = map dc_label (dx_clients x)"

lemma client_index_labels: "l \<in> set (map dc_label cs) \<Longrightarrow> \<exists>i<length cs. client_index l cs = Some i"
  by (induction cs) auto

lemma on_client_ok:
  assumes "l \<in> set (labels x)" "\<And>c. dc_label (f c) = dc_label c"
  shows "\<exists>y. on_client l f x = Inr y \<and> labels y = labels x"
proof -
  obtain i where i: "i < length (dx_clients x)" "client_index l (dx_clients x) = Some i"
    using client_index_labels assms(1) unfolding labels_def by blast
  then have "map dc_label ((dx_clients x)[i := f (dx_clients x ! i)]) = labels x"
    by (simp add: labels_def map_update assms(2) list_update_same_conv)
  with i show ?thesis by (simp add: on_client_def labels_def)
qed

lemma dc_label_keeps [simp]: "dc_label (dc_send d c) = dc_label c" "dc_label (dc_close c) = dc_label c"
  by (simp_all add: dc_send_def dc_close_def)

lemma sd_frame_ok: "length p < 255 \<Longrightarrow> sd_frame t p = Inr (encode_msg (t, p))"
  by (simp add: sd_frame_def encode_msg_def)

lemma send_frame_ok:
  assumes "l \<in> set (labels x)" "length p < 255"
  shows "\<exists>y. send_frame l t p x = Inr y \<and> labels y = labels x"
  unfolding send_frame_def sd_frame_ok[OF assms(2)] sum.case by (rule on_client_ok[OF assms(1)]) simp

lemma labels_sd_drain: "map dc_label (sd_drain rounds cs) = map dc_label cs"
proof (induction rounds cs rule: sd_drain.induct)
  case (2 r rs cs)
  have "map dc_label (sd_event e cs) = map dc_label cs" for e cs
    by (auto simp: sd_event_def map_update list_update_same_conv dc_recv_def split: prod.split)
  then have "map dc_label (fold sd_event es cs) = map dc_label cs" for es cs
    by (induction es arbitrary: cs) simp_all
  with 2 show ?case by (simp add: sd_select_event)
qed simp

text \<open>Recording can only fail on a frame without a type byte.\<close>

lemma sum_map_errors: "(\<And>y e. f y = Inl e \<Longrightarrow> e = E) \<Longrightarrow> sum_map f ys = Inl e \<Longrightarrow> e = E"
  by (induction ys) (auto split: sum.splits)

lemma sd_sync_ok:
  "(\<exists>y. sd_sync proto step rounds x = Inr y \<and> labels y = labels x) \<or> sd_sync proto step rounds x = Inl IndexError"
proof -
  have "render proto b = Inl e \<Longrightarrow> e = IndexError" for b e
    by (cases b) (auto simp: render_def Let_def split: if_splits)
  then have "sum_map (render proto) bs = Inl e \<Longrightarrow> e = IndexError" for bs e
    using sum_map_errors[of "render proto" IndexError bs e] by blast
  then have "sd_record proto tag c = Inl e \<Longrightarrow> e = IndexError" for tag c e
    by (auto simp: sd_record_def Let_def split: prod.splits sum.splits)
  then have r: "sum_map (sd_record proto tag) cs = Inl e \<Longrightarrow> e = IndexError" for tag cs e
    using sum_map_errors[of "sd_record proto tag" IndexError cs e] by blast
  show ?thesis
    using labels_sd_drain[of rounds "dx_clients x"]
    by (auto simp: sd_sync_def Let_def labels_def comp_def dest: r split: sum.split)
qed

lemma labels_connect: "labels (connect l x) = labels x @ [l]"
  by (simp add: connect_def labels_def Client_open_def)

lemma hello_payload_ok:
  assumes "proto < 256" "length (utf8_encode l) < 254"
    and "case name of None \<Rightarrow> True | Some n \<Rightarrow> length (utf8_encode n) < 254"
    and "case ver of None \<Rightarrow> True | Some v \<Rightarrow> v < 256"
  shows "\<exists>p. hello_payload proto l name ver = Inr p \<and> length p < 255"
  using assms by (auto simp: hello_payload_def Let_def split: option.splits)

lemma sd_exec_typed:
  assumes "proto < 256" "typed (rev (labels x)) as"
  shows "(\<exists>y. sd_exec proto as net x = Inr y) \<or> sd_exec proto as net x = Inl IndexError"
  using assms(2)
proof (induction "as" arbitrary: x net)
  case (Cons a "as")
  have step: ?case
    if "sd_action proto a net x = Inr (y, net')" "typed (rev (labels y)) as" for y net'
    using Cons.IH[OF that(2), of net'] that(1) by simp
  show ?case
  proof (cases a)
    case (Connect l)
    then show ?thesis using Cons.prems by (intro step[of "connect l x" net]) (simp_all add: labels_connect)
  next
    case (Hello l name ver)
    then have "length (utf8_encode l) < 254" "case name of None \<Rightarrow> True | Some n \<Rightarrow> length (utf8_encode n) < 254"
      "case ver of None \<Rightarrow> True | Some v \<Rightarrow> v < 256"
      using Cons.prems by simp_all
    from hello_payload_ok[OF assms(1) this]
    obtain p where p: "hello_payload proto l name ver = Inr p" "length p < 255" by blast
    have l: "l \<in> set (labels (connect l x))" "labels (connect l x) = labels x @ [l]"
      by (simp_all add: labels_connect)
    obtain y where y: "send_frame l 0x01 p (connect l x) = Inr y" "labels y = labels x @ [l]"
      using send_frame_ok[OF l(1) p(2)] l(2) by auto
    have t: "map_of sd_T ''HELLO'' = Some 0x01" by (simp add: sd_T_def)
    from sd_sync_ok[of proto "''hello '' @ l" "if net = [] then [] else hd net" y] show ?thesis
    proof
      assume "\<exists>z. sd_sync proto (''hello '' @ l) (if net = [] then [] else hd net) y = Inr z \<and> labels z = labels y"
      then obtain z where "sd_sync proto (''hello '' @ l) (if net = [] then [] else hd net) y = Inr z" "labels z = labels y"
        by blast
      then show ?thesis using Cons.prems by (intro step[of z "tl net"]) (simp_all add: Hello p t y)
    qed (simp add: Hello p t y)
  next
    case (Frame l t p)
    then obtain b where b: "map_of sd_T t = Some b" using Cons.prems by auto
    obtain y where "send_frame l b p x = Inr y" "labels y = labels x"
      using send_frame_ok[of l x p b] Cons.prems Frame by auto
    with b show ?thesis using Cons.prems by (intro step[of y net]) (simp_all add: Frame)
  next
    case (Frame_code l b p)
    then obtain y where "send_frame l b p x = Inr y" "labels y = labels x"
      using send_frame_ok[of l x p] Cons.prems by auto
    then show ?thesis using Cons.prems by (intro step[of y net]) (simp_all add: Frame_code)
  next
    case (Raw l bs)
    then obtain y where "on_client l (dc_send bs) x = Inr y" "labels y = labels x"
      using on_client_ok[of l x "dc_send bs"] Cons.prems by auto
    then show ?thesis using Cons.prems by (intro step[of y net]) (simp_all add: Raw)
  next
    case (Close l)
    then obtain y where "on_client l dc_close x = Inr y" "labels y = labels x"
      using on_client_ok[of l x dc_close] Cons.prems by auto
    then show ?thesis using Cons.prems by (intro step[of y net]) (simp_all add: Close)
  next
    case (Sync s)
    from sd_sync_ok[of proto s "if net = [] then [] else hd net" x] show ?thesis
    proof
      assume "\<exists>y. sd_sync proto s (if net = [] then [] else hd net) x = Inr y \<and> labels y = labels x"
      then obtain y where "sd_sync proto s (if net = [] then [] else hd net) x = Inr y" "labels y = labels x" by blast
      then show ?thesis using Cons.prems by (intro step[of y "tl net"]) (simp_all add: Sync)
    qed (simp add: Sync)
  next
    case Sleep
    then show ?thesis using Cons.prems by (intro step) simp_all
  qed
qed simp

lemma typed_final: "typed ls (as @ [Sync s]) = typed ls as"
  by (induction "as" arbitrary: ls) (auto split: action.split)

text \<open>A long run of frames of one client is typed when one of them is.\<close>

lemma typed_frames:
  "typed ls (map (\<lambda>t. Frame l k (f t)) ts @ as) \<longleftrightarrow>
     (ts \<noteq> [] \<longrightarrow> l \<in> set ls \<and> map_of sd_T k \<noteq> None) \<and> list_all (\<lambda>t. length (f t) < 255) ts \<and> typed ls as"
  by (induction ts) auto

lemma typed_relay: "typed [] s4_relay_crc" "typed [] v1_relay_crc"
proof -
  have len: "length (sd_pad n) = 8" "length bytes96 = 96" "length (crc_report a b c d) = 5" "length (v1_crc_report b) = 4" for n a b c d
    by (simp_all add: sd_pad_def bytes96_def crc_report_def v1_crc_report_def)
  have T: "map_of sd_T ''INPUT'' = Some 6" "map_of sd_T ''JOIN'' = Some 4" "map_of sd_T ''GO'' = Some 15"
    "map_of sd_T ''STATE'' = Some 8" "map_of sd_T ''RESYNC'' = Some 9" "map_of sd_T ''CRC'' = Some 7"
    by (simp_all add: sd_T_def)
  have four: "[0..<4] = [0, 1, 2, 3 :: nat]" by (simp add: upt_rec)
  have enc: "length (utf8_encode ''ALICE'') = 5" "length (utf8_encode ''BOB'') = 3" by (simp_all add: utf8_encode_def)
  show "typed [] s4_relay_crc" "typed [] v1_relay_crc"
    unfolding s4_relay_crc_def v1_relay_crc_def hello_as_def four
    by (simp_all add: typed_frames len T enc list_all_iff del: upt_rec_numeral)
qed

lemma typed_v2: "typed [] s1_roster_order" "typed [] s3_go_start" "typed [] s5_drop_matrix" "typed [] s6_framing" "typed [] s7_limits"
  by code_simp+

lemma typed_rooms: "typed [] (s2_rooms seats)"
proof -
  have "typed [] (s2_rooms 2)" "typed [] (s2_rooms 3)" by code_simp+
  moreover have "s2_rooms seats = (if seats \<ge> 3 then s2_rooms 3 else s2_rooms 2)" by (simp add: s2_rooms_def)
  ultimately show ?thesis by simp
qed

lemma typed_v1: "typed [] v1_roster_order" "typed [] v1_pairing" "typed [] v1_drops"
  by code_simp+



section \<open>What two scenarios exercise\<close>

text \<open>The bytes the actions of a scenario send for a client, and its CRC reports.\<close>

fun sent_by :: "nat \<Rightarrow> string \<Rightarrow> action \<Rightarrow> byte list" where
  "sent_by proto l (Hello k name ver) = (if k = l then projr (sd_frame 0x01 (projr (hello_payload proto k name ver))) else [])"
| "sent_by proto l (Frame k t p) = (if k = l then projr (sd_frame (the (map_of sd_T t)) p) else [])"
| "sent_by proto l (Frame_code k b p) = (if k = l then projr (sd_frame b p) else [])"
| "sent_by proto l (Raw k bs) = (if k = l then bs else [])"
| "sent_by proto l _ = []"

definition scenario_bytes :: "nat \<Rightarrow> string \<Rightarrow> action list \<Rightarrow> byte list" where
  "scenario_bytes proto l acts = concat (map (sent_by proto l) acts)"

text \<open>
  Remark (the framing scenario): the fragments, dribbled bytes and joined frames the scenario sends
  for ALICE are, to the relay's own frame reader, exactly the messages HELLO, three PING, three
  LIST and JOIN; DAVE sends HELLO and a frame of the unknown type 0x7F; the two bad clients send
  a byte the reader rejects.
\<close>

theorem framing_scenario_decodes:
  "drain server_read (length (scenario_bytes 2 ''ALICE'' s6_framing)) (scenario_bytes 2 ''ALICE'' s6_framing) =
     ([(T_HELLO, [2, 65, 76, 73, 67, 69]), (T_PING, []), (T_PING, []), (T_PING, []), (T_LIST, []), (T_LIST, []), (T_LIST, []),
       (T_JOIN, [78, 79, 66, 79, 68, 89, 0, 0])], [], False) \<and>
   drain server_read (length (scenario_bytes 2 ''DAVE'' s6_framing)) (scenario_bytes 2 ''DAVE'' s6_framing) =
     ([(T_HELLO, [2, 68, 65, 86, 69]), (0x7F, [])], [], False) \<and>
   server_read (scenario_bytes 2 ''BADLEN'' s6_framing) = Bad \<and> server_read (scenario_bytes 2 ''BADLEN2'' s6_framing) = Bad"
  by code_simp

definition crc_reports :: "action list \<Rightarrow> byte list list" where
  "crc_reports acts = concat (map (\<lambda>a. case a of Frame l t p \<Rightarrow> if t = ''CRC'' \<and> length p = 5 then [p] else [] | _ \<Rightarrow> []) acts)"

lemma crc_reports_relay:
  "crc_reports s4_relay_crc =
     concat (map (\<lambda>t. [crc_report 0 t 0x11 0x22, crc_report 1 t 0x11 0x22]) [0..<4]) @
     [[0, 9, 0, 0xAA, 0], [1, 9, 0, 0xBB, 0]] @ map (\<lambda>t. crc_report 0 t 0x33 0x44) [100..<170] @
     [[1, 100, 0, 0x33, 0x44], [1, 169, 0, 0x33, 0x44], [3, 200, 0, 1, 0], [1, 200, 0, 2, 0]]"
proof -
  have len: "length (crc_report a b c d) = 5" for a b c d by (simp add: crc_report_def)
  have m: "crc_reports (map (\<lambda>t. Frame l ''CRC'' (f t)) ts) = map f ts" if "\<And>t. length (f t) = 5" for l f ts
    by (induction ts) (simp_all add: crc_reports_def that)
  have a: "crc_reports (as @ bs) = crc_reports as @ crc_reports bs" for as bs by (simp add: crc_reports_def)
  have four: "[0..<4] = [0, 1, 2, 3 :: nat]" by (simp add: upt_rec)
  have n: "crc_reports (Frame l k p # as) = (if k = ''CRC'' \<and> length p = 5 then [p] else []) @ crc_reports as"
    "crc_reports (Sync s # as) = crc_reports as" "crc_reports (Hello l x v # as) = crc_reports as"
    "crc_reports [] = []" for l k p as s x v by (simp_all add: crc_reports_def)
  show ?thesis
    unfolding s4_relay_crc_def four hello_as_def
    by (simp add: a m len n del: upt_rec_numeral)
qed

definition crc_step :: "byte list \<Rightarrow> room \<times> logmsg list \<Rightarrow> room \<times> logmsg list" where
  "crc_step p st = (case note_crc (unat (p ! 0)) (pair16 (p ! 1) (p ! 2)) (pair16 (p ! 3) (p ! 4)) (fst st) of
     (rm, msgs) \<Rightarrow> (rm, snd st @ msgs))"

definition feed_crc :: "byte list list \<Rightarrow> room \<Rightarrow> room \<times> logmsg list" where
  "feed_crc ps rm = fold crc_step ps (rm, [])"

definition relay_room :: "(nat \<times> (nat \<times> nat) list) list \<Rightarrow> nat \<Rightarrow> room" where
  "relay_room tbl n = (Room_init 0)\<lparr>rm_members := [0, 1], rm_crc := tbl, rm_crc_ok := n\<rparr>"

lemma crc_step_report:
  assumes "sn < 256" "tick < 65536" "lo < 256" "hi < 256"
  shows "crc_step (crc_report sn tick lo hi) st =
    (case note_crc sn tick (lo + 256 * hi) (fst st) of (rm, msgs) \<Rightarrow> (rm, snd st @ msgs))"
proof -
  have "unat (word_of_nat sn :: byte) = sn" "unat (word_of_nat lo :: byte) = lo" "unat (word_of_nat hi :: byte) = hi"
    "unat (word_of_nat (tick AND 0xFF) :: byte) = tick mod 256" "unat (word_of_nat (drop_bit 8 tick) :: byte) = tick div 256"
    using assms by (simp_all add: unat_of_nat and_low_bits drop_bit_eq_div)
  then show ?thesis
    by (simp add: crc_step_def crc_report_def pair16_eq)
qed

text \<open>A first report of a new, largest tick: it is stored, and the smallest tick goes when there are more than 64.\<close>

lemma half_report:
  assumes "\<And>t'. t' \<in> fst ` set tbl \<Longrightarrow> t' < tick"
  shows "note_crc sn tick crc (relay_room tbl n) =
    (relay_room (if length tbl < 64 then tbl @ [(tick, [(sn, crc)])]
                 else AList.delete (Min (set (map fst (tbl @ [(tick, [(sn, crc)])])))) (tbl @ [(tick, [(sn, crc)])])) n, [])"
proof -
  have a: "tick \<notin> set (map fst tbl)" using assms by force
  then have "map_of tbl tick = None" by (simp add: map_of_eq_None_iff)
  with update_absent[OF a] show ?thesis
    by (simp add: note_crc_def relay_room_def CRC_TABLE_MAX_def Let_def)
qed

definition half_table :: "nat \<Rightarrow> nat \<Rightarrow> (nat \<times> (nat \<times> nat) list) list" where
  "half_table a b = map (\<lambda>t. (t, [(0, 0x4433)])) [a..<b]"

lemma half_table_sel [simp]:
  "fst ` set (half_table a b) = {a..<b}" "length (half_table a b) = b - a" "map fst (half_table a b) = [a..<b]"
  by (auto simp: half_table_def comp_def image_image)

lemma half_table_snoc: "a \<le> b \<Longrightarrow> half_table a b @ [(b, [(0, 0x4433)])] = half_table a (Suc b)"
  by (simp add: half_table_def)

lemma half_table_delete: "a < b \<Longrightarrow> AList.delete a (half_table a b) = half_table (Suc a) b"
proof -
  assume "a < b"
  then have "half_table a b = (a, [(0, 0x4433)]) # half_table (Suc a) b" by (simp add: half_table_def upt_conv_Cons)
  moreover have "AList.delete a (half_table (Suc a) b) = half_table (Suc a) b" by (rule delete_absent) simp
  ultimately show ?thesis by simp
qed

lemma half_reports:
  "n \<le> 70 \<Longrightarrow> fold crc_step (map (\<lambda>t. crc_report 0 t 0x33 0x44) [100..<100 + n]) (relay_room [] k, lg) =
     (relay_room (half_table (100 + (n - 64)) (100 + n)) k, lg)"
proof (induction n)
  case 0
  then show ?case by (simp add: half_table_def)
next
  case (Suc n)
  let ?a = "100 + (n - 64)" and ?b = "100 + n"
  have "crc_step (crc_report 0 ?b 0x33 0x44) (relay_room (half_table ?a ?b) k, lg) =
      (case note_crc 0 ?b 0x4433 (relay_room (half_table ?a ?b) k) of (rm, msgs) \<Rightarrow> (rm, lg @ msgs))"
    using Suc.prems by (subst crc_step_report) simp_all
  also have "\<dots> = (relay_room (if n < 64 then half_table ?a (Suc ?b)
      else AList.delete (Min {?a..<Suc ?b}) (half_table ?a (Suc ?b))) k, lg)"
    by (subst half_report) (auto simp: half_table_snoc simp del: upt_Suc)
  also have "(if n < 64 then half_table ?a (Suc ?b) else AList.delete (Min {?a..<Suc ?b}) (half_table ?a (Suc ?b)))
      = half_table (100 + (Suc n - 64)) (100 + Suc n)"
  proof -
    have m: "Min {?a..<Suc ?b} = ?a" by (rule Min_eqI) auto
    show ?thesis
    proof (cases "n < 64")
      case False
      then have "Suc ?a = 100 + (Suc n - 64)" by simp
      moreover have "AList.delete ?a (half_table ?a (Suc ?b)) = half_table (Suc ?a) (Suc ?b)"
        by (rule half_table_delete) simp
      ultimately show ?thesis using False unfolding m by (simp only: if_False add_Suc_right)
    qed simp
  qed
  finally have "crc_step (crc_report 0 ?b 0x33 0x44) (relay_room (half_table ?a ?b) k, lg) =
      (relay_room (half_table (100 + (Suc n - 64)) (100 + Suc n)) k, lg)" .
  moreover have "[100..<100 + Suc n] = [100..<?b] @ [?b]"
    using upt_Suc_append[of 100 ?b] by (simp only: add_Suc_right)
  ultimately show ?case using Suc by (simp only: map_append fold_append comp_def list.map fold_simps)
qed

lemma update_snoc: "k \<notin> set (map fst d) \<Longrightarrow> AList.update k v (d @ [(k, w)]) = d @ [(k, v)]"
  by (induction d) auto

text \<open>The second report of a tick that is the last key of the table.\<close>

lemma second_report:
  assumes "tick \<notin> set (map fst tbl)" "length tbl < 64" "sn \<noteq> sn'"
  shows "note_crc sn tick crc (relay_room (tbl @ [(tick, [(sn', crc')])]) n) =
    (if crc' = crc then (relay_room tbl (n + 1), if (n + 1) mod 4 = 0 then [Log_crc_ok tick (n + 1)] else [])
     else (relay_room tbl n, [Log_crc_mismatch tick (sort_key fst [(sn', crc'), (sn, crc)])]))"
proof -
  have "map_of (tbl @ [(tick, [(sn', crc')])]) tick = Some [(sn', crc')]"
    using map_of_eq_None_iff[of tbl tick] assms(1) by (simp add: map_add_def)
  moreover have "AList.update sn crc [(sn', crc')] = [(sn', crc'), (sn, crc)]" using assms(3) by simp
  ultimately show ?thesis
    using assms(2) update_snoc[OF assms(1)] delete_snoc[OF assms(1)]
    by (simp add: note_crc_def relay_room_def CRC_TABLE_MAX_def Let_def Room_init_def)
qed

lemma fold_three: "fold f (xs @ ys @ zs) s = fold f zs (fold f ys (fold f xs s))"
  by simp

lemma late_report:
  "note_crc 1 100 0x4433 (relay_room (half_table 106 170) n) = (relay_room (half_table 106 170) n, [])"
proof -
  have a: "100 \<notin> set (map fst (half_table 106 170))" by simp
  then have "map_of (half_table 106 170) 100 = None" by (metis map_of_eq_None_iff set_map)
  moreover have "Min (set (map fst (half_table 106 170 @ [(100, [(1, 0x4433)])]))) = 100"
    by (rule Min_eqI) auto
  ultimately show ?thesis
    unfolding note_crc_def Let_def relay_room_def
    using update_absent[OF a] delete_snoc[OF a] by (simp add: CRC_TABLE_MAX_def Room_init_def)
qed

text \<open>
  Remark (what the relay scenario shows of the comparator): replayed on the server's comparator,
  the checksum reports of the scenario leave exactly three log lines: the fourth agreed round,
  the mismatch at tick 9 and the mismatch at tick 200 with the seat numbers as sent.  The tick
  that was completed after its eviction leaves no line; neither does the surviving tick, which
  is the fifth agreed round, so the two steps look alike in a transcript.
\<close>

theorem relay_scenario_log:
  "feed_crc (crc_reports s4_relay_crc) (relay_room [] 0) =
     (relay_room (half_table 106 169) 5,
      [Log_crc_ok 3 4, Log_crc_mismatch 9 [(0, 0xAA), (1, 0xBB)], Log_crc_mismatch 200 [(1, 2), (3, 1)]])"
proof -
  let ?log = "[Log_crc_ok 3 4, Log_crc_mismatch 9 [(0, 0xAA), (1, 0xBB)]]"
  have first: "fold crc_step (concat (map (\<lambda>t. [crc_report 0 t 0x11 0x22, crc_report 1 t 0x11 0x22]) [0..<4]) @
      [[0, 9, 0, 0xAA, 0], [1, 9, 0, 0xBB, 0]]) (relay_room [] 0, []) = (relay_room [] 4, ?log)"
  proof -
    have rep: "[0, 9, 0, 0xAA, 0] = crc_report 0 9 0xAA 0" "[1, 9, 0, 0xBB, 0] = crc_report 1 9 0xBB 0"
      by (simp_all add: crc_report_def and_low_bits drop_bit_eq_div)
    have four: "[0..<4] = [0, 1, 2, 3 :: nat]" by (simp add: upt_rec)
    have one: "note_crc 0 tick crc (relay_room [] n) = (relay_room ([] @ [(tick, [(0, crc)])]) n, [])" for tick crc n
      by (subst half_report) simp_all
    have two: "note_crc 1 tick crc (relay_room ([] @ [(tick, [(0, crc')])]) n) =
        (if crc' = crc then (relay_room [] (n + 1), if (n + 1) mod 4 = 0 then [Log_crc_ok tick (n + 1)] else [])
         else (relay_room [] n, [Log_crc_mismatch tick (sort_key fst [(0, crc'), (1, crc)])]))" for tick crc crc' n
      by (rule second_report) simp_all
    have fourth: "Suc (Suc (Suc (Suc 0))) = 4" by simp
    show ?thesis
      unfolding rep four by (simp add: crc_step_report one two [simplified] fourth)
  qed
  have half: "fold crc_step (map (\<lambda>t. crc_report 0 t 0x33 0x44) [100..<170]) (relay_room [] 4, ?log) =
      (relay_room (half_table 106 170) 4, ?log)"
    using half_reports[of 70 4 ?log] by simp
  have rep: "[1, 100, 0, 0x33, 0x44] = crc_report 1 100 0x33 0x44" "[1, 169, 0, 0x33, 0x44] = crc_report 1 169 0x33 0x44"
    "[3, 200, 0, 1, 0] = crc_report 3 200 1 0" "[1, 200, 0, 2, 0] = crc_report 1 200 2 0"
    by (simp_all add: crc_report_def and_low_bits drop_bit_eq_div)
  have r1: "note_crc 1 169 0x4433 (relay_room (half_table 106 170) 4) = (relay_room (half_table 106 169) 5, [])"
    using second_report[where tick = 169 and tbl = "half_table 106 169" and sn = 1 and sn' = 0 and crc = "0x4433" and crc' = "0x4433" and n = 4] half_table_snoc[of 106 169] by simp
  have r2: "note_crc 3 200 1 (relay_room (half_table 106 169) 5) = (relay_room (half_table 106 169 @ [(200, [(3, 1)])]) 5, [])"
    by (subst half_report) auto
  have r3: "note_crc 1 200 2 (relay_room (half_table 106 169 @ [(200, [(3, 1)])]) 5) =
      (relay_room (half_table 106 169) 5, [Log_crc_mismatch 200 [(1, 2), (3, 1)]])"
    by (subst second_report) auto
  have last: "fold crc_step [[1, 100, 0, 0x33, 0x44], [1, 169, 0, 0x33, 0x44], [3, 200, 0, 1, 0], [1, 200, 0, 2, 0]]
      (relay_room (half_table 106 170) 4, ?log) =
      (relay_room (half_table 106 169) 5, ?log @ [Log_crc_mismatch 200 [(1, 2), (3, 1)]])"
    unfolding rep by (simp add: crc_step_report late_report r1 r2 r3 del: One_nat_def)
  have split: "crc_reports s4_relay_crc =
      (concat (map (\<lambda>t. [crc_report 0 t 0x11 0x22, crc_report 1 t 0x11 0x22]) [0..<4]) @ [[0, 9, 0, 0xAA, 0], [1, 9, 0, 0xBB, 0]]) @
      map (\<lambda>t. crc_report 0 t 0x33 0x44) [100..<170] @
      [[1, 100, 0, 0x33, 0x44], [1, 169, 0, 0x33, 0x44], [3, 200, 0, 1, 0], [1, 200, 0, 2, 0]]"
    unfolding crc_reports_relay by (simp del: upt_rec_numeral)
  show ?thesis
    unfolding feed_crc_def split fold_three first half last by (simp only: append.simps)
qed

end
