(* ===== verification/Relay_Session.thy ===== *)
theory Relay_Session
  imports Relay_Props
begin

text \<open>
  A whole match: sequences of messages given to \<open>handle\<close> in the order the server serves
  them.  While the two connections are healthy and their queues have room, each player's stream
  is extended by exactly the other player's frames in the order they were served, so the two
  directions of the lockstep are two independent queues.
\<close>

section \<open>Sequences of messages\<close>

text \<open>The messages of several clients in the order in which the loop of \<open>run\<close> serves them.\<close>

fun play :: "(cid \<times> byte \<times> byte list) list \<Rightarrow> server \<Rightarrow> outcome" where
  "play [] s = Ok s"
| "play ((c, t, p) # ms) s = andthen (handle c t p s) (play ms)"

text \<open>Two players in a running match, both connected, with \<open>k\<close> bytes left in either queue.\<close>

definition playing :: "nat \<Rightarrow> rid \<Rightarrow> cid \<Rightarrow> cid \<Rightarrow> server \<Rightarrow> bool" where
  "playing k r a b s \<longleftrightarrow>
     server_inv s \<and> healthy s \<and> members s r = [a, b] \<and> rm_started (room_of s r) \<and>
     (\<forall>c \<in> {a, b}. cl_room (client_of s c) = Some r \<and> \<not> cl_dead (client_of s c) \<and>
        length (cl_tx (client_of s c)) + k \<le> MAX_TX_BACKLOG)"

lemma send_loop_shrinks: "send_loop script tx wire = (script', tx', wire', v) \<Longrightarrow> length tx' \<le> length tx"
  by (induction script tx wire rule: send_loop.induct) (fastforce simp: Let_def split: if_splits)+

lemma send_queue:
  assumes "healthy s" "\<not> cl_dead (client_of s c)" "fits s c data"
  shows "\<exists>t. send c data s = Ok t \<and> \<not> cl_dead (client_of t c) \<and> healthy t \<and>
    length (cl_tx (client_of t c)) \<le> length (cl_tx (client_of s c)) + length data"
proof -
  let ?q = "upd_client c (\<lambda>x. x\<lparr>cl_tx := cl_tx x @ data\<rparr>) s"
  obtain sc tx w v where loop:
    "send_loop (sv_sends ?q) (cl_tx (client_of ?q c)) (cl_wire (client_of ?q c)) = (sc, tx, w, v)"
    by (rule prod_cases4)
  obtain t where t: "send c data s = Ok t" "\<not> cl_dead (client_of t c)" "healthy t"
    using send_healthy[OF assms] by blast
  have v: "v = None" using send_loop_healthy[OF _ loop] assms(1) by (simp_all add: healthy_def)
  have "\<not> length (cl_tx (client_of s c)) + length data > MAX_TX_BACKLOG" using assms(3) by (simp add: fits_def)
  then have "send c data s = Ok (update_events c (upd_client c (\<lambda>x. x\<lparr>cl_tx := tx, cl_wire := w\<rparr>) (?q\<lparr>sv_sends := sc\<rparr>)))"
    using assms(2) unfolding send_def send_with_def flush_with_def loop prod.case v Let_def option.case
    by (simp only: if_False)
  then have "cl_tx (client_of t c) = tx" using t(1) by simp
  moreover have "length tx \<le> length (cl_tx (client_of s c)) + length data"
    using send_loop_shrinks[OF loop] by simp
  ultimately show ?thesis using t by simp
qed

lemma playing_distinct: "playing k r a b s \<Longrightarrow> a \<noteq> b"
  unfolding playing_def server_inv_def using good_pair_distinct by blast

lemma playing_mono: "playing k r a b s \<Longrightarrow> k' \<le> k \<Longrightarrow> playing k' r a b s"
  by (fastforce simp: playing_def)

lemma log_crc_started: "rm_started (room_of (log_crc r payload s) r') = rm_started (room_of s r')"
  by (auto simp: log_crc_def Let_def note_crc_frame(2)[symmetric] split: prod.split) (metis fst_conv note_crc_frame(2))+

text \<open>One relayed frame.\<close>

lemma relay_step:
  assumes "playing (k + length payload + 2) r a b s" "ftype \<in> set RELAY_TYPES" "length payload < 255"
    and "(c, m) \<in> {(a, b), (b, a)}"
  shows "\<exists>t. handle c ftype payload s = Ok t \<and> playing k r a b t \<and>
    (\<forall>d. stream t d = stream s d @ (if d = m then encode_msg (ftype, payload) else []))"
proof -
  let ?data = "encode_msg (ftype, payload)"
  let ?s1 = "if ftype = T_CRC \<and> length payload = 5 then log_crc r payload s else s"
  have si: "server_inv s" and g: "good {} s" and p: "pair_in s r c m" and neq: "c \<noteq> m"
    and rm: "cl_room (client_of s c) = Some r" "rm_started (room_of s r)"
    using assms(1,4) playing_distinct[OF assms(1)] by (auto simp: playing_def server_inv_def pair_in_def)
  have len: "length ?data = length payload + 2" by (simp add: encode_msg_def)
  have s1: "healthy ?s1" "\<not> cl_dead (client_of ?s1 m)" "fits ?s1 m ?data"
    using assms(1,4) len by (auto simp: playing_def healthy_def fits_def log_crc_frame)
  obtain t where t: "send m ?data ?s1 = Ok t" "\<not> cl_dead (client_of t m)" "healthy t"
      "length (cl_tx (client_of t m)) \<le> length (cl_tx (client_of ?s1 m)) + length ?data"
    using send_queue[OF s1] by blast
  note d = delivered_sel[OF send_delivers[OF t(1,2)]]
  have "live_loop (length (members ?s1 r)) 0 r (\<lambda>i m s. if m \<noteq> c then send m ?data s else Ok s) ?s1 = Ok t"
    using t(1) p neq d(6) by (auto simp: pair_in_def)
  then have "relay_frame c ftype payload s = Ok t"
    using rm by (simp add: relay_frame_def Let_def encode_msg_frame[OF assms(3)])
  then have h: "handle c ftype payload s = Ok t" using assms(2) by (simp add: handle_def)
  have "good {} t"
    using safe_relay_frame[OF g assms(3), of c ftype] \<open>relay_frame c ftype payload s = Ok t\<close> by (simp add: safe_def)
  then have "server_inv t" by (rule server_inv_handled[OF si h])
  moreover have "client_of t x = client_of s x" if "x \<noteq> m" for x
    using d(2)[OF that] by (simp add: log_crc_frame)
  moreover have "members t r = members s r" "rm_started (room_of t r) = rm_started (room_of s r)"
    by (simp_all add: d(6) log_crc_started)
  moreover have "cl_room (client_of t m) = cl_room (client_of s m)" by (simp add: d(3) log_crc_frame)
  moreover have "length (cl_tx (client_of t m)) \<le> length (cl_tx (client_of s m)) + (length payload + 2)"
    using t(4) len by (simp add: log_crc_frame split: if_splits)
  then have "length (cl_tx (client_of t m)) + k \<le> MAX_TX_BACKLOG"
    using assms(1,4) by (auto simp: playing_def)
  moreover have "x = m \<or> x = c" if "x \<in> {a, b}" for x using that assms(4) by auto
  ultimately have "cl_room (client_of t x) = Some r \<and> \<not> cl_dead (client_of t x) \<and>
      length (cl_tx (client_of t x)) + k \<le> MAX_TX_BACKLOG" if "x \<in> {a, b}" for x
    using assms(1,4) t(2) neq that by (cases "x = m") (auto simp: playing_def)
  then have "playing k r a b t"
    using \<open>server_inv t\<close> t(3) \<open>members t r = members s r\<close> \<open>rm_started (room_of t r) = rm_started (room_of s r)\<close> assms(1)
    by (simp add: playing_def)
  moreover have "\<forall>x. stream t x = stream s x @ (if x = m then ?data else [])"
    using delivered_stream[OF send_delivers[OF t(1,2)]] by simp
  ultimately show ?thesis using h by blast
qed

section \<open>Two queues\<close>

text \<open>What a list of messages from the members of a match puts into the stream of \<open>m\<close>.\<close>

definition from_other :: "cid \<Rightarrow> (cid \<times> byte \<times> byte list) list \<Rightarrow> byte list" where
  "from_other m ms = concat (map (\<lambda>(c, t, p). encode_msg (t, p)) (filter (\<lambda>(c, t, p). c \<noteq> m) ms))"

definition relayed :: "cid \<Rightarrow> cid \<Rightarrow> (cid \<times> byte \<times> byte list) list \<Rightarrow> bool" where
  "relayed a b ms \<longleftrightarrow> list_all (\<lambda>(c, t, p). c \<in> {a, b} \<and> t \<in> set RELAY_TYPES \<and> length p < 255) ms"

definition wire_size :: "(cid \<times> byte \<times> byte list) list \<Rightarrow> nat" where
  "wire_size ms = sum_list (map (\<lambda>(c, t, p). length p + 2) ms)"

text \<open>
  The match is two queues: in a running match whose connections accept data, however the
  frames of the two players interleave when the server serves them, each player receives exactly
  the frames of the other, whole and in the order in which they were served, and nobody else
  receives anything; both stay connected and in the match.
\<close>

lemma match_is_two_queues:
  assumes "playing (wire_size ms) r a b s" "relayed a b ms"
  shows "\<exists>t. play ms s = Ok t \<and> playing 0 r a b t \<and>
    stream t a = stream s a @ from_other a ms \<and> stream t b = stream s b @ from_other b ms \<and>
    (\<forall>d. d \<noteq> a \<and> d \<noteq> b \<longrightarrow> stream t d = stream s d)"
  using assms
proof (induction ms arbitrary: s)
  case Nil
  then show ?case by (simp add: from_other_def wire_size_def)
next
  case (Cons msg ms)
  obtain c ft p where msg: "msg = (c, ft, p)" by (rule prod_cases3)
  define m where "m = (if c = a then b else a)"
  have pl: "playing (wire_size ms + length p + 2) r a b s"
    using Cons.prems(1) by (simp add: msg wire_size_def add_ac)
  note neq = playing_distinct[OF pl]
  have rel: "ft \<in> set RELAY_TYPES" "length p < 255" "(c, m) \<in> {(a, b), (b, a)}" "relayed a b ms"
    using Cons.prems(2) by (auto simp: msg relayed_def m_def)
  from relay_step[OF pl rel(1-3)] obtain u where u: "handle c ft p s = Ok u" "playing (wire_size ms) r a b u"
      "\<forall>d. stream u d = stream s d @ (if d = m then encode_msg (ft, p) else [])" by blast
  from Cons.IH[OF u(2) rel(4)] obtain t where t: "play ms u = Ok t" "playing 0 r a b t"
      "stream t a = stream u a @ from_other a ms" "stream t b = stream u b @ from_other b ms"
      "\<forall>d. d \<noteq> a \<and> d \<noteq> b \<longrightarrow> stream t d = stream u d" by blast
  have "stream u x @ from_other x ms = stream s x @ from_other x (msg # ms)" if "x \<in> {a, b}" for x
    using u(3) that rel(3) neq by (auto simp: from_other_def msg m_def)
  then show ?case using u(1,3) t rel(3) by (intro exI[of _ t]) (auto simp: msg)
qed


section \<open>From the lobby into a match\<close>

text \<open>Two players of a room that has or has not started, with \<open>k\<close> bytes left in either queue.\<close>

definition seated :: "bool \<Rightarrow> nat \<Rightarrow> rid \<Rightarrow> cid \<Rightarrow> cid \<Rightarrow> server \<Rightarrow> bool" where
  "seated started k r a b s \<longleftrightarrow>
     good {} s \<and> delay_ok s \<and> healthy s \<and> members s r = [a, b] \<and> (rm_started (room_of s r) \<longleftrightarrow> started) \<and>
     (\<forall>c \<in> {a, b}. cl_room (client_of s c) = Some r \<and> \<not> cl_dead (client_of s c) \<and>
        length (cl_tx (client_of s c)) + k \<le> MAX_TX_BACKLOG)"

lemma live_loop_both_queue:
  assumes "members s r = [a, b]" "a \<noteq> b" "healthy s" "\<not> cl_dead (client_of s a)" "\<not> cl_dead (client_of s b)"
    and "length (cl_tx (client_of s a)) + length (data 0) + k \<le> MAX_TX_BACKLOG"
    and "length (cl_tx (client_of s b)) + length (data 1) + k \<le> MAX_TX_BACKLOG"
  shows "\<exists>t. live_loop 2 0 r (\<lambda>i m s. send m (data i) s) s = Ok t \<and> healthy t \<and>
    (\<forall>c \<in> {a, b}. \<not> cl_dead (client_of t c) \<and> length (cl_tx (client_of t c)) + k \<le> MAX_TX_BACKLOG)"
proof -
  have "fits s a (data 0)" using assms(6) by (simp add: fits_def)
  from send_queue[OF assms(3,4) this] obtain u where u: "send a (data 0) s = Ok u" "\<not> cl_dead (client_of u a)" "healthy u"
      "length (cl_tx (client_of u a)) \<le> length (cl_tx (client_of s a)) + length (data 0)" by blast
  note d = delivered_sel[OF send_delivers[OF u(1,2)]]
  have ub: "client_of u b = client_of s b" using d(2)[of b] assms(2) by simp
  then have "fits u b (data 1)" using assms(7) by (simp add: fits_def)
  from send_queue[OF u(3) _ this] obtain t where t: "send b (data 1) u = Ok t" "\<not> cl_dead (client_of t b)" "healthy t"
      "length (cl_tx (client_of t b)) \<le> length (cl_tx (client_of u b)) + length (data 1)"
    using ub assms(5) by auto
  have ta: "client_of t a = client_of u a" using delivered_sel(2)[OF send_delivers[OF t(1,2)]] assms(2) by simp
  have "live_loop 2 0 r (\<lambda>i m s. send m (data i) s) s = Ok t"
    using assms(1) u(1) t(1) d(6) by (simp add: numeral_2_eq_2)
  moreover have "length (cl_tx (client_of t a)) + k \<le> MAX_TX_BACKLOG" "length (cl_tx (client_of t b)) + k \<le> MAX_TX_BACKLOG"
    using u(4) t(4) assms(6,7) by (simp_all add: ta ub)
  ultimately show ?thesis using t(2,3) u(2) ta by auto
qed

lemma seated_playing: "server_inv s \<Longrightarrow> seated True k r a b s \<Longrightarrow> playing k r a b s"
  by (simp add: seated_def playing_def)

text \<open>The room of a player alone in the lobby and the one who joined, after the broadcast.\<close>

lemma join_broadcast:
  assumes "server_inv s" "healthy s" "c < sv_next_cid s" "cl_name (client_of s c) \<noteq> None"
    and "map_of (sv_by_name s) (wire_name payload) = Some h" "h \<noteq> c"
    and "\<forall>x \<in> {h, c}. cl_room (client_of s x) = None \<and> \<not> cl_dead (client_of s x) \<and>
        length (cl_tx (client_of s x)) + 35 + k \<le> MAX_TX_BACKLOG"
  shows "\<exists>t. handle c T_JOIN payload s =
      (if sv_auto_go s \<noteq> 0 \<and> 2 \<ge> sv_auto_go s then start_room (sv_next_rid s) t else Ok t) \<and>
    seated False k (sv_next_rid s) h c t \<and> name_bytes t = name_bytes s \<and> sv_delay t = sv_delay s \<and>
    (\<forall>d. stream t d = stream s d @ (if d \<in> {h, c} then encode_msg (room_notice s h c) else []))"
proof -
  let ?r = "sv_next_rid s" and ?j = "joined h c s" and ?data = "\<lambda>_ :: nat. encode_msg (room_notice s h c)"
  have g: "good {} s" and dl: "delay_ok s" using assms(1) by (simp_all add: server_inv_def)
  have room: "cl_room (client_of s c) = None" "cl_room (client_of s h) = None" using assms(7) by simp_all
  have hn: "cl_name (client_of s h) \<noteq> None" "h < sv_next_cid s"
    using map_of_SomeD[OF assms(5)] g by (auto simp: good_def core_def names_ok_def)
  then have uj: "\<not> unjoinable c (Some h) s" using assms(6) room by (simp add: unjoinable_def)
  have gj: "good {} ?j" using g assms(3,4,6) hn room by (intro good_joined) auto
  have mj: "members ?j ?r = [h, c]" by simp
  have nb: "name_bytes ?j = name_bytes s" by (rule ext) (simp add: name_bytes_def)
  have rn: "room_notice ?j h c = room_notice s h c" by (simp add: room_notice_def nb)
  have "length (?data i) = 35" for i by (simp add: encode_msg_def room_notice_def)
  then obtain u where u: "room_broadcast ?r ?j = Ok u" "healthy u"
      "\<forall>x \<in> {h, c}. \<not> cl_dead (client_of u x) \<and> length (cl_tx (client_of u x)) + k \<le> MAX_TX_BACKLOG"
    using live_loop_both_queue[OF mj assms(6), of ?data k] assms(2,7)
    unfolding room_broadcast_unfold(1)[OF gj mj] rn by (auto simp: healthy_def)
  have ev: "sv_auto_go u = sv_auto_go s" "sv_delay u = sv_delay s"
    using plumbing.room_broadcast_evolves[of ?j ?r] u(1) by (simp_all add: room_broadcast_def evolves_def)
  have bd: "both_delivered h (?data 0) c (?data 1) ?j u"
    using room_broadcast_pair[OF gj mj u(1)] u(3) by (simp add: rn)
  note d = both_delivered_sel[OF bd assms(6)]
  have two: "members u ?r = [h, c]" by (simp add: d(6))
  have "handle c T_JOIN payload s =
      (if sv_auto_go s \<noteq> 0 \<and> 2 \<ge> sv_auto_go s then start_room ?r (lobby_update u) else Ok (lobby_update u))"
    using u(1) on_join_joins[OF g assms(4) room(1) assms(5) uj] two by (simp add: handle_simps Let_def ev)
  moreover have "good {} (lobby_update u)"
    using safe_room_broadcast[OF gj, of ?r] u(1) by (simp add: safe_def good_lobby_update)
  then have "seated False k ?r h c (lobby_update u)"
    using u(2,3) two dl assms(6) by (auto simp: seated_def d(4,6) healthy_def Room_init_def delay_ok_def ev)
  moreover have "name_bytes (lobby_update u) = name_bytes s"
    by (rule ext) (simp add: name_bytes_def d(5))
  moreover have "stream (lobby_update u) x = stream s x @ (if x \<in> {h, c} then encode_msg (room_notice s h c) else [])" for x
    using d(1,2) d(3)[of x] by (auto simp: stream_def)
  ultimately show ?thesis using ev(2) by (intro exI[of _ "lobby_update u"]) simp
qed

text \<open>The start of a match.\<close>

lemma start_step:
  assumes "seated False (k + 39) r a b s"
  shows "\<exists>t sd. start_room r s = Ok t \<and> 1 \<le> sd \<and> sd < 0x10000 \<and> seated True k r a b t \<and> rm_seed (room_of t r) = sd \<and>
    stream t a = stream s a @ encode_msg (start_notice s a b sd 0) \<and>
    stream t b = stream s b @ encode_msg (start_notice s a b sd 1) \<and>
    (\<forall>d. d \<noteq> a \<and> d \<noteq> b \<longrightarrow> stream t d = stream s d)"
proof -
  have g: "good {} s" and dl: "delay_ok s" and h: "healthy s" and m: "members s r = [a, b]"
    and cl: "\<forall>c \<in> {a, b}. cl_room (client_of s c) = Some r \<and> \<not> cl_dead (client_of s c) \<and>
        length (cl_tx (client_of s c)) + (k + 39) \<le> MAX_TX_BACKLOG"
    using assms by (simp_all add: seated_def)
  note neq = good_pair_distinct[OF g m]
  obtain sd where sd: "1 \<le> sd" "sd < 0x10000" and st:
    "start_room r s = andthen
      (live_loop 2 0 r (\<lambda>i m w. send m (encode_msg (start_notice s a b sd i)) w) (match_begun r sd s))
      (\<lambda>u. Ok (lobby_update (add_log (Log_match_started r (length (members u r)) sd) u)))"
    using start_room_unfold[OF g dl m] by blast
  let ?s3 = "match_begun r sd s" and ?data = "\<lambda>i. encode_msg (start_notice s a b sd i)"
  have m3: "members ?s3 r = [a, b]" using m by (simp add: match_room_def)
  have "length (?data i) = 39" for i by (simp add: encode_msg_def start_notice_def)
  moreover have "healthy ?s3" using h by (simp add: healthy_def match_begun_def upd_room_def)
  ultimately obtain u where u: "live_loop 2 0 r (\<lambda>i m w. send m (?data i) w) ?s3 = Ok u" "healthy u"
      "\<forall>x \<in> {a, b}. \<not> cl_dead (client_of u x) \<and> length (cl_tx (client_of u x)) + k \<le> MAX_TX_BACKLOG"
    using live_loop_both_queue[OF m3 neq, of ?data k] cl by auto
  let ?t = "lobby_update (add_log (Log_match_started r (length (members u r)) sd) u)"
  have hd: "start_room r s = Ok ?t" using u(1) st by simp
  have fr: "frame T_START (snd (start_notice s a b sd i)) = Inr (?data i)" for i
    by (subst encode_msg_frame) (simp_all add: start_notice_def)
  have bd: "both_delivered a (?data 0) b (?data 1) ?s3 u"
    using live_loop_both[OF m3 u(1), of ?data] u(3) is_frame_frame[OF fr] by simp
  note d = both_delivered_sel[OF bd neq]
  have "good {} ?t" using safe_start_room[OF g dl, of r] m hd by (auto simp: safe_def)
  then have "seated True k r a b ?t"
    using u(2,3) m3 cl dl by (auto simp: seated_def d(4,6,8) healthy_def match_room_def delay_ok_def)
  moreover have "stream ?t a = stream s a @ ?data 0" "stream ?t b = stream s b @ ?data 1"
    using d(1,2) by (simp_all add: stream_def)
  moreover have "\<forall>x. x \<noteq> a \<and> x \<noteq> b \<longrightarrow> stream ?t x = stream s x" using d(3) by (auto simp: stream_def)
  moreover have "rm_seed (room_of ?t r) = sd" by (simp add: d(6) match_room_def)
  ultimately show ?thesis using hd sd by blast
qed

lemma go_is_start:
  assumes "seated False k r a b s"
  shows "handle a T_GO payload s = start_room r s"
  using assms by (simp add: handle_simps on_go_def seat_def MAX_SEATS_def seated_def)

text \<open>
  C5 (a whole match): two connected players are alone in the lobby, their sockets accept data
  and their queues have room.  The guest's JOIN, the host's GO and then any interleaving of the
  frames of the two players are all served, and each of the two reads exactly: one ROOM with both
  names, its START with its seat and the seed of the room, and then the frames of the other
  player in the order in which they were served.  Both are still in the match at the end.
\<close>

theorem whole_match:
  assumes "server_inv s" "healthy s" "g < sv_next_cid s" "cl_name (client_of s g) \<noteq> None"
    and "map_of (sv_by_name s) (wire_name nm) = Some h" "h \<noteq> g" "sv_auto_go s = 0" "relayed h g ms"
    and "\<forall>x \<in> {h, g}. cl_room (client_of s x) = None \<and> \<not> cl_dead (client_of s x) \<and>
        length (cl_tx (client_of s x)) + 74 + wire_size ms \<le> MAX_TX_BACKLOG"
  shows "\<exists>t sd. play ([(g, T_JOIN, nm), (h, T_GO, [])] @ ms) s = Ok t \<and> 1 \<le> sd \<and> sd < 0x10000 \<and>
    playing 0 (sv_next_rid s) h g t \<and>
    stream t h = stream s h @ encode_msg (room_notice s h g) @ encode_msg (start_notice s h g sd 0) @ from_other h ms \<and>
    stream t g = stream s g @ encode_msg (room_notice s h g) @ encode_msg (start_notice s h g sd 1) @ from_other g ms \<and>
    (\<forall>d. d \<noteq> h \<and> d \<noteq> g \<longrightarrow> stream t d = stream s d)"
proof -
  let ?r = "sv_next_rid s"
  have room: "\<forall>x \<in> {h, g}. cl_room (client_of s x) = None \<and> \<not> cl_dead (client_of s x) \<and>
      length (cl_tx (client_of s x)) + 35 + (wire_size ms + 39) \<le> MAX_TX_BACKLOG"
    using assms(9) by (simp add: add_ac)
  from join_broadcast[OF assms(1-6) room] assms(7) obtain s1 where s1: "handle g T_JOIN nm s = Ok s1"
      "seated False (wire_size ms + 39) ?r h g s1" "name_bytes s1 = name_bytes s" "sv_delay s1 = sv_delay s"
      "\<forall>d. stream s1 d = stream s d @ (if d \<in> {h, g} then encode_msg (room_notice s h g) else [])" by auto
  from start_step[OF s1(2)] obtain s2 sd where s2': "start_room ?r s1 = Ok s2" and s2: "1 \<le> sd" "sd < 0x10000"
      "seated True (wire_size ms) ?r h g s2" "stream s2 h = stream s1 h @ encode_msg (start_notice s1 h g sd 0)"
      "stream s2 g = stream s1 g @ encode_msg (start_notice s1 h g sd 1)"
      "\<forall>d. d \<noteq> h \<and> d \<noteq> g \<longrightarrow> stream s2 d = stream s1 d"
    by blast
  have go: "handle h T_GO [] s1 = Ok s2" using go_is_start[OF s1(2)] s2' by simp
  have i1: "server_inv s1" using server_inv_handled[OF assms(1) s1(1)] s1(2) by (simp add: seated_def)
  have "server_inv s2" using server_inv_handled[OF i1 go] s2(3) by (simp add: seated_def)
  then have pl: "playing (wire_size ms) ?r h g s2" using s2(3) by (rule seated_playing)
  have "start_notice s1 h g sd i = start_notice s h g sd i" for i by (simp add: start_notice_def s1(3,4))
  moreover from match_is_two_queues[OF pl assms(8)] obtain t where t: "play ms s2 = Ok t" "playing 0 ?r h g t"
      "stream t h = stream s2 h @ from_other h ms" "stream t g = stream s2 g @ from_other g ms"
      "\<forall>d. d \<noteq> h \<and> d \<noteq> g \<longrightarrow> stream t d = stream s2 d" by blast
  ultimately show ?thesis
    using s1(1,5) go s2 t by (intro exI[of _ t] exI[of _ sd]) simp
qed


text \<open>DAVE (3) hosts CAROL (2); three frames cross.\<close>

theorem whole_match_witness:
  "\<exists>t sd. play ([(2, T_JOIN, [68, 65, 86, 69]), (3, T_GO, [])] @
        [(2, T_INPUT, [1, 0, 0, 64, 0]), (3, T_INPUT, [0, 0, 0, 32, 0]), (2, T_INPUT, [1, 1, 0, 64, 0])]) (demo True) = Ok t \<and>
     stream t 3 = encode_msg (room_notice (demo True) 3 2) @ encode_msg (start_notice (demo True) 3 2 sd 0) @
       [6, T_INPUT, 1, 0, 0, 64, 0, 6, T_INPUT, 1, 1, 0, 64, 0] \<and>
     stream t 2 = encode_msg (room_notice (demo True) 3 2) @ encode_msg (start_notice (demo True) 3 2 sd 1) @
       [6, T_INPUT, 0, 0, 0, 32, 0]"
proof -
  let ?ms = "[(2, T_INPUT, [1, 0, 0, 64, 0]), (3, T_INPUT, [0, 0, 0, 32, 0]), (2, T_INPUT, [1, 1, 0, 64, 0])] ::
    (cid \<times> byte \<times> byte list) list"
  have "relayed 3 2 ?ms" by (simp add: relayed_def RELAY_TYPES_def)
  from whole_match[OF demo_inv[of True] demo_healthy _ _ _ _ _ this, of "[68, 65, 86, 69]"] show ?thesis
    by (auto simp: ascii_names(1) wire_size_def MAX_TX_BACKLOG_def demo_stream from_other_def encode_msg_def)
qed


section \<open>Entering the lobby\<close>

text \<open>A connected client that has no name yet, or a name and no room, with \<open>k\<close> bytes left in its queue.\<close>

definition idle :: "nat \<Rightarrow> string option \<Rightarrow> cid \<Rightarrow> server \<Rightarrow> bool" where
  "idle k n c s \<longleftrightarrow>
     c < sv_next_cid s \<and> \<not> cl_dead (client_of s c) \<and> cl_name (client_of s c) = n \<and> cl_room (client_of s c) = None \<and>
     length (cl_tx (client_of s c)) + k \<le> MAX_TX_BACKLOG"

lemma wire_name_plain:
  assumes "valid_name n"
  shows "wire_name (map byte_of_char n) = n"
proof -
  have ne: "n \<noteq> []" and "set n \<subseteq> set NAME_CHARS" using assms by (auto simp: valid_name_def)
  then have "List.last n \<in> set NAME_CHARS" by auto
  then have "List.last n \<notin> {CHR 0x00, CHR 0x20}" by (auto dest: name_char_ascii)
  then show ?thesis
    using ne assms by (simp add: wire_name_def decode_encode valid_name_ascii rstrip_id)
qed

lemma hello_step:
  assumes "server_inv s" "healthy s" "idle (k + 83) None c s" "valid_name n" "map_of (sv_by_name s) n = None"
  shows "\<exists>t. handle c T_HELLO (2 # map byte_of_char n) s = Ok t \<and> server_inv t \<and> healthy t \<and> idle k (Some n) c t \<and>
    sv_by_name t = sv_by_name s @ [(n, c)] \<and> sv_auto_go t = sv_auto_go s \<and> sv_next_cid t = sv_next_cid s \<and>
    (\<forall>d. d \<noteq> c \<longrightarrow> client_of t d = client_of s d) \<and>
    stream t c = stream s c @ encode_msg (T_LOBBY, lobby_payload_of c s)"
proof -
  let ?p = "2 # map byte_of_char n" and ?u = "lobby_update (add_log (Log_hello c) (take_name c n s))"
  have g: "good {} s" using assms(1) by (simp add: server_inv_def)
  have len: "2 \<le> length n" using assms(4) by (simp add: valid_name_def)
  have wn: "wire_name (List.drop 1 ?p) = n" using wire_name_plain[OF assms(4)] by simp
  have acc: "hello_accepts ?p" using len assms(4) wn by (simp add: hello_accepts_def PROTO_VER_def)
  have ev: "evict_holder c n s = Ok s" using assms(5) by (simp add: evict_holder_def)
  have gu: "good {} ?u"
    using evict_holder_frees[OF g ev] assms(3) by (intro good_take_name[OF g assms(4)]) (auto simp: idle_def)
  have c: "cl_name (client_of s c) = None" "\<not> cl_dead (client_of s c)" using assms(3) by (simp_all add: idle_def)
  have notin: "c \<notin> snd ` set (sv_by_name s)"
    using g c(1) by (fastforce simp: good_def core_def names_ok_def)
  have by_name: "sv_by_name ?u = sv_by_name s @ [(n, c)]"
    using c(1) assms(5) by (simp add: take_name_def Let_def update_absent map_of_eq_None_iff)
  have others: "lobby_others c ?u = lobby_others c s"
    unfolding lobby_others_def by_name using notin by (auto intro!: arg_cong[where f = "take 8"] filter_cong)
  have "lobby_line ?u d = lobby_line s d" if "d \<in> set (lobby_others c s)" for d
  proof -
    have "d \<noteq> c" using that by (auto simp: lobby_others_def dest!: in_set_takeD)
    then show ?thesis by (cases "cl_room (client_of s d)") (simp_all add: lobby_line_def status_def Let_def)
  qed
  then have "lobby_payload_of c ?u = lobby_payload_of c s"
    unfolding lobby_payload_of_def others by (simp cong: map_cong)
  then obtain data where data: "frame T_LOBBY (lobby_payload_of c s) = Inr data" "on_list c ?u = send c data ?u"
    using on_list_sends[OF gu, of c] by auto
  have pl: "length (lobby_payload_of c s) \<le> 73"
    using lobby_others_le[of c s] by (simp add: length_lobby_payload)
  then have d: "data = encode_msg (T_LOBBY, lobby_payload_of c s)" using data(1) by (simp add: encode_msg_frame)
  then have ld: "length data \<le> 75" using pl by (simp add: encode_msg_def)
  have "healthy ?u" "\<not> cl_dead (client_of ?u c)" "fits ?u c data"
    using assms(2,3) ld by (auto simp: healthy_def idle_def fits_def)
  from send_queue[OF this] obtain t where t: "send c data ?u = Ok t" "\<not> cl_dead (client_of t c)" "healthy t"
      "length (cl_tx (client_of t c)) \<le> length (cl_tx (client_of ?u c)) + length data" by blast
  note dl = delivered_sel[OF send_delivers[OF t(1,2)]]
  have h: "handle c T_HELLO ?p s = Ok t"
    using on_hello_accepted[OF acc, of n c s] wn ev data(2) t(1) by (simp add: handle_simps)
  have "good {} t" using safe_on_hello[OF g _ acc, of c] assms(3) h by (auto simp: safe_def handle_simps idle_def)
  then have "server_inv t" by (rule server_inv_handled[OF assms(1) h])
  moreover have "idle k (Some n) c t"
    using assms(3) t(2,4) ld by (auto simp: idle_def dl(3,4,12))
  moreover have "\<forall>x. x \<noteq> c \<longrightarrow> client_of t x = client_of s x" using dl(2) by simp
  moreover have "stream t c = stream s c @ encode_msg (T_LOBBY, lobby_payload_of c s)"
    using dl(1) d by (simp add: stream_def)
  moreover have "sv_auto_go t = sv_auto_go s"
    using send_delivers[OF t(1,2)] by (auto simp: delivered_def)
  ultimately show ?thesis using h t(3) by_name by (auto simp: dl(7,12))
qed


end
