(* ===== verification/Load_Tools.thy ===== *)
theory Load_Tools
  imports Relay_Session Diff_Scenarios
begin

text \<open>
  The load tools: the resource soak tools/soak.py and the echo server
  tools/latency_probe_server.py.  Clock readings, the outcome of \<open>sendall\<close>, the lines of
  the process's status file and the results of \<open>recv\<close> are inputs; floating point numbers are
  rationals, and the rate \<open>--hz\<close> is positive; printing, options and the server process are left out.
\<close>

section \<open>soak.py\<close>

definition S_HELLO :: byte where "S_HELLO = 0x01"
definition S_JOIN :: byte where "S_JOIN = 0x04"
definition S_GO :: byte where "S_GO = 0x0F"
definition S_INPUT :: byte where "S_INPUT = 0x06"
definition S_CRC :: byte where "S_CRC = 0x07"

definition so_frame :: "byte \<Rightarrow> byte list \<Rightarrow> exn + byte list" where
  "so_frame t payload = (case to_bytes [int (length payload) + 1] of Inl e \<Rightarrow> Inl e | Inr n \<Rightarrow> Inr (n @ [t] @ payload))"

definition so_pad :: "string \<Rightarrow> byte list" where
  "so_pad n = pad8 (utf8_encode n)"

text \<open>\<open>int\<close> of a token: an optional sign, then digits with single underscores between them.\<close>

fun int_tail :: "nat \<Rightarrow> string \<Rightarrow> nat option" where
  "int_tail acc [] = Some acc"
| "int_tail acc (c # cs) =
     (if digit c then int_tail (10 * acc + (of_char c - 48)) cs
      else if c = CHR ''_'' then
        (case cs of d # ds \<Rightarrow> if digit d then int_tail (10 * acc + (of_char d - 48)) ds else None | [] \<Rightarrow> None)
      else None)"

definition py_int :: "string \<Rightarrow> exn + int" where
  "py_int s =
     (let negative = (s \<noteq> [] \<and> hd s = CHR ''-'');
          ds = (if s \<noteq> [] \<and> hd s \<in> {CHR ''-'', CHR ''+''} then tl s else s)
      in if ds = [] \<or> \<not> digit (hd ds) then Inl ValueError
         else case int_tail 0 ds of
           None \<Rightarrow> Inl ValueError
         | Some n \<Rightarrow> Inr (if negative then - int n else int n))"

text \<open>\<open>line.split()[1]\<close>\<close>

definition second_token :: "string \<Rightarrow> exn + string" where
  "second_token line =
     (let rest = dropWhile is_space (dropWhile (\<lambda>c. \<not> is_space c) (dropWhile is_space line))
      in if rest = [] then Inl IndexError else Inr (takeWhile (\<lambda>c. \<not> is_space c) rest))"

text \<open>The status file is the list of its lines; \<open>None\<close> is a file that cannot be opened.\<close>

definition vm_kb :: "string list option \<Rightarrow> string \<Rightarrow> exn + int" where
  "vm_kb file field =
     (case file of
        None \<Rightarrow> Inr 0
      | Some lines \<Rightarrow>
          (case find (\<lambda>l. take (length field) l = field) lines of
             None \<Rightarrow> Inr 0
           | Some l \<Rightarrow> (case second_token l of Inl e \<Rightarrow> Inl e | Inr tok \<Rightarrow> py_int tok)))"

definition so_hello :: "string \<Rightarrow> exn + byte list" where
  "so_hello n = so_frame S_HELLO ([2] @ utf8_encode n)"

subsection \<open>The loop\<close>

record soak_args =
  ka_secs :: time
  ka_hz :: time
  ka_sample_every :: time

record soak =
  so_a :: "byte list"
  so_b :: "byte list"
  so_rss :: "int list"
  so_hwm :: int
  so_next_sample :: time
  so_tick :: nat
  so_next_tick :: time

datatype so_result = So_on soak | So_break soak | So_raise exn soak

text \<open>The match: MATCHB joins MATCHA, MATCHA says GO; what the two sockets have been given.\<close>

definition so_start :: "time \<Rightarrow> exn + soak" where
  "so_start t0 =
     (case (so_hello ''MATCHA'', so_hello ''MATCHB'', so_frame S_JOIN (so_pad ''MATCHA''), so_frame S_GO []) of
        (Inr ha, Inr hb, Inr j, Inr g) \<Rightarrow>
          Inr \<lparr>so_a = ha @ g, so_b = hb @ j, so_rss = [], so_hwm = 0, so_next_sample = t0, so_tick = 0, so_next_tick = t0\<rparr>
      | _ \<Rightarrow> Inl ValueError)"

definition so_idle_name :: "nat \<Rightarrow> string" where
  "so_idle_name i = ''IDLE'' @ dec02 i"

text \<open>The four writes of a tick; the first \<open>n\<close> of them succeed, a failing one gives nothing to the socket.\<close>

definition so_payload :: "byte \<Rightarrow> nat \<Rightarrow> byte list \<Rightarrow> byte list" where
  "so_payload sn tick rest = [sn, word_of_nat (tick AND 0xFF), word_of_nat (drop_bit 8 tick)] @ rest"

definition so_writes :: "nat \<Rightarrow> (bool \<times> byte \<times> byte list) list" where
  "so_writes tick =
     [(True, S_INPUT, so_payload 0 tick [0x40, 0]), (True, S_CRC, so_payload 0 tick [0x11, 0x22]),
      (False, S_INPUT, so_payload 1 tick [0x20, 0]), (False, S_CRC, so_payload 1 tick [0x11, 0x22])]"

definition so_write :: "bool \<times> byte \<times> byte list \<Rightarrow> soak \<Rightarrow> soak" where
  "so_write w x =
     (case w of (to_a, t, p) \<Rightarrow>
        (case so_frame t p of
           Inl e \<Rightarrow> x
         | Inr data \<Rightarrow> if to_a then x\<lparr>so_a := so_a x @ data\<rparr> else x\<lparr>so_b := so_b x @ data\<rparr>))"

definition so_send :: "soak_args \<Rightarrow> nat \<Rightarrow> soak \<Rightarrow> so_result" where
  "so_send args n x =
     (let tick = (so_tick x + 1) AND 0xFFFF;
          y = fold so_write (take n (so_writes tick)) (x\<lparr>so_next_tick := so_next_tick x + 1 / ka_hz args, so_tick := tick\<rparr>)
      in if n < 4 then So_break y else So_on y)"

definition so_sample :: "soak_args \<Rightarrow> string list option \<Rightarrow> string list option \<Rightarrow> soak \<Rightarrow> so_result" where
  "so_sample args file file' x =
     (let y = x\<lparr>so_next_sample := so_next_sample x + ka_sample_every args\<rparr> in
      case vm_kb file ''VmRSS:'' of
        Inl e \<Rightarrow> So_raise e y
      | Inr r \<Rightarrow>
          let z = (if r \<noteq> 0 then y\<lparr>so_rss := so_rss y @ [r]\<rparr> else y) in
          (case vm_kb file' ''VmHWM:'' of
             Inl e \<Rightarrow> So_raise e z
           | Inr h \<Rightarrow> So_on (z\<lparr>so_hwm := max (so_hwm z) h\<rparr>)))"

text \<open>
  One round of the loop: the clock of its test, the clock it works with, how many writes succeed
  and the two readings of the status file.
\<close>

definition so_round :: "soak_args \<Rightarrow> time \<Rightarrow> time \<Rightarrow> time \<Rightarrow> nat \<Rightarrow> string list option \<Rightarrow> string list option \<Rightarrow> soak \<Rightarrow> so_result" where
  "so_round args t0 n0 now n file file' x =
     (if \<not> n0 - t0 < ka_secs args then So_break x
      else case (if now \<ge> so_next_tick x then so_send args n x else So_on x) of
        So_on y \<Rightarrow> if now \<ge> so_next_sample y then so_sample args file file' y else So_on y
      | r \<Rightarrow> r)"

text \<open>The growth between the first and the last third of the samples.\<close>

definition so_growth :: "int list \<Rightarrow> time" where
  "so_growth rss =
     (let third = max 1 (length rss div 3)
      in of_int (sum_list (List.drop (length rss - third) rss)) / of_nat third -
         of_int (sum_list (take third rss)) / of_nat third)"

record soak_report =
  sr_samples :: nat
  sr_first :: int
  sr_last :: int
  sr_max :: int
  sr_hwm :: int
  sr_growth :: time
  sr_ticks :: nat

definition so_report :: "soak \<Rightarrow> soak_report option" where
  "so_report x =
     (if so_rss x = [] then None
      else Some \<lparr>sr_samples = length (so_rss x), sr_first = hd (so_rss x), sr_last = List.last (so_rss x),
        sr_max = Max (set (so_rss x)), sr_hwm = so_hwm x, sr_growth = so_growth (so_rss x), sr_ticks = so_tick x\<rparr>)"

section \<open>latency_probe_server.py\<close>

text \<open>
  One connection: \<open>recv\<close> results with the clock reading and whether the \<open>sendall\<close> of the
  answer succeeds; what a failing one may already have written is left out.  The result is what was sent, the number of rounds and the gaps.
\<close>

datatype echo_recv = Echo_data "byte list" time bool | Echo_fails

fun echo_conn :: "time \<Rightarrow> echo_recv list \<Rightarrow> byte list \<times> nat \<times> time list" where
  "echo_conn prev [] = ([], 0, [])"
| "echo_conn prev (Echo_fails # rs) = ([], 0, [])"
| "echo_conn prev (Echo_data data now ok # rs) =
     (if data = [] then ([], 0, [])
      else if \<not> ok then ([], 0, [now - prev])
      else case echo_conn now rs of (out, rounds, gaps) \<Rightarrow> (data @ out, Suc rounds, (now - prev) # gaps))"

definition echo_avg :: "time list \<Rightarrow> time option" where
  "echo_avg gaps = (if gaps = [] then None else Some (sum_list (tl gaps) / of_nat (max (length gaps - 1) 1)))"


section \<open>The load and the relay\<close>

text \<open>The messages of \<open>k\<close> ticks of the match, with the two players as clients 0 and 1.\<close>

definition so_tick_messages :: "nat \<Rightarrow> (cid \<times> byte \<times> byte list) list" where
  "so_tick_messages i = map (\<lambda>(to_a, t, p). (if to_a then 0 else 1, t, p)) (so_writes (i mod 65536))"

definition so_messages :: "nat \<Rightarrow> (cid \<times> byte \<times> byte list) list" where
  "so_messages k = concat (map so_tick_messages [1..<Suc k])"

lemma so_messages_Suc: "so_messages (Suc k) = so_messages k @ so_tick_messages (Suc k)"
  by (simp add: so_messages_def)

lemma from_other_append: "from_other m (xs @ ys) = from_other m xs @ from_other m ys"
  by (simp add: from_other_def)

definition so_run :: "soak_args \<Rightarrow> time \<Rightarrow> (time \<times> time \<times> nat \<times> string list option \<times> string list option) list \<Rightarrow> soak \<Rightarrow> so_result" where
  "so_run args t0 rounds x =
     foldl (\<lambda>r (n0, now, n, file, file'). case r of So_on y \<Rightarrow> so_round args t0 n0 now n file file' y | _ \<Rightarrow> r) (So_on x) rounds"

definition so_sent :: "nat \<Rightarrow> soak \<Rightarrow> soak \<Rightarrow> bool" where
  "so_sent k x y \<longleftrightarrow>
     so_tick y = k mod 65536 \<and>
     so_a y = so_a x @ from_other 1 (so_messages k) \<and> so_b y = so_b x @ from_other 0 (so_messages k)"

lemma mask16: "(n :: nat) AND 0xFFFF = n mod 65536"
  using and_ones[of n 16] by (simp add: mask_eq_exp_minus_1)

lemma so_frame_ok: "length p < 200 \<Longrightarrow> so_frame t p = Inr (encode_msg (t, p))"
  by (simp add: so_frame_def encode_msg_def)

lemma so_write_all:
  "so_a (fold so_write (so_writes tick) x) = so_a x @ encode_msg (S_INPUT, so_payload 0 tick [0x40, 0]) @ encode_msg (S_CRC, so_payload 0 tick [0x11, 0x22])"
  "so_b (fold so_write (so_writes tick) x) = so_b x @ encode_msg (S_INPUT, so_payload 1 tick [0x20, 0]) @ encode_msg (S_CRC, so_payload 1 tick [0x11, 0x22])"
  "so_tick (fold so_write (so_writes tick) x) = so_tick x"
  by (simp_all add: so_writes_def so_write_def so_frame_ok so_payload_def)

lemma so_send_sent:
  assumes "so_sent k x y" "so_send args n y = So_on z"
  shows "so_sent (Suc k) x z"
proof -
  have n: "take n (so_writes t) = so_writes t" for t
    using assms(2) by (simp add: so_send_def Let_def so_writes_def split: if_splits)
  have t: "(so_tick y + 1) AND 0xFFFF = Suc k mod 65536"
    using assms(1) by (simp add: so_sent_def mask16 mod_Suc_eq)
  have z: "z = fold so_write (so_writes (Suc k mod 65536)) (y\<lparr>so_next_tick := so_next_tick y + 1 / ka_hz args, so_tick := Suc k mod 65536\<rparr>)"
    using assms(2) unfolding so_send_def Let_def t n by (simp split: if_splits)
  have "from_other 1 (so_tick_messages (Suc k)) =
      encode_msg (S_INPUT, so_payload 0 (Suc k mod 65536) [0x40, 0]) @ encode_msg (S_CRC, so_payload 0 (Suc k mod 65536) [0x11, 0x22])"
    "from_other 0 (so_tick_messages (Suc k)) =
      encode_msg (S_INPUT, so_payload 1 (Suc k mod 65536) [0x20, 0]) @ encode_msg (S_CRC, so_payload 1 (Suc k mod 65536) [0x11, 0x22])"
    by (simp_all add: from_other_def so_tick_messages_def so_writes_def)
  then show ?thesis
    using assms(1) by (simp add: so_sent_def z so_write_all so_messages_Suc from_other_append)
qed

lemma so_sample_sent: "so_sent k x y \<Longrightarrow> so_sample args file file' y = So_on z \<Longrightarrow> so_sent k x z"
  by (auto simp: so_sample_def so_sent_def Let_def split: sum.splits if_splits)

lemma so_round_sent:
  assumes "so_sent k x y" "so_round args t0 n0 now n file file' y = So_on z"
  shows "\<exists>k'. so_sent k' x z"
  using assms so_send_sent so_sample_sent
  by (auto simp: so_round_def split: if_splits so_result.splits) blast+

lemma so_run_sent: "so_run args t0 rounds x = So_on y \<Longrightarrow> so_tick x = 0 \<Longrightarrow> \<exists>k. so_sent k x y"
proof (induction rounds arbitrary: y rule: rev_induct)
  case Nil
  then have "so_sent 0 x y" by (simp add: so_run_def so_sent_def so_messages_def from_other_def)
  then show ?case ..
next
  case (snoc r rs)
  obtain n0 now n f f' where r: "r = (n0, now, n, f, f')" by (rule prod_cases5)
  from snoc.prems(1) obtain z where z: "so_run args t0 rs x = So_on z" "so_round args t0 n0 now n f f' z = So_on y"
    by (simp add: so_run_def r split: so_result.splits)
  from snoc.IH[OF z(1) snoc.prems(2)] obtain k where "so_sent k x z" ..
  from so_round_sent[OF this z(2)] show ?case .
qed


text \<open>One agreed round on an empty table.\<close>

lemma crc_round_empty:
  assumes "tick < 65536"
  shows "fold crc_step [crc_report 0 tick 0x11 0x22, crc_report 1 tick 0x11 0x22] (relay_room [] n, lg) =
    (relay_room [] (n + 1), lg @ (if (n + 1) mod 4 = 0 then [Log_crc_ok tick (n + 1)] else []))"
proof -
  have one: "note_crc 0 tick c (relay_room [] n) = (relay_room ([] @ [(tick, [(0, c)])]) n, [])" for c
    by (subst half_report) simp_all
  have two: "note_crc 1 tick c (relay_room ([] @ [(tick, [(0, c)])]) n) =
      (relay_room [] (n + 1), if (n + 1) mod 4 = 0 then [Log_crc_ok tick (n + 1)] else [])" for c
    by (subst second_report) simp_all
  show ?thesis
    using assms by (simp add: crc_step_report one two del: append_Nil One_nat_def)
qed

definition so_reports :: "nat \<Rightarrow> byte list list" where
  "so_reports k = map (\<lambda>(c, t, p). p) (filter (\<lambda>(c, t, p). t = T_CRC) (so_messages k))"

lemma so_reports_Suc:
  "so_reports (Suc k) = so_reports k @ [crc_report 0 (Suc k mod 65536) 0x11 0x22, crc_report 1 (Suc k mod 65536) 0x11 0x22]"
  by (simp add: so_reports_def so_messages_Suc so_tick_messages_def so_writes_def so_payload_def crc_report_def
      S_INPUT_def S_CRC_def T_CRC_def)

lemma so_reports_agree:
  "feed_crc (so_reports k) (relay_room [] 0) =
     (relay_room [] k, map (\<lambda>i. Log_crc_ok (4 * i mod 65536) (4 * i)) [1..<Suc (k div 4)])"
proof (induction k)
  case 0
  then show ?case by (simp add: so_reports_def so_messages_def feed_crc_def)
next
  case (Suc k)
  let ?log = "\<lambda>k. map (\<lambda>i. Log_crc_ok (4 * i mod 65536) (4 * i)) [1..<Suc (k div 4)]"
  have "feed_crc (so_reports (Suc k)) (relay_room [] 0) =
      fold crc_step [crc_report 0 (Suc k mod 65536) 0x11 0x22, crc_report 1 (Suc k mod 65536) 0x11 0x22] (relay_room [] k, ?log k)"
    using Suc by (simp only: feed_crc_def so_reports_Suc fold_append comp_def)
  also have "\<dots> = (relay_room [] (k + 1), ?log k @ (if (k + 1) mod 4 = 0 then [Log_crc_ok (Suc k mod 65536) (k + 1)] else []))"
    by (rule crc_round_empty) simp
  also have "?log k @ (if (k + 1) mod 4 = 0 then [Log_crc_ok (Suc k mod 65536) (k + 1)] else []) = ?log (Suc k)"
  proof (cases "Suc k mod 4 = 0")
    case True
    then have "Suc k div 4 = Suc (k div 4)" "4 * Suc (k div 4) = Suc k" by presburger+
    then show ?thesis using True by (simp del: mult_Suc_right)
  next
    case False
    then have "Suc k div 4 = k div 4" by presburger
    then show ?thesis using False by simp
  qed
  finally show ?case by simp
qed

text \<open>
  C40 (the soak's load): whatever the clock readings, memory samples and lengths of the run, as
  long as its writes succeed the soak has given its two sockets the frames of ticks 1 to some
  \<open>k\<close>, each with the tick taken modulo 65536, in the relayed types and sizes of a match, so
  that a relay forwards them as two queues; and the checksums it sends agree in every round: the
  relay's comparator ends with an empty table and \<open>k\<close> agreed rounds, and logs every fourth
  one and no mismatch, also when the tick wraps around.
\<close>

theorem soak_load:
  assumes "so_start t0 = Inr x" "so_run args t0 rounds x = So_on y"
  shows "\<exists>k. so_tick y = k mod 65536 \<and>
    so_a y = so_a x @ from_other 1 (so_messages k) \<and> so_b y = so_b x @ from_other 0 (so_messages k) \<and>
    relayed 0 1 (so_messages k) \<and>
    feed_crc (so_reports k) (relay_room [] 0) =
      (relay_room [] k, map (\<lambda>i. Log_crc_ok (4 * i mod 65536) (4 * i)) [1..<Suc (k div 4)])"
proof -
  have "so_tick x = 0" using assms(1) by (auto simp: so_start_def split: sum.splits)
  then obtain k where "so_sent k x y" using so_run_sent[OF assms(2)] by blast
  moreover have "relayed 0 1 (so_messages k)"
    by (auto simp: relayed_def list_all_iff so_messages_def so_tick_messages_def so_writes_def so_payload_def
        S_INPUT_def S_CRC_def RELAY_TYPES_def T_INPUT_def T_CRC_def)
  ultimately show ?thesis using so_reports_agree by (auto simp: so_sent_def)
qed

definition soak_args_demo :: soak_args where
  "soak_args_demo = \<lparr>ka_secs = 120, ka_hz = 20, ka_sample_every = 5\<rparr>"

lemma so_write_keeps:
  "so_next_tick (fold so_write ws x) = so_next_tick x" "so_next_sample (fold so_write ws x) = so_next_sample x"
  "so_rss (fold so_write ws x) = so_rss x" "so_hwm (fold so_write ws x) = so_hwm x"
  by (induction ws arbitrary: x) (auto simp: so_write_def split: prod.split sum.split)

theorem soak_load_witness:
  "\<exists>x y k. so_start 0 = Inr x \<and>
     so_run soak_args_demo 0 [(0, 0, 4, Some [''VmRSS:  812 kB''], None), (1 / 50, 1 / 50, 4, None, None), (1 / 10, 1 / 10, 4, None, None)] x = So_on y \<and>
     so_rss y = [812] \<and> so_tick y = k mod 65536 \<and> so_a y = so_a x @ from_other 1 (so_messages k)"
proof -
  let ?rounds = "[(0, 0, 4, Some [''VmRSS:  812 kB''], None), (1 / 50, 1 / 50, 4, None, None), (1 / 10, 1 / 10, 4, None, None)]
    :: (time \<times> time \<times> nat \<times> string list option \<times> string list option) list"
  have rss: "vm_kb (Some [''VmRSS:  812 kB'']) ''VmRSS:'' = Inr 812" by code_simp
  obtain x where x: "so_start 0 = Inr x" "so_next_tick x = 0" "so_next_sample x = 0" "so_tick x = 0" "so_rss x = []"
    by (auto simp: so_start_def so_hello_def so_pad_def so_frame_def utf8_encode_def pad8_def)
  have "\<exists>y. so_run soak_args_demo 0 ?rounds x = So_on y \<and> so_rss y = [812]"
    using x(2-5) rss
    by (simp add: so_run_def so_round_def so_send_def so_sample_def Let_def soak_args_demo_def so_write_keeps vm_kb_def[of None])
  then obtain y where y: "so_run soak_args_demo 0 ?rounds x = So_on y" "so_rss y = [812]" by blast
  from soak_load[OF x(1) y(1)] x(1) y show ?thesis by blast
qed

section \<open>The echo\<close>

text \<open>Until the end or a failure, every received chunk is sent back, in order.\<close>

lemma echo_returns:
  assumes "echo_conn prev (map (\<lambda>(d, now). Echo_data d now True) rs) = (out, rounds, gaps)"
  shows "out = concat (map fst (takeWhile (\<lambda>(d, now). d \<noteq> []) rs))"
    and "rounds = length (takeWhile (\<lambda>(d, now). d \<noteq> []) rs)" and "length gaps = rounds"
proof -
  have "out = concat (map fst (takeWhile (\<lambda>(d, now). d \<noteq> []) rs)) \<and>
      rounds = length (takeWhile (\<lambda>(d, now). d \<noteq> []) rs) \<and> length gaps = rounds"
    using assms by (induction rs arbitrary: prev out rounds gaps) (auto split: if_splits prod.splits)
  then show "out = concat (map fst (takeWhile (\<lambda>(d, now). d \<noteq> []) rs))"
    "rounds = length (takeWhile (\<lambda>(d, now). d \<noteq> []) rs)" "length gaps = rounds" by simp_all
qed

end
