(* ===== verification/Gate_Script.thy ===== *)
theory Gate_Script
  imports Client_Sim
begin

text \<open>
  The scenarios of tools/bbnet_client_sim.py as lists of steps, and the interpreter that runs
  them on simulated consoles.  A connection's \<open>recv\<close> results are given per client name; a failed
  \<open>recv\<close> is a reset connection.  The server process, printing and the pauses are left out; what
  the server logged is a parameter.
\<close>

section \<open>Checks of payloads\<close>

type_synonym check = "byte list \<Rightarrow> exn + bool"

definition chk_any :: check where "chk_any p = Inr True"

text \<open>\<open>and\<close>, which does not evaluate its second operand when the first is false.\<close>

definition chk_and :: "check \<Rightarrow> check \<Rightarrow> check" where
  "chk_and a b p = (case a p of Inl e \<Rightarrow> Inl e | Inr r \<Rightarrow> if r then b p else Inr False)"

definition chk_byte :: "nat \<Rightarrow> nat \<Rightarrow> check" where
  "chk_byte i v p = (if i < length p then Inr (unat (p ! i) = v) else Inl IndexError)"

definition chk_least :: "nat \<Rightarrow> nat \<Rightarrow> check" where
  "chk_least i v p = (if i < length p then Inr (unat (p ! i) \<ge> v) else Inl IndexError)"

definition chk_len :: "nat \<Rightarrow> check" where "chk_len n p = Inr (length p = n)"

definition chk_is :: "byte list \<Rightarrow> check" where "chk_is v p = Inr (p = v)"

text \<open>\<open>roster_names(p[lo:lo + 32])[:len(names)] == names\<close>\<close>

definition chk_roster :: "nat \<Rightarrow> string list \<Rightarrow> check" where
  "chk_roster lo names p =
     (case roster_names (take 32 (List.drop lo p)) of
        Inl e \<Rightarrow> Inl e
      | Inr ns \<Rightarrow> Inr (take (length names) ns = map codepoints names))"

definition chk_status :: "string \<Rightarrow> nat \<Rightarrow> check" where
  "chk_status name v p =
     (case lobby_status p (codepoints name) of
        Inl e \<Rightarrow> Inl e
      | Inr None \<Rightarrow> Inr False
      | Inr (Some b) \<Rightarrow> Inr (unat b = v))"

text \<open>With the status in the message as \<open>{status:#x}\<close>, which raises for a missing player.\<close>

definition chk_status_hex :: "string \<Rightarrow> nat \<Rightarrow> check" where
  "chk_status_hex name v p =
     (case lobby_status p (codepoints name) of
        Inl e \<Rightarrow> Inl e
      | Inr None \<Rightarrow> Inl TypeError
      | Inr (Some b) \<Rightarrow> Inr (unat b = v))"

definition chk_left :: "nat \<Rightarrow> string \<Rightarrow> check" where
  "chk_left sn name = chk_and (chk_byte 0 sn) (\<lambda>p. Inr (rstrip {0} (take 8 (List.drop 1 p)) = utf8_encode name))"

section \<open>Steps\<close>

datatype gstep =
    G_open string int
  | G_send string string "byte list"
  | G_expect string string check
  | G_start string check
  | G_same_seed
  | G_poll string check
  | G_refused string
  | G_silent string
  | G_until_start string check
  | G_starts string string "byte list \<Rightarrow> byte list \<Rightarrow> exn + bool"
  | G_close string

record gate =
  gt_cli :: "(string \<times> cli) list"
  gt_seeds :: "(byte \<times> byte) list"

definition cli_close :: "cli \<Rightarrow> (exn + unit) \<times> cli" where
  "cli_close c = (Inr (), c\<lparr>cli_up := False\<rparr>)"

definition on_cli :: "string \<Rightarrow> (cli \<Rightarrow> (exn + 'a) \<times> cli) \<Rightarrow> gate \<Rightarrow> exn + 'a \<times> gate" where
  "on_cli n f g =
     (case map_of (gt_cli g) n of
        None \<Rightarrow> Inl KeyError
      | Some c \<Rightarrow>
          (case f c of
             (Inl e, c') \<Rightarrow> Inl e
           | (Inr r, c') \<Rightarrow> Inr (r, g\<lparr>gt_cli := AList.update n c' (gt_cli g)\<rparr>)))"

definition assert_that :: "exn + bool \<Rightarrow> 'a \<Rightarrow> exn + 'a" where
  "assert_that r x = (case r of Inl e \<Rightarrow> Inl e | Inr ok \<Rightarrow> if ok then Inr x else Inl AssertionError)"

definition send_typed :: "string \<Rightarrow> byte list \<Rightarrow> cli \<Rightarrow> (exn + unit) \<times> cli" where
  "send_typed t p c =
     (case sim_T t of
        None \<Rightarrow> (Inl KeyError, c)
      | Some b \<Rightarrow> (case peer_frame b p of Inl e \<Rightarrow> (Inl e, c) | Inr data \<Rightarrow> cli_send data c))"

text \<open>\<open>try: recv_frame(..); raise AssertionError; except (EOFError, ConnectionResetError, timeout): pass\<close>\<close>

definition refused :: "cli \<Rightarrow> (exn + unit) \<times> cli" where
  "refused c =
     (case recv_frame c of
        (Inr _, c1) \<Rightarrow> (Inl AssertionError, c1)
      | (Inl e, c1) \<Rightarrow> (if e \<in> {EOFError, OSError, TimeoutError} then Inr () else Inl e, c1))"

text \<open>The loop that skips frames until START.\<close>

function until_start :: "byte list \<Rightarrow> sock_recv list \<Rightarrow> (exn + byte list) \<times> byte list \<times> sock_recv list" where
  "until_start buf script =
     (case recv_loop buf script of
        (Inl e, buf1, script1) \<Rightarrow> (Inl e, buf1, script1)
      | (Inr (t, p), buf1, script1) \<Rightarrow>
          if sim_T ''START'' = Some t then (Inr p, buf1, script1) else until_start buf1 script1)"
  by pat_completeness auto
termination
  by (relation "measure (\<lambda>(buf, script). pending buf script)") (auto intro: recv_loop_pending[OF sym])

definition skip_to_start :: "cli \<Rightarrow> (exn + byte list) \<times> cli" where
  "skip_to_start c =
     (case until_start (cli_buf c) (cli_in c) of (r, buf, script) \<Rightarrow> (r, c\<lparr>cli_buf := buf, cli_in := script\<rparr>))"

text \<open>\<open>net n\<close> is what the connection of the client \<open>n\<close> will deliver.\<close>

fun gstep_run :: "(string \<Rightarrow> sock_recv list) \<Rightarrow> gstep \<Rightarrow> gate \<Rightarrow> exn + gate" where
  "gstep_run net (G_open n ver) g =
     (case Cli_init n ver (net n) of
        Inl e \<Rightarrow> Inl e
      | Inr c \<Rightarrow> Inr (g\<lparr>gt_cli := AList.update n c (gt_cli g)\<rparr>))"
| "gstep_run net (G_send n t p) g =
     (case on_cli n (send_typed t p) g of Inl e \<Rightarrow> Inl e | Inr (_, g1) \<Rightarrow> Inr g1)"
| "gstep_run net (G_expect n t chk) g =
     (case on_cli n (expect t) g of Inl e \<Rightarrow> Inl e | Inr (p, g1) \<Rightarrow> assert_that (chk p) g1)"
| "gstep_run net (G_start n chk) g =
     (case on_cli n (expect ''START'') g of
        Inl e \<Rightarrow> Inl e
      | Inr (p, g1) \<Rightarrow> assert_that (chk p) (g1\<lparr>gt_seeds := gt_seeds g1 @ [(p ! 2, p ! 3)]\<rparr>))"
| "gstep_run net G_same_seed g = assert_that (Inr (length (remdups (gt_seeds g)) = 1)) g"
| "gstep_run net (G_poll n chk) g =
     (case on_cli n lobby g of Inl e \<Rightarrow> Inl e | Inr (p, g1) \<Rightarrow> assert_that (chk p) g1)"
| "gstep_run net (G_refused n) g = (case on_cli n refused g of Inl e \<Rightarrow> Inl e | Inr (_, g1) \<Rightarrow> Inr g1)"
| "gstep_run net (G_silent n) g = (case on_cli n expect_silence g of Inl e \<Rightarrow> Inl e | Inr (_, g1) \<Rightarrow> Inr g1)"
| "gstep_run net (G_until_start n chk) g =
     (case on_cli n skip_to_start g of Inl e \<Rightarrow> Inl e | Inr (p, g1) \<Rightarrow> assert_that (chk p) g1)"
| "gstep_run net (G_starts m n chk) g =
     (case on_cli m (expect ''START'') g of
        Inl e \<Rightarrow> Inl e
      | Inr (pa, g1) \<Rightarrow>
          (case on_cli n (expect ''START'') g1 of Inl e \<Rightarrow> Inl e | Inr (pb, g2) \<Rightarrow> assert_that (chk pa pb) g2))"
| "gstep_run net (G_close n) g = (case on_cli n cli_close g of Inl e \<Rightarrow> Inl e | Inr (_, g1) \<Rightarrow> Inr g1)"

fun gate_run :: "(string \<Rightarrow> sock_recv list) \<Rightarrow> gstep list \<Rightarrow> gate \<Rightarrow> exn + gate" where
  "gate_run net [] g = Inr g"
| "gate_run net (x # xs) g = (case gstep_run net x g of Inl e \<Rightarrow> Inl e | Inr g1 \<Rightarrow> gate_run net xs g1)"

section \<open>The scenarios\<close>

definition ROOM_NAMES :: "string list" where
  "ROOM_NAMES = [''ALICE'', ''BOB'', ''CAROL'', ''DAVE'']"

text \<open>\<open>p[0] == n\<close> and the first names of the roster behind it.\<close>

definition chk_room :: "string list \<Rightarrow> check" where
  "chk_room names = chk_and (chk_byte 0 (length names)) (chk_roster 1 names)"

definition join_name :: "string \<Rightarrow> string \<Rightarrow> gstep" where
  "join_name n target = G_send n ''JOIN'' (sim_pad target)"

definition crc_send :: "string \<Rightarrow> nat \<Rightarrow> nat \<Rightarrow> nat \<Rightarrow> gstep" where
  "crc_send n sn tick val =
     G_send n ''CRC'' (map word_of_nat [sn, tick AND 0xFF, drop_bit 8 tick, val AND 0xFF, drop_bit 8 val])"

definition others_crcs :: "nat \<Rightarrow> string list \<Rightarrow> gstep list" where
  "others_crcs SEATS names = concat (map (\<lambda>n. replicate (SEATS - 1) (G_expect n ''CRC'' chk_any)) names)"

text \<open>Steps 1 to 3: the lobby, joins, and occupancy.\<close>

definition main_joins :: "nat \<Rightarrow> gstep list" where
  "main_joins SEATS =
     (let names = take SEATS ROOM_NAMES in
      [G_open ''ALICE'' 2, G_expect ''ALICE'' ''LOBBY'' (chk_byte 0 0),
       G_open ''OLDGUY'' 1, G_refused ''OLDGUY'', G_close ''OLDGUY''] @
      map (\<lambda>n. G_open n 2) (tl names) @ map (\<lambda>n. G_expect n ''LOBBY'' chk_any) (tl names) @
      [G_open ''EVE'' 2, G_expect ''EVE'' ''LOBBY'' chk_any,
       G_poll ''EVE'' (chk_status ''ALICE'' (st SEATS 1)), join_name ''BOB'' ''ALICE''] @
      map (\<lambda>n. G_expect n ''ROOM'' (chk_room (take 2 names))) (take 2 names) @
      [G_poll ''EVE'' (chk_status ''ALICE'' (st SEATS 2)), G_poll ''EVE'' (chk_status ''BOB'' (st SEATS 2))] @
      (if SEATS \<ge> 3
       then join_name (names ! 2) ''BOB'' # map (\<lambda>n. G_expect n ''ROOM'' (chk_room (take 3 names))) (take 3 names)
       else []) @
      concat (map (\<lambda>i. join_name (names ! i) ''ALICE'' #
          map (\<lambda>n. G_expect n ''ROOM'' (chk_byte 0 (i + 1))) (take (i + 1) names)) [3..<SEATS]))"

text \<open>Steps 4 to 7: capacity, GO, relaying, checksums.\<close>

definition main_match :: "nat \<Rightarrow> gstep list" where
  "main_match SEATS =
     (let names = take SEATS ROOM_NAMES; full = 0x80 OR SEATS; inp = [0, 5, 0, 0x44, 0]; stt = [0, 0xFF, 9, 0] in
      [G_poll ''EVE'' (chk_status_hex ''ALICE'' full), join_name ''EVE'' ''ALICE'', G_expect ''EVE'' ''LOBBY'' chk_any,
       G_send ''BOB'' ''GO'' [], G_send ''ALICE'' ''GO'' []] @
      map (\<lambda>(i, n). G_start n (chk_and (chk_len 37) (chk_and (chk_byte 0 i) (chk_and (chk_byte 1 SEATS)
             (chk_and (chk_least 4 1) (chk_roster 5 names)))))) (List.enumerate 0 names) @
      [G_same_seed, G_poll ''EVE'' (chk_status_hex ''ALICE'' full),
       join_name ''EVE'' ''ALICE'', G_expect ''EVE'' ''LOBBY'' chk_any,
       G_send ''ALICE'' ''INPUT'' inp] @
      map (\<lambda>n. G_expect n ''INPUT'' (chk_is inp)) (tl names) @ [G_silent ''ALICE'', G_send ''ALICE'' ''STATE'' stt] @
      map (\<lambda>n. G_expect n ''STATE'' (chk_is stt)) (tl names) @
      concat (map (\<lambda>rnd. map (\<lambda>(i, n). crc_send n i (64 * (rnd + 1)) 0xBEEF) (List.enumerate 0 names) @
          others_crcs SEATS names) [0..<4]) @
      map (\<lambda>(i, n). crc_send n i 320 (if i = 1 then 0x2222 else 0x1111)) (List.enumerate 0 names) @ others_crcs SEATS names)"

text \<open>Steps 8 to 10: players leave.\<close>

definition main_leaves :: "nat \<Rightarrow> gstep list" where
  "main_leaves SEATS =
     (let names = take SEATS ROOM_NAMES; rest = List.drop 2 names in
      [G_close ''BOB''] @ map (\<lambda>n. G_expect n ''PEER_LEFT'' (chk_left 1 ''BOB'')) (''ALICE'' # rest) @
      [G_poll ''EVE'' (chk_status ''ALICE'' 1)] @ map (\<lambda>n. G_poll ''EVE'' (chk_status n 1)) rest @
      [G_close ''EVE''] @ map G_close rest @
      [G_open ''GUESTA'' 2, G_expect ''GUESTA'' ''LOBBY'' chk_any, join_name ''GUESTA'' ''ALICE'',
       G_expect ''ALICE'' ''ROOM'' chk_any, G_expect ''GUESTA'' ''ROOM'' chk_any] @
      (if SEATS \<ge> 3
       then [G_open ''GUESTB'' 2, G_expect ''GUESTB'' ''LOBBY'' chk_any, join_name ''GUESTB'' ''ALICE''] @
            map (\<lambda>n. G_expect n ''ROOM'' chk_any) [''ALICE'', ''GUESTA'', ''GUESTB''] @
            [G_close ''GUESTA'', G_expect ''ALICE'' ''ROOM'' (chk_room [''ALICE'', ''GUESTB'']),
             G_expect ''GUESTB'' ''ROOM'' chk_any]
       else [G_close ''GUESTA'', G_expect ''ALICE'' ''ROOM'' (chk_byte 0 0),
             G_open ''GUESTC'' 2, G_expect ''GUESTC'' ''LOBBY'' chk_any, join_name ''GUESTC'' ''ALICE'',
             G_expect ''ALICE'' ''ROOM'' chk_any, G_expect ''GUESTC'' ''ROOM'' chk_any]) @
      (let tail = (if SEATS \<ge> 3 then ''GUESTB'' else ''GUESTC'')
       in [G_close ''ALICE'', G_expect tail ''ROOM'' (chk_byte 0 0), G_close tail]))"

definition empty_gate :: gate where
  "empty_gate = \<lparr>gt_cli = [], gt_seeds = []\<rparr>"

definition contains :: "string \<Rightarrow> string \<Rightarrow> bool" where
  "contains s w \<longleftrightarrow> list_ex (\<lambda>i. take (length w) (List.drop i s) = w) [0..<Suc (length s)]"

text \<open>The \<open>finally\<close> block looks at the server's log; its failure replaces an earlier one.\<close>

definition scenario_main :: "(string \<Rightarrow> sock_recv list) \<Rightarrow> nat \<Rightarrow> string \<Rightarrow> exn + gate" where
  "scenario_main net SEATS out =
     (let r = gate_run net (main_joins SEATS @ main_match SEATS @ main_leaves SEATS) empty_gate
      in if list_all (contains out) [''match: room'', ''CRC MISMATCH tick 320'', ''(4 rounds)'', ''peer left'']
         then r else Inl AssertionError)"

definition chk_autogo :: "byte list \<Rightarrow> byte list \<Rightarrow> exn + bool" where
  "chk_autogo pa pb =
     (if pa = [] then Inl IndexError
      else if pa ! 0 \<noteq> 0 then Inr False
      else if pb = [] then Inl IndexError
      else if pb ! 0 \<noteq> 1 then Inr False
      else if length pa < 2 \<or> length pb < 2 then Inl IndexError
      else Inr (pa ! 1 = pb ! 1 \<and> pb ! 1 = 2))"

definition autogo_steps :: "gstep list" where
  "autogo_steps =
     [G_open ''EVE'' 2, G_expect ''EVE'' ''LOBBY'' chk_any, G_open ''FRANK'' 2, G_expect ''FRANK'' ''LOBBY'' chk_any,
      join_name ''FRANK'' ''EVE'', G_expect ''EVE'' ''ROOM'' chk_any, G_expect ''FRANK'' ''ROOM'' chk_any,
      G_starts ''EVE'' ''FRANK'' chk_autogo, G_close ''EVE'', G_close ''FRANK'']"

definition scenario_autogo :: "(string \<Rightarrow> sock_recv list) \<Rightarrow> exn + gate" where
  "scenario_autogo net = gate_run net autogo_steps empty_gate"

text \<open>\<open>f"P{i + 1}{chr(ord('A') + i) * 2}"\<close>, for the at most four players of a run.\<close>

definition full_name :: "nat \<Rightarrow> string" where
  "full_name i = [CHR ''P'', char_of (49 + i), char_of (65 + i), char_of (65 + i)]"

definition full_steps :: "nat \<Rightarrow> gstep list" where
  "full_steps SEATS =
     (let names = map full_name [0..<SEATS]; sender = SEATS - 1; msg = [word_of_nat sender, 7, 0, 0x40, 0] in
      map (\<lambda>n. G_open n 2) names @ map (\<lambda>n. G_expect n ''LOBBY'' chk_any) names @
      map (\<lambda>n. join_name n (names ! 0)) (tl names) @
      map (\<lambda>(i, n). G_until_start n (chk_and (chk_byte 0 i) (chk_and (chk_byte 1 SEATS) (chk_roster 5 names))))
        (List.enumerate 0 names) @
      [G_open ''PZZZ'' 2, G_expect ''PZZZ'' ''LOBBY'' chk_any, join_name ''PZZZ'' (names ! 0), G_expect ''PZZZ'' ''LOBBY'' chk_any,
       G_send (names ! sender) ''INPUT'' msg] @
      map (\<lambda>n. G_expect n ''INPUT'' (chk_is msg)) (take sender names) @
      [G_silent (names ! sender)] @ map G_close (names @ [''PZZZ'']))"

definition scenario_full :: "(string \<Rightarrow> sock_recv list) \<Rightarrow> nat \<Rightarrow> exn + gate" where
  "scenario_full net SEATS = gate_run net (full_steps SEATS) empty_gate"

datatype gate_exit = Bad_seats | Needs_c_server | Bad_server | Gate_failed exn | Gate_pass

definition gate_main :: "nat \<Rightarrow> string \<Rightarrow> (string \<Rightarrow> sock_recv list) \<Rightarrow> string \<Rightarrow> (string \<Rightarrow> sock_recv list)
    \<Rightarrow> (string \<Rightarrow> sock_recv list) \<Rightarrow> gate_exit" where
  "gate_main SEATS server_kind net1 out net2 net3 =
     (if \<not> (2 \<le> SEATS \<and> SEATS \<le> 4) then Bad_seats
      else if SEATS \<noteq> 2 \<and> server_kind \<noteq> ''c'' then Needs_c_server
      else if server_kind \<notin> {''py'', ''c''} then Bad_server
      else case scenario_main net1 SEATS out of
        Inl e \<Rightarrow> Gate_failed e
      | Inr _ \<Rightarrow> (case scenario_autogo net2 of
          Inl e \<Rightarrow> Gate_failed e
        | Inr _ \<Rightarrow> (case scenario_full net3 SEATS of Inl e \<Rightarrow> Gate_failed e | Inr _ \<Rightarrow> Gate_pass)))"

end
