(* ===== verification/Gate_Relay.thy ===== *)
theory Gate_Relay
  imports Relay_Session Gate_Script
begin

text \<open>
  The protocol gate against the modelled relay: what the consoles of a scenario must read for it
  to pass, and that the relay puts exactly this into their streams.
\<close>

section \<open>A console with messages to read\<close>

definition feeds :: "(byte \<times> byte list) list \<Rightarrow> cli \<Rightarrow> bool" where
  "feeds ms c \<longleftrightarrow> cli_up c \<and>
     (\<exists>ds. cli_in c = map Got ds \<and> whole ds \<and> cli_buf c @ concat ds = concat (map encode_msg ms))"

lemma feeds_expect:
  assumes "feeds ((t, p) # ms) c" "length p < 255" "sim_T ftype = Some t"
  shows "\<exists>c1. expect ftype c = (Inr p, c1) \<and> feeds ms c1 \<and> cli_out c1 = cli_out c"
proof -
  obtain ds where ds: "cli_up c" "cli_in c = map Got ds" "whole ds" "cli_buf c @ concat ds = encode_msg (t, p) @ concat (map encode_msg ms)"
    using assms(1) by (auto simp: feeds_def)
  obtain buf' ds' where "recv_loop (cli_buf c) (map Got ds @ []) = (Inr (t, p), buf', map Got ds' @ [])"
      "buf' @ concat ds' = concat (map encode_msg ms)" "whole ds'"
    using recv_loop_frame[of "(t, p)" ds "cli_buf c" _ "[]"] assms(2) ds(3,4) by auto
  then show ?thesis using ds(1,2) assms(3) by (auto simp: expect_def recv_frame_def feeds_def)
qed

lemma on_cli_expect:
  assumes "map_of (gt_cli g) n = Some c" "feeds ((t, p) # ms) c" "length p < 255" "sim_T ftype = Some t"
  shows "\<exists>c1. on_cli n (expect ftype) g = Inr (p, g\<lparr>gt_cli := AList.update n c1 (gt_cli g)\<rparr>) \<and> feeds ms c1 \<and> cli_out c1 = cli_out c"
  using feeds_expect[OF assms(2-4)] assms(1) by (auto simp: on_cli_def)

lemma feeds_init:
  assumes "script = map Got ds" "whole ds" "concat ds = concat (map encode_msg ms)" "length (utf8_encode n) < 254"
  shows "\<exists>c. Cli_init n 2 script = Inr c \<and> feeds ms c \<and> cli_out c = encode_msg (T_HELLO, 2 # utf8_encode n)"
  using assms by (auto simp: Cli_init_def sim_T_def peer_frame_ok cli_send_def feeds_def T_HELLO_def)

lemma send_feeds:
  assumes "map_of (gt_cli g) n = Some c" "feeds ms c" "sim_T t = Some b" "length p < 255"
  shows "\<exists>c1. gstep_run net (G_send n t p) g = Inr (g\<lparr>gt_cli := AList.update n c1 (gt_cli g)\<rparr>) \<and> feeds ms c1 \<and>
    cli_out c1 = cli_out c @ encode_msg (b, p)"
  using assms by (intro exI[of _ "c\<lparr>cli_out := cli_out c @ encode_msg (b, p)\<rparr>"])
    (auto simp: on_cli_def send_typed_def peer_frame_ok cli_send_def feeds_def)

lemma sim_types:
  "sim_T ''LOBBY'' = Some T_LOBBY" "sim_T ''ROOM'' = Some T_ROOM" "sim_T ''START'' = Some T_START" "sim_T ''JOIN'' = Some T_JOIN"
  by (simp_all add: sim_T_def T_LOBBY_def T_ROOM_def T_START_def T_JOIN_def)

text \<open>The automatic start: what the two consoles must read for the scenario to pass.\<close>

lemma autogo_passes:
  assumes "net ''EVE'' = map Got ds" "whole ds" "concat ds = concat (map encode_msg [(T_LOBBY, l), (T_ROOM, q), (T_START, sa)])"
    and "net ''FRANK'' = map Got ds'" "whole ds'" "concat ds' = concat (map encode_msg [(T_LOBBY, l'), (T_ROOM, q'), (T_START, sb)])"
    and "list_all (\<lambda>p. length p < 255) [l, q, sa, l', q', sb]" "chk_autogo sa sb = Inr True"
  shows "\<exists>g ce cf. scenario_autogo net = Inr g \<and> map_of (gt_cli g) ''EVE'' = Some ce \<and> map_of (gt_cli g) ''FRANK'' = Some cf \<and>
    cli_out ce = encode_msg (T_HELLO, 2 # utf8_encode ''EVE'') \<and>
    cli_out cf = encode_msg (T_HELLO, 2 # utf8_encode ''FRANK'') @ encode_msg (T_JOIN, sim_pad ''EVE'')"
proof -
  let ?g = "\<lambda>ce cf. \<lparr>gt_cli = [(''EVE'', ce), (''FRANK'', cf)], gt_seeds = []\<rparr>"
  have short: "length (utf8_encode ''EVE'') < 254" "length (utf8_encode ''FRANK'') < 254" "length (sim_pad ''EVE'') < 255"
    by (simp_all add: utf8_encode_def sim_pad_def pad8_def)
  obtain e0 where e0: "Cli_init ''EVE'' 2 (net ''EVE'') = Inr e0" "feeds [(T_LOBBY, l), (T_ROOM, q), (T_START, sa)] e0"
      "cli_out e0 = encode_msg (T_HELLO, 2 # utf8_encode ''EVE'')"
    using feeds_init[OF assms(1-3) short(1)] by blast
  obtain f0 where f0: "Cli_init ''FRANK'' 2 (net ''FRANK'') = Inr f0" "feeds [(T_LOBBY, l'), (T_ROOM, q'), (T_START, sb)] f0"
      "cli_out f0 = encode_msg (T_HELLO, 2 # utf8_encode ''FRANK'')"
    using feeds_init[OF assms(4-6) short(2)] by blast
  have len: "length l < 255" "length q < 255" "length sa < 255" "length l' < 255" "length q' < 255" "length sb < 255"
    using assms(7) by simp_all
  obtain e1 where e1: "on_cli ''EVE'' (expect ''LOBBY'') \<lparr>gt_cli = [(''EVE'', e0)], gt_seeds = []\<rparr> =
      Inr (l, \<lparr>gt_cli = [(''EVE'', e1)], gt_seeds = []\<rparr>)" "feeds [(T_ROOM, q), (T_START, sa)] e1" "cli_out e1 = cli_out e0"
    using on_cli_expect[OF _ e0(2) len(1) sim_types(1), of "\<lparr>gt_cli = [(''EVE'', e0)], gt_seeds = []\<rparr>" "''EVE''"] by auto
  obtain f1 where f1: "on_cli ''FRANK'' (expect ''LOBBY'') (?g e1 f0) = Inr (l', ?g e1 f1)"
      "feeds [(T_ROOM, q'), (T_START, sb)] f1" "cli_out f1 = cli_out f0"
    using on_cli_expect[OF _ f0(2) len(4) sim_types(1), of "?g e1 f0" "''FRANK''"] by auto
  obtain f2 where f2: "gstep_run net (join_name ''FRANK'' ''EVE'') (?g e1 f1) = Inr (?g e1 f2)"
      "feeds [(T_ROOM, q'), (T_START, sb)] f2" "cli_out f2 = cli_out f1 @ encode_msg (T_JOIN, sim_pad ''EVE'')"
    using send_feeds[OF _ f1(2) sim_types(4) short(3), of "?g e1 f1" "''FRANK''" net] unfolding join_name_def by auto
  obtain e2 where e2: "on_cli ''EVE'' (expect ''ROOM'') (?g e1 f2) = Inr (q, ?g e2 f2)"
      "feeds [(T_START, sa)] e2" "cli_out e2 = cli_out e1"
    using on_cli_expect[OF _ e1(2) len(2) sim_types(2), of "?g e1 f2" "''EVE''"] by auto
  obtain f3 where f3: "on_cli ''FRANK'' (expect ''ROOM'') (?g e2 f2) = Inr (q', ?g e2 f3)"
      "feeds [(T_START, sb)] f3" "cli_out f3 = cli_out f2"
    using on_cli_expect[OF _ f2(2) len(5) sim_types(2), of "?g e2 f2" "''FRANK''"] by auto
  obtain e3 where e3: "on_cli ''EVE'' (expect ''START'') (?g e2 f3) = Inr (sa, ?g e3 f3)" "cli_out e3 = cli_out e2"
    using on_cli_expect[OF _ e2(2) len(3) sim_types(3), of "?g e2 f3" "''EVE''"] by auto
  obtain f4 where f4: "on_cli ''FRANK'' (expect ''START'') (?g e3 f3) = Inr (sb, ?g e3 f4)" "cli_out f4 = cli_out f3"
    using on_cli_expect[OF _ f3(2) len(6) sim_types(3), of "?g e3 f3" "''FRANK''"] by auto
  have "scenario_autogo net = Inr (?g (e3\<lparr>cli_up := False\<rparr>) (f4\<lparr>cli_up := False\<rparr>))"
    unfolding scenario_autogo_def autogo_steps_def empty_gate_def
    using e0(1) f0(1) e1(1) f1(1) f2(1) e2(1) f3(1) e3(1) f4(1) assms(8)
    by (simp add: chk_any_def assert_that_def on_cli_def[of _ cli_close] cli_close_def)
  then show ?thesis using e0(3) f0(3) e1(3) f1(3) f2(3) e2(3) f3(3) e3(2) f4(2) by auto
qed


section \<open>The relay passes\<close>

lemma start_payload: "length (snd (start_notice s a b sd i)) = 37" "snd (start_notice s a b sd i) ! 0 = word_of_nat i"
  "snd (start_notice s a b sd i) ! 1 = 2"
  by (simp_all add: start_notice_def)

text \<open>
  Remark (the relay passes the automatic-start scenario): when two clients have connected, their
  sockets accept data and \<open>--auto-go 2\<close> is set, the relay serves the HELLO of EVE, the HELLO of
  FRANK and FRANK's JOIN, and the scenario passes on what it then has put into the two streams,
  however TCP cuts these into segments; and what the scenario's consoles send are those three
  frames.
\<close>

theorem relay_passes_autogo:
  assumes "server_inv s" "healthy s" "sv_auto_go s = 2" "e \<noteq> f"
    and "map_of (sv_by_name s) ''EVE'' = None" "map_of (sv_by_name s) ''FRANK'' = None"
    and "idle (83 + 74) None e s" "idle (83 + 74) None f s" "stream s e = []" "stream s f = []"
  shows "\<exists>t. play [(e, T_HELLO, 2 # utf8_encode ''EVE''), (f, T_HELLO, 2 # utf8_encode ''FRANK''), (f, T_JOIN, sim_pad ''EVE'')] s = Ok t \<and>
    (\<forall>net de df. net ''EVE'' = map Got de \<and> whole de \<and> concat de = stream t e \<and>
        net ''FRANK'' = map Got df \<and> whole df \<and> concat df = stream t f \<longrightarrow>
      (\<exists>g ce cf. scenario_autogo net = Inr g \<and> map_of (gt_cli g) ''EVE'' = Some ce \<and> map_of (gt_cli g) ''FRANK'' = Some cf \<and>
        cli_out ce = encode_msg (T_HELLO, 2 # utf8_encode ''EVE'') \<and>
        cli_out cf = encode_msg (T_HELLO, 2 # utf8_encode ''FRANK'') @ encode_msg (T_JOIN, sim_pad ''EVE'')))"
proof -
  have valid: "valid_name ''EVE''" "valid_name ''FRANK''" by (code_simp, code_simp)
  have utf8: "utf8_encode n = map byte_of_char n" if "valid_name n" for n
    using valid_name_ascii[OF that] by (rule utf8_encode_ascii)
  note enc = utf8[OF valid(1)] utf8[OF valid(2)]
  have i: "idle (74 + 83) None e s" using assms(7) by (simp add: add_ac)
  from hello_step[OF assms(1,2) i valid(1) assms(5)] obtain s1 where s1:
      "handle e T_HELLO (2 # utf8_encode ''EVE'') s = Ok s1" "server_inv s1" "healthy s1" "idle 74 (Some ''EVE'') e s1"
      "sv_by_name s1 = sv_by_name s @ [(''EVE'', e)]" "sv_auto_go s1 = sv_auto_go s" "sv_next_cid s1 = sv_next_cid s"
      "\<forall>d. d \<noteq> e \<longrightarrow> client_of s1 d = client_of s d"
      "stream s1 e = stream s e @ encode_msg (T_LOBBY, lobby_payload_of e s)"
    unfolding enc by blast
  have i1: "idle (74 + 83) None f s1" and m1: "map_of (sv_by_name s1) ''FRANK'' = None"
    using assms(4,6,8) s1(5,7,8) by (simp_all add: idle_def map_add_def add_ac)
  from hello_step[OF s1(2,3) i1 valid(2) m1] obtain s2 where s2:
      "handle f T_HELLO (2 # utf8_encode ''FRANK'') s1 = Ok s2" "server_inv s2" "healthy s2" "idle 74 (Some ''FRANK'') f s2"
      "sv_by_name s2 = sv_by_name s1 @ [(''FRANK'', f)]" "sv_auto_go s2 = sv_auto_go s1" "sv_next_cid s2 = sv_next_cid s1"
      "\<forall>d. d \<noteq> f \<longrightarrow> client_of s2 d = client_of s1 d"
      "stream s2 f = stream s1 f @ encode_msg (T_LOBBY, lobby_payload_of f s1)"
    unfolding enc by blast
  have ie: "idle 74 (Some ''EVE'') e s2" using s1(4) s2(7,8) assms(4) by (simp add: idle_def)
  have se: "stream s2 e = stream s1 e" "stream s1 f = stream s f"
    using s1(8) s2(8) assms(4) by (simp_all add: stream_def)
  have "wire_name (sim_pad ''EVE'') = ''EVE''" unfolding sim_pad_def enc(1) by (rule wire_name_pad8[OF valid(1)])
  then have dir: "map_of (sv_by_name s2) (wire_name (sim_pad ''EVE'')) = Some e"
    using assms(5) by (simp add: s1(5) s2(5) map_add_def)
  have both: "\<forall>x \<in> {e, f}. cl_room (client_of s2 x) = None \<and> \<not> cl_dead (client_of s2 x) \<and>
      length (cl_tx (client_of s2 x)) + 35 + (0 + 39) \<le> MAX_TX_BACKLOG"
    using ie s2(4) by (auto simp: idle_def)
  have fc: "f < sv_next_cid s2" "cl_name (client_of s2 f) \<noteq> None" using s2(4) by (simp_all add: idle_def)
  from join_broadcast[OF s2(2,3) fc dir assms(4) both] s1(6) s2(6) assms(3) obtain s3 where s3:
      "handle f T_JOIN (sim_pad ''EVE'') s2 = start_room (sv_next_rid s2) s3"
      "seated False (0 + 39) (sv_next_rid s2) e f s3"
      "\<forall>d. stream s3 d = stream s2 d @ (if d \<in> {e, f} then encode_msg (room_notice s2 e f) else [])" by auto
  from start_step[OF s3(2)] obtain t sd where t: "start_room (sv_next_rid s2) s3 = Ok t"
      "stream t e = stream s3 e @ encode_msg (start_notice s3 e f sd 0)"
      "stream t f = stream s3 f @ encode_msg (start_notice s3 e f sd 1)" by blast
  let ?l = "lobby_payload_of e s" and ?l' = "lobby_payload_of f s1" and ?q = "snd (room_notice s2 e f)"
    and ?s = "\<lambda>i. snd (start_notice s3 e f sd i)"
  have rn: "room_notice s2 e f = (T_ROOM, ?q)" "start_notice s3 e f sd i = (T_START, ?s i)" for i
    by (simp_all add: room_notice_def start_notice_def)
  have ste: "stream t e = concat (map encode_msg [(T_LOBBY, ?l), (T_ROOM, ?q), (T_START, ?s 0)])"
    using t(2) s3(3) se(1) s1(9) assms(9) rn by simp
  have stf: "stream t f = concat (map encode_msg [(T_LOBBY, ?l'), (T_ROOM, ?q), (T_START, ?s 1)])"
    using t(3) s3(3) se(2) s2(9) assms(10) rn by simp
  have len: "list_all (\<lambda>p. length p < 255) [?l, ?q, ?s 0, ?l', ?q, ?s 1]"
    using lobby_others_le[of e s] lobby_others_le[of f s1] by (simp add: length_lobby_payload room_notice_def start_payload)
  have chk: "chk_autogo (?s 0) (?s 1) = Inr True"
    using start_payload(1)[of s3 e f sd 0] start_payload(1)[of s3 e f sd 1]
    by (auto simp: chk_autogo_def start_payload(2,3) simp del: One_nat_def)
  show ?thesis
  proof (rule exI[of _ t], intro conjI allI impI)
    show "play [(e, T_HELLO, 2 # utf8_encode ''EVE''), (f, T_HELLO, 2 # utf8_encode ''FRANK''), (f, T_JOIN, sim_pad ''EVE'')] s = Ok t"
      using s1(1) s2(1) s3(1) t(1) by simp
  next
    fix net de df
    assume "net ''EVE'' = map Got de \<and> whole de \<and> concat de = stream t e \<and>
        net ''FRANK'' = map Got df \<and> whole df \<and> concat df = stream t f"
    then show "\<exists>g ce cf. scenario_autogo net = Inr g \<and> map_of (gt_cli g) ''EVE'' = Some ce \<and> map_of (gt_cli g) ''FRANK'' = Some cf \<and>
        cli_out ce = encode_msg (T_HELLO, 2 # utf8_encode ''EVE'') \<and>
        cli_out cf = encode_msg (T_HELLO, 2 # utf8_encode ''FRANK'') @ encode_msg (T_JOIN, sim_pad ''EVE'')"
      unfolding ste stf by (elim conjE) (rule autogo_passes[OF _ _ _ _ _ _ len chk])
  qed
qed


definition two_connected :: server where
  "two_connected = admitted (''127.0.0.1'', 2) 0 (admitted (''127.0.0.1'', 1) 0 (Server_init 6502 3 None 2 [] []))"

lemma two_connected_inv: "server_inv two_connected"
  unfolding two_connected_def
proof (intro server_inv_admitted)
  show "server_inv (Server_init 6502 3 None 2 [] [])" by (rule loop.invar_reach, rule server_reach_init) simp_all
qed (simp_all add: admitted_def Server_init_def per_ip_def MAX_CLIENTS_def MAX_CONNECTIONS_PER_IP_def)

theorem relay_passes_autogo_witness:
  "\<exists>t. play [(0, T_HELLO, 2 # utf8_encode ''EVE''), (1, T_HELLO, 2 # utf8_encode ''FRANK''), (1, T_JOIN, sim_pad ''EVE'')] two_connected = Ok t \<and>
     (\<exists>g. scenario_autogo (\<lambda>n. map (\<lambda>b. Got [b]) (stream t (if n = ''EVE'' then 0 else 1))) = Inr g)"
proof -
  have idle: "idle (83 + 74) None 0 two_connected" "idle (83 + 74) None 1 two_connected"
    "stream two_connected 0 = []" "stream two_connected 1 = []" "healthy two_connected" "sv_auto_go two_connected = 2"
    "sv_by_name two_connected = []"
    by (simp_all add: two_connected_def admitted_def Server_init_def idle_def Client_init_def MAX_TX_BACKLOG_def stream_def healthy_def)
  have free: "map_of (sv_by_name two_connected) ''EVE'' = None" "map_of (sv_by_name two_connected) ''FRANK'' = None"
    by (simp_all add: idle(7))
  obtain t where t: "play [(0, T_HELLO, 2 # utf8_encode ''EVE''), (1, T_HELLO, 2 # utf8_encode ''FRANK''), (1, T_JOIN, sim_pad ''EVE'')] two_connected = Ok t"
    and net: "\<forall>net de df. net ''EVE'' = map Got de \<and> whole de \<and> concat de = stream t 0 \<and>
        net ''FRANK'' = map Got df \<and> whole df \<and> concat df = stream t 1 \<longrightarrow> (\<exists>g. scenario_autogo net = Inr g)"
    using relay_passes_autogo[OF two_connected_inv idle(5,6) zero_neq_one free idle(1-4)] by blast
  have bytes: "concat (map (\<lambda>b. [b]) bs) = bs" "whole (map (\<lambda>b. [b]) bs)" for bs :: "byte list"
    by (induction bs) simp_all
  let ?net = "\<lambda>n. map (\<lambda>b. Got [b]) (stream t (if n = ''EVE'' then 0 else 1))"
  have "\<exists>g. scenario_autogo ?net = Inr g"
    by (rule net[rule_format, of ?net "map (\<lambda>b. [b]) (stream t 0)" "map (\<lambda>b. [b]) (stream t 1)"]) (simp add: bytes comp_def)
  then show ?thesis using t by blast
qed

end
