(* ===== verification/Relay_Spec.thy ===== *)
theory Relay_Spec
  imports Relay_Frames
begin

text \<open>
  What the relay promises, without sockets, stores or queues: an executable machine over a
  \<open>hall\<close>, the clients present, their names in order of registration and the table each of
  them sits at.  A step takes one message and gives the next hall and the messages posted, in
  order.  The machine is the contract of server/intv_relay_server.py (its handlers, \<open>drop\<close>
  and the dispatch of \<open>service\<close>); Relay_Refines shows that the server keeps it.
\<close>

section \<open>The hall\<close>

text \<open>A table is a match that has or has not started, its host and its guest.\<close>

type_synonym table = "bool \<times> cid \<times> cid"
type_synonym post = "cid \<times> byte \<times> byte list"

record hall =
  hl_present :: "cid list"
  hl_names :: "(string \<times> cid) list"
  hl_table :: "cid \<Rightarrow> table option"
  hl_draws :: "nat list"
  hl_delay :: int
  hl_auto :: int

definition name_field :: "string \<Rightarrow> byte list" where
  "name_field n = pad8 (map byte_of_char n)"

definition nick :: "hall \<Rightarrow> cid \<Rightarrow> string option" where
  "nick h c = map_of (map prod.swap (hl_names h)) c"

definition nick_field :: "hall \<Rightarrow> cid \<Rightarrow> byte list" where
  "nick_field h c = name_field (the (nick h c))"

text \<open>The bytes of the messages posted to one client.\<close>

definition posted_to :: "cid \<Rightarrow> post list \<Rightarrow> byte list" where
  "posted_to d out = concat (map (\<lambda>(c, m). encode_msg m) (filter (\<lambda>(c, m). c = d) out))"

lemma posted_to_simps [simp]:
  "posted_to d [] = []"
  "posted_to d ((c, m) # out) = (if c = d then encode_msg m else []) @ posted_to d out"
  "posted_to d (xs @ ys) = posted_to d xs @ posted_to d ys"
  by (simp_all add: posted_to_def)

section \<open>Steps\<close>

definition room_post :: "hall \<Rightarrow> cid \<Rightarrow> cid \<Rightarrow> byte \<times> byte list" where
  "room_post h a b = (T_ROOM, 2 # nick_field h a @ nick_field h b @ replicate 16 0)"

definition start_post :: "hall \<Rightarrow> cid \<Rightarrow> cid \<Rightarrow> nat \<Rightarrow> nat \<Rightarrow> byte \<times> byte list" where
  "start_post h a b sd i =
     (T_START, [word_of_nat i, 2, word_of_nat (sd AND 0xFF), word_of_nat (drop_bit 8 sd), word_of_int (hl_delay h)]
        @ nick_field h a @ nick_field h b @ replicate 16 0)"

text \<open>The first eight other players with a name, with 1 for free and 0x82 for seated.\<close>

definition list_post :: "cid \<Rightarrow> hall \<Rightarrow> byte \<times> byte list" where
  "list_post c h =
     (let others = take 8 (filter (\<lambda>(n, x). x \<noteq> c) (hl_names h)) in
      (T_LOBBY, word_of_nat (length others) #
         concat (map (\<lambda>(n, x). name_field n @ [if hl_table h x = None then 1 else 0x82]) others)))"

definition show_list :: "cid \<Rightarrow> hall \<Rightarrow> hall \<times> post list" where
  "show_list c h = (h, [(c, list_post c h)])"

text \<open>A client leaves the hall; whoever shared its table is told and is free again.\<close>

definition depart :: "cid \<Rightarrow> hall \<Rightarrow> hall \<times> post list" where
  "depart c h =
     (let h1 = h\<lparr>hl_present := removeAll c (hl_present h),
                 hl_names := filter (\<lambda>(n, x). x \<noteq> c) (hl_names h)\<rparr> in
      case hl_table h c of
        None \<Rightarrow> (h1, [])
      | Some (st, a, b) \<Rightarrow>
          let m = (if c = a then b else a) in
          (h1\<lparr>hl_table := (hl_table h)(c := None, m := None)\<rparr>,
           [(m, if st then (T_PEER_LEFT, (if c = a then 0 else 1) # nick_field h c)
                else (T_ROOM, 0 # replicate 32 0))]))"

definition seed_of :: "nat list \<Rightarrow> nat" where
  "seed_of draws = (case draws of [] \<Rightarrow> 1 | x # xs \<Rightarrow> 1 + x mod 0xFFFF)"

definition commence :: "cid \<Rightarrow> cid \<Rightarrow> hall \<Rightarrow> hall \<times> post list" where
  "commence a b h =
     (let sd = seed_of (hl_draws h) in
      (h\<lparr>hl_table := (hl_table h)(a := Some (True, a, b), b := Some (True, a, b)), hl_draws := tl (hl_draws h)\<rparr>,
       [(a, start_post h a b sd 0), (b, start_post h a b sd 1)]))"

definition sit_down :: "cid \<Rightarrow> cid \<Rightarrow> hall \<Rightarrow> hall \<times> post list" where
  "sit_down t c h =
     (let h1 = h\<lparr>hl_table := (hl_table h)(t := Some (False, t, c), c := Some (False, t, c))\<rparr>;
          out = [(t, room_post h t c), (c, room_post h t c)] in
      if hl_auto h \<noteq> 0 \<and> 2 \<ge> hl_auto h
      then (case commence t c h1 of (h2, out2) \<Rightarrow> (h2, out @ out2)) else (h1, out))"

definition greet :: "cid \<Rightarrow> string \<Rightarrow> hall \<Rightarrow> hall \<times> post list" where
  "greet c n h =
     (case (case map_of (hl_names h) n of
              None \<Rightarrow> (h, [])
            | Some x \<Rightarrow> if x \<noteq> c then depart x h else (h, [])) of
        (h1, out) \<Rightarrow>
          let h2 = h1\<lparr>hl_names := AList.update n c (filter (\<lambda>(k, x). x = c \<longrightarrow> k = n) (hl_names h1))\<rparr>
          in (h2, out @ [(c, list_post c h2)]))"

definition ask_to_join :: "cid \<Rightarrow> byte list \<Rightarrow> hall \<Rightarrow> hall \<times> post list" where
  "ask_to_join c payload h =
     (if nick h c = None then depart c h
      else if hl_table h c \<noteq> None then (h, [])
      else case map_of (hl_names h) (wire_name payload) of
        None \<Rightarrow> show_list c h
      | Some t \<Rightarrow> if t = c \<or> hl_table h t \<noteq> None then show_list c h else sit_down t c h)"

definition ask_to_start :: "cid \<Rightarrow> hall \<Rightarrow> hall \<times> post list" where
  "ask_to_start c h =
     (case hl_table h c of
        None \<Rightarrow> (h, [])
      | Some (st, a, b) \<Rightarrow> if \<not> st \<and> c = a then commence a b h else (h, []))"

definition pass_on :: "cid \<Rightarrow> byte \<times> byte list \<Rightarrow> hall \<Rightarrow> hall \<times> post list" where
  "pass_on c m h =
     (case hl_table h c of
        None \<Rightarrow> (h, [])
      | Some (st, a, b) \<Rightarrow> (h, if st then [(if c = a then b else a, m)] else []))"

definition respond :: "cid \<Rightarrow> byte \<times> byte list \<Rightarrow> hall \<Rightarrow> hall \<times> post list" where
  "respond c m h =
     (let ftype = fst m; payload = snd m in
      if c \<notin> set (hl_present h) then (h, [])
      else if ftype \<in> set RELAY_TYPES then pass_on c m h
      else if ftype = T_HELLO then
        (if 3 \<le> length payload \<and> payload ! 0 = PROTO_VER \<and> valid_name (wire_name (List.drop 1 payload))
         then greet c (wire_name (List.drop 1 payload)) h else depart c h)
      else if ftype = T_LIST then show_list c h
      else if ftype = T_JOIN then ask_to_join c payload h
      else if ftype = T_GO then ask_to_start c h
      else if ftype = T_PING then (h, [(c, T_PONG, [])])
      else depart c h)"

text \<open>A run of the machine collects everything posted.\<close>

fun dialogue :: "(cid \<times> byte \<times> byte list) list \<Rightarrow> hall \<Rightarrow> hall \<times> post list" where
  "dialogue [] h = (h, [])"
| "dialogue ((c, m) # ms) h =
     (case respond c m h of (h1, out) \<Rightarrow> case dialogue ms h1 of (h2, out2) \<Rightarrow> (h2, out @ out2))"

section \<open>The house: arrivals, bytes and deadlines\<close>

text \<open>
  Around the hall: the identity the next connection gets, and per connection the bytes that
  are not a whole frame yet, the address it came from and when it came.
\<close>

record porch =
  po_next :: cid
  po_inbox :: "cid \<Rightarrow> byte list"
  po_from :: "cid \<Rightarrow> string"
  po_since :: "cid \<Rightarrow> time"

type_synonym house = "hall \<times> porch"

text \<open>A client's bytes are cut into messages; bytes that cannot become a frame end the connection.\<close>

definition hear :: "cid \<Rightarrow> byte list \<Rightarrow> house \<Rightarrow> house \<times> post list" where
  "hear c data w =
     (case w of (h, p) \<Rightarrow>
      case decode (po_inbox p c @ data) of (ms, left, bad) \<Rightarrow>
      case dialogue (map (Pair c) ms) h of (h1, out) \<Rightarrow>
        if bad \<and> c \<in> set (hl_present h1)
        then (case depart c h1 of (h2, out2) \<Rightarrow> ((h2, p), out @ out2))
        else ((h1, p\<lparr>po_inbox := (po_inbox p)(c := left)\<rparr>), out))"

definition hang_up :: "cid \<Rightarrow> house \<Rightarrow> house \<times> post list" where
  "hang_up c w = (case w of (h, p) \<Rightarrow> case depart c h of (h1, out) \<Rightarrow> ((h1, p), out))"

definition take_in :: "string \<Rightarrow> time \<Rightarrow> house \<Rightarrow> house" where
  "take_in ip now w =
     (case w of (h, p) \<Rightarrow>
      if length (hl_present h) \<ge> MAX_CLIENTS \<or>
         length (filter (\<lambda>c. po_from p c = ip) (hl_present h)) \<ge> MAX_CONNECTIONS_PER_IP then w
      else (h\<lparr>hl_present := hl_present h @ [po_next p]\<rparr>,
            p\<lparr>po_next := Suc (po_next p), po_inbox := (po_inbox p)(po_next p := []),
              po_from := (po_from p)(po_next p := ip), po_since := (po_since p)(po_next p := now)\<rparr>))"

text \<open>Whoever has not said its name in time has to go.\<close>

definition dismiss :: "time \<Rightarrow> house \<Rightarrow> house" where
  "dismiss now w =
     (case w of (h, p) \<Rightarrow>
      (h\<lparr>hl_present :=
          filter (\<lambda>c. nick h c \<noteq> None \<or> now - po_since p c \<le> HELLO_TIMEOUT) (hl_present h)\<rparr>, p))"

fun happen :: "event \<Rightarrow> house \<Rightarrow> house \<times> post list" where
  "happen (Ev_accept (Accepted addr opts_ok) now) w = (take_in (fst addr) now w, [])"
| "happen (Ev_client c writable (Some (Recv data))) w =
     (if c \<notin> set (hl_present (fst w)) then (w, [])
      else if data = [] then hang_up c w else hear c data w)"
| "happen (Ev_client c writable (Some Recv_fails)) w =
     (if c \<notin> set (hl_present (fst w)) then (w, []) else hang_up c w)"
| "happen (Ev_sweep order now) w = (dismiss now w, [])"
| "happen _ w = (w, [])"

fun happenings :: "event list \<Rightarrow> house \<Rightarrow> house \<times> post list" where
  "happenings [] w = (w, [])"
| "happenings (e # es) w =
     (case happen e w of (w1, out) \<Rightarrow> case happenings es w1 of (w2, out2) \<Rightarrow> (w2, out @ out2))"

section \<open>The hall stays in order\<close>

definition seating :: "hall \<Rightarrow> bool" where
  "seating h \<longleftrightarrow>
     (\<forall>c st a b. hl_table h c = Some (st, a, b) \<longrightarrow>
        a \<noteq> b \<and> c \<in> {a, b} \<and> hl_table h a = Some (st, a, b) \<and> hl_table h b = Some (st, a, b) \<and>
        {a, b} \<subseteq> set (hl_present h) \<inter> snd ` set (hl_names h))"

definition hall_ok :: "hall \<Rightarrow> bool" where
  "hall_ok h \<longleftrightarrow>
     distinct (map fst (hl_names h)) \<and> distinct (map snd (hl_names h)) \<and>
     snd ` set (hl_names h) \<subseteq> set (hl_present h) \<and> seating h"

lemma nick_None: "nick h c = None \<longleftrightarrow> c \<notin> snd ` set (hl_names h)"
  by (auto simp: nick_def map_of_eq_None_iff image_iff)

lemma seatingD:
  assumes "hall_ok h" "hl_table h c = Some (st, a, b)"
  shows "a \<noteq> b" "c = a \<or> c = b" "hl_table h a = Some (st, a, b)" "hl_table h b = Some (st, a, b)"
    and "a \<in> set (hl_present h)" "b \<in> set (hl_present h)"
    and "a \<in> snd ` set (hl_names h)" "b \<in> snd ` set (hl_names h)"
  using assms unfolding hall_ok_def seating_def by blast+

lemma distinct_map_filter: "distinct (map f xs) \<Longrightarrow> distinct (map f (filter P xs))"
  by (induction xs) auto

lemma seatingI:
  assumes "\<And>c st a b. hl_table h c = Some (st, a, b) \<Longrightarrow>
    a \<noteq> b \<and> (c = a \<or> c = b) \<and> hl_table h a = Some (st, a, b) \<and> hl_table h b = Some (st, a, b) \<and>
    a \<in> set (hl_present h) \<and> b \<in> set (hl_present h) \<and> a \<in> snd ` set (hl_names h) \<and> b \<in> snd ` set (hl_names h)"
  shows "seating h"
  using assms unfolding seating_def by blast

lemma snd_filter_neq: "snd ` set (filter (\<lambda>(n, x). x \<noteq> c) ns) = snd ` set ns - {c}"
  by force

lemma hall_ok_empty_seats:
  assumes "hall_ok h" "\<And>d st a b. hl_table h d = Some (st, a, b) \<Longrightarrow> d \<noteq> c \<Longrightarrow> d \<noteq> m \<Longrightarrow> a \<notin> {c, m} \<and> b \<notin> {c, m}"
  shows "hall_ok (h\<lparr>hl_present := removeAll c (hl_present h), hl_names := filter (\<lambda>(n, x). x \<noteq> c) (hl_names h),
    hl_table := (hl_table h)(c := None, m := None)\<rparr>)" (is "hall_ok ?h")
proof -
  have "seating ?h"
  proof (rule seatingI)
    fix d st a b assume "hl_table ?h d = Some (st, a, b)"
    then have d: "hl_table h d = Some (st, a, b)" "d \<noteq> c" "d \<noteq> m" by (auto split: if_splits)
    show "a \<noteq> b \<and> (d = a \<or> d = b) \<and> hl_table ?h a = Some (st, a, b) \<and> hl_table ?h b = Some (st, a, b) \<and>
      a \<in> set (hl_present ?h) \<and> b \<in> set (hl_present ?h) \<and> a \<in> snd ` set (hl_names ?h) \<and> b \<in> snd ` set (hl_names ?h)"
      using seatingD[OF assms(1) d(1)] assms(2)[OF d] by (simp add: snd_filter_neq del: set_filter)
  qed
  moreover have "snd ` set (hl_names h) \<subseteq> set (hl_present h)" using assms(1) by (simp add: hall_ok_def)
  ultimately show ?thesis
    using assms(1) snd_filter_neq[of c "hl_names h"] by (auto simp: hall_ok_def distinct_map_filter simp del: set_filter)
qed

lemma hall_ok_depart:
  assumes "hall_ok h"
  shows "hall_ok (fst (depart c h))"
proof (cases "hl_table h c")
  case None
  have "a \<notin> {c, c} \<and> b \<notin> {c, c}" if "hl_table h d = Some (st, a, b)" for d st a b
    using seatingD[OF assms that] None by auto
  from hall_ok_empty_seats[OF assms this] None show ?thesis
    by (simp add: depart_def fun_upd_idem)
next
  case (Some tb)
  obtain st a b where tb: "tb = (st, a, b)" by (rule prod_cases3)
  note c = seatingD[OF assms Some[unfolded tb]]
  define m where "m = (if c = a then b else a)"
  have "a' \<notin> {c, m} \<and> b' \<notin> {c, m}" if "hl_table h d = Some (st', a', b')" "d \<noteq> c" "d \<noteq> m" for d st' a' b'
    using seatingD[OF assms that(1)] c that(2,3) by (auto simp: m_def split: if_splits)
  from hall_ok_empty_seats[OF assms this] Some show ?thesis
    by (simp add: depart_def tb m_def Let_def)
qed

lemma hall_ok_pair:
  assumes "hall_ok h" "a \<noteq> b" "{a, b} \<subseteq> snd ` set (hl_names h)"
    and "\<And>d st x y. hl_table h d = Some (st, x, y) \<Longrightarrow> d \<notin> {a, b} \<Longrightarrow> x \<notin> {a, b} \<and> y \<notin> {a, b}"
  shows "hall_ok (h\<lparr>hl_table := (hl_table h)(a := Some (st, a, b), b := Some (st, a, b))\<rparr>)" (is "hall_ok ?h")
proof -
  have sub: "snd ` set (hl_names h) \<subseteq> set (hl_present h)" using assms(1) by (simp add: hall_ok_def)
  have "seating ?h"
  proof (rule seatingI)
    fix d st' x y assume d: "hl_table ?h d = Some (st', x, y)"
    show "x \<noteq> y \<and> (d = x \<or> d = y) \<and> hl_table ?h x = Some (st', x, y) \<and> hl_table ?h y = Some (st', x, y) \<and>
      x \<in> set (hl_present ?h) \<and> y \<in> set (hl_present ?h) \<and> x \<in> snd ` set (hl_names ?h) \<and> y \<in> snd ` set (hl_names ?h)"
    proof (cases "d \<in> {a, b}")
      case True
      then have "st' = st" "x = a" "y = b" using d by (auto split: if_splits)
      then show ?thesis using True assms(2,3) sub by auto
    next
      case False
      then have d': "hl_table h d = Some (st', x, y)" using d by simp
      show ?thesis using seatingD[OF assms(1) d'] assms(4)[OF d' False] by simp
    qed
  qed
  then show ?thesis using assms(1) by (simp add: hall_ok_def)
qed

lemma hall_ok_draws [simp]: "hall_ok (h\<lparr>hl_draws := ds\<rparr>) = hall_ok h"
  by (simp add: hall_ok_def seating_def)

lemma hall_ok_commence:
  assumes "hall_ok h" "hl_table h a = Some (st, a, b)"
  shows "hall_ok (fst (commence a b h))"
proof -
  have "x \<notin> {a, b} \<and> y \<notin> {a, b}" if "hl_table h d = Some (st', x, y)" "d \<notin> {a, b}" for d st' x y
    using seatingD[OF assms(1) that(1)] seatingD[OF assms] that(2) by auto
  moreover have "{a, b} \<subseteq> snd ` set (hl_names h)" using seatingD(7,8)[OF assms] by simp
  ultimately have "hall_ok (h\<lparr>hl_table := (hl_table h)(a := Some (True, a, b), b := Some (True, a, b))\<rparr>)"
    using assms seatingD(1)[OF assms] by (intro hall_ok_pair) auto
  then show ?thesis
    using hall_ok_draws[where ds = "tl (hl_draws h)"] by (simp add: commence_def Let_def)
qed

lemma hall_ok_sit_down:
  assumes "hall_ok h" "hl_table h t = None" "hl_table h c = None" "t \<noteq> c" "{t, c} \<subseteq> snd ` set (hl_names h)"
  shows "hall_ok (fst (sit_down t c h))"
proof -
  let ?h = "h\<lparr>hl_table := (hl_table h)(t := Some (False, t, c), c := Some (False, t, c))\<rparr>"
  have "x \<notin> {t, c} \<and> y \<notin> {t, c}" if "hl_table h d = Some (st, x, y)" for d st x y
    using seatingD[OF assms(1) that] assms(2,3) by auto
  then have "hall_ok ?h" using assms by (intro hall_ok_pair) auto
  moreover have "hall_ok (fst (commence t c ?h))" by (rule hall_ok_commence[OF \<open>hall_ok ?h\<close>]) (use assms(4) in simp)
  ultimately show ?thesis by (simp add: sit_down_def Let_def split: prod.split) (metis fst_conv)
qed

lemma update_same: "map_of xs k = Some v \<Longrightarrow> AList.update k v xs = xs"
  by (induction xs) (auto split: if_splits)

lemma distinct_snoc:
  "distinct (map fst ns) \<Longrightarrow> distinct (map snd ns) \<Longrightarrow> n \<notin> set (map fst ns) \<Longrightarrow> c \<notin> set (map snd ns) \<Longrightarrow>
   distinct (map fst (ns @ [(n, c)])) \<and> distinct (map snd (ns @ [(n, c)]))"
  by simp

lemma hall_ok_rename:
  assumes "hall_ok h" "c \<in> set (hl_present h)" "\<And>x. map_of (hl_names h) n = Some x \<Longrightarrow> x = c"
  shows "hall_ok (h\<lparr>hl_names := AList.update n c (filter (\<lambda>(k, x). x = c \<longrightarrow> k = n) (hl_names h))\<rparr>)"
    (is "hall_ok (h\<lparr>hl_names := AList.update n c ?ns\<rparr>)")
proof -
  have d: "distinct (map fst (hl_names h))" "distinct (map snd (hl_names h))"
    "snd ` set (hl_names h) \<subseteq> set (hl_present h)" using assms(1) by (simp_all add: hall_ok_def)
  have here: "x = c" if "(n, x) \<in> set (hl_names h)" for x
    using that assms(3) map_of_is_SomeI[OF d(1)] by blast
  have eq: "AList.update n c ?ns = (if (n, c) \<in> set (hl_names h) then ?ns else ?ns @ [(n, c)])"
  proof (cases "(n, c) \<in> set (hl_names h)")
    case True
    then have "(n, c) \<in> set ?ns" by simp
    moreover have "distinct (map fst ?ns)" by (rule distinct_map_filter[OF d(1)])
    ultimately have "map_of ?ns n = Some c" by (rule map_of_is_SomeI[rotated])
    then show ?thesis using True by (simp add: update_same)
  next
    case False
    then have "n \<notin> fst ` set ?ns" using here by fastforce
    then show ?thesis using False by (simp add: update_absent)
  qed
  have f: "distinct (map fst ?ns)" "distinct (map snd ?ns)"
    by (rule distinct_map_filter[OF d(1)], rule distinct_map_filter[OF d(2)])
  have fresh: "n \<notin> set (map fst ?ns)" if "(n, c) \<notin> set (hl_names h)" using here that by fastforce
  have new: "c \<notin> set (map snd ?ns)" if "(n, c) \<notin> set (hl_names h)" using that by auto
  have "distinct (map fst (AList.update n c ?ns)) \<and> distinct (map snd (AList.update n c ?ns))"
  proof (cases "(n, c) \<in> set (hl_names h)")
    case True
    show ?thesis unfolding eq if_P[OF True] by (intro conjI f)
  next
    case False
    show ?thesis unfolding eq if_not_P[OF False] by (rule distinct_snoc[OF f fresh[OF False] new[OF False]])
  qed
  moreover have seats: "snd ` set (AList.update n c ?ns) = insert c (snd ` set (hl_names h))"
  proof (cases "(n, c) \<in> set (hl_names h)")
    case True
    have "(if b = c then n else a, b) \<in> set ?ns" if "(a, b) \<in> set (hl_names h)" for a b
      using that True by simp
    then have "b \<in> snd ` set ?ns" if "(a, b) \<in> set (hl_names h)" for a b
      using that by (metis snd_conv imageI)
    moreover have "snd ` set ?ns \<subseteq> snd ` set (hl_names h)" by auto
    moreover have "c \<in> snd ` set (hl_names h)" using True by force
    ultimately have "snd ` set ?ns = insert c (snd ` set (hl_names h))" by (auto simp del: set_filter)
    then show ?thesis unfolding eq if_P[OF True] .
  next
    case False
    have "snd ` set ?ns \<union> {c} = insert c (snd ` set (hl_names h))" by (auto simp: image_iff)
    then show ?thesis unfolding eq if_not_P[OF False] by simp
  qed
  moreover have "seating (h\<lparr>hl_names := AList.update n c ?ns\<rparr>)"
  proof (rule seatingI)
    fix d st a b assume "hl_table (h\<lparr>hl_names := AList.update n c ?ns\<rparr>) d = Some (st, a, b)"
    then have "hl_table h d = Some (st, a, b)" by simp
    from seatingD[OF assms(1) this] seats
    show "a \<noteq> b \<and> (d = a \<or> d = b) \<and> hl_table (h\<lparr>hl_names := AList.update n c ?ns\<rparr>) a = Some (st, a, b) \<and>
      hl_table (h\<lparr>hl_names := AList.update n c ?ns\<rparr>) b = Some (st, a, b) \<and>
      a \<in> set (hl_present (h\<lparr>hl_names := AList.update n c ?ns\<rparr>)) \<and> b \<in> set (hl_present (h\<lparr>hl_names := AList.update n c ?ns\<rparr>)) \<and>
      a \<in> snd ` set (hl_names (h\<lparr>hl_names := AList.update n c ?ns\<rparr>)) \<and>
      b \<in> snd ` set (hl_names (h\<lparr>hl_names := AList.update n c ?ns\<rparr>))" by simp
  qed
  ultimately show ?thesis using d(3) assms(2) by (simp add: hall_ok_def)
qed

lemma depart_names: "hl_names (fst (depart c h)) = filter (\<lambda>(n, x). x \<noteq> c) (hl_names h)"
  "hl_present (fst (depart c h)) = removeAll c (hl_present h)"
  by (simp_all add: depart_def Let_def split: option.split prod.split)

lemma hall_ok_greet:
  assumes "hall_ok h" "c \<in> set (hl_present h)"
  shows "hall_ok (fst (greet c n h))"
proof -
  define h1 where "h1 = fst (case map_of (hl_names h) n of None \<Rightarrow> (h, []) | Some x \<Rightarrow> if x \<noteq> c then depart x h else (h, []))"
  have "hall_ok h1" using assms(1) hall_ok_depart by (simp add: h1_def split: option.split)
  moreover have "c \<in> set (hl_present h1)" using assms(2) by (simp add: h1_def depart_names split: option.split)
  moreover have "x = c" if m: "map_of (hl_names h1) n = Some x" for x
  proof (rule ccontr)
    assume x: "x \<noteq> c"
    have d: "distinct (map fst (hl_names h))" using assms(1) by (simp add: hall_ok_def)
    show False
    proof (cases "map_of (hl_names h) n")
      case None
      then show False using m by (simp add: h1_def)
    next
      case (Some y)
      show False
      proof (cases "y = c")
        case True
        then show False using m x Some by (simp add: h1_def)
      next
        case False
        then have "(n, x) \<in> set (hl_names h)" "x \<noteq> y"
          using map_of_SomeD[OF m] Some by (auto simp: h1_def depart_names)
        then show False using Some map_of_is_SomeI[OF d] by force
      qed
    qed
  qed
  ultimately have "hall_ok (h1\<lparr>hl_names := AList.update n c (filter (\<lambda>(k, x). x = c \<longrightarrow> k = n) (hl_names h1))\<rparr>)"
    by (rule hall_ok_rename)
  then show ?thesis by (simp add: greet_def h1_def Let_def case_prod_unfold)
qed

lemma hall_ok_join:
  assumes "hall_ok h"
  shows "hall_ok (fst (ask_to_join c payload h))"
proof -
  have "hall_ok (fst (sit_down t c h))"
    if "map_of (hl_names h) (wire_name payload) = Some t" "nick h c \<noteq> None" "hl_table h c = None" "hl_table h t = None" "t \<noteq> c" for t
    using that map_of_SomeD[OF that(1)] nick_None[of h c]
    by (intro hall_ok_sit_down[OF assms]) (auto intro: rev_image_eqI)
  then show ?thesis
    using assms hall_ok_depart[OF assms] unfolding ask_to_join_def show_list_def
    by (simp del: not_None_eq split: option.split)
qed

lemma hall_ok_start:
  assumes "hall_ok h"
  shows "hall_ok (fst (ask_to_start c h))"
proof (cases "hl_table h c")
  case (Some tb)
  obtain st a b where tb: "tb = (st, a, b)" by (rule prod_cases3)
  show ?thesis
    using assms hall_ok_commence[OF assms seatingD(3)[OF assms Some[unfolded tb]]] by (simp add: ask_to_start_def Some tb)
qed (simp add: ask_to_start_def assms)

lemma hall_ok_respond:
  assumes "hall_ok h"
  shows "hall_ok (fst (respond c m h))"
  unfolding respond_def Let_def
  using assms hall_ok_greet[OF assms]
  by (simp add: hall_ok_depart hall_ok_join hall_ok_start pass_on_def show_list_def split: option.split)

lemma hall_ok_dialogue: "hall_ok h \<Longrightarrow> hall_ok (fst (dialogue ms h))"
proof (induction ms h rule: dialogue.induct)
  case (2 c m ms h)
  then show ?case using hall_ok_respond[of h c m] by (auto split: prod.split)
qed simp

end
