(* ===== verification/Relay_Refines.thy ===== *)
theory Relay_Refines
  imports Relay_Spec Relay_Session
begin

text \<open>
  The server refines the machine of Relay_Spec.  \<open>hall_of\<close> reads a hall off the server's
  stores; as long as the sockets accept data and what is posted fits the queues, serving a
  message moves the hall as the machine does and appends to every client's stream exactly what
  the machine posts to it, whatever the handlers do in between.
\<close>

section \<open>Posting\<close>

text \<open>\<open>t\<close> is \<open>s\<close> after the messages \<open>out\<close> were handed over.\<close>

definition handed :: "post list \<Rightarrow> server \<Rightarrow> server \<Rightarrow> bool" where
  "handed out s t \<longleftrightarrow>
     healthy t \<and> sv_room t = sv_room s \<and> sv_by_name t = sv_by_name s \<and> sv_clients t = sv_clients s \<and>
     sv_rands t = sv_rands s \<and> sv_delay t = sv_delay s \<and> sv_auto_go t = sv_auto_go s \<and>
     sv_next_cid t = sv_next_cid s \<and> sv_next_rid t = sv_next_rid s \<and>
     (\<forall>d. stream t d = stream s d @ posted_to d out \<and>
        length (cl_tx (client_of t d)) \<le> length (cl_tx (client_of s d)) + length (posted_to d out) \<and>
        cl_room (client_of t d) = cl_room (client_of s d) \<and> cl_name (client_of t d) = cl_name (client_of s d) \<and>
        cl_dead (client_of t d) = cl_dead (client_of s d))"

lemma handed_sel:
  assumes "handed out s t"
  shows "healthy t" "stream t d = stream s d @ posted_to d out"
    and "length (cl_tx (client_of t d)) \<le> length (cl_tx (client_of s d)) + length (posted_to d out)"
    and "cl_room (client_of t d) = cl_room (client_of s d)" "cl_name (client_of t d) = cl_name (client_of s d)"
    and "cl_dead (client_of t d) = cl_dead (client_of s d)"
    and "sv_room t = sv_room s" "sv_by_name t = sv_by_name s" "sv_clients t = sv_clients s"
    and "sv_rands t = sv_rands s" "sv_delay t = sv_delay s" "sv_auto_go t = sv_auto_go s"
    and "sv_next_cid t = sv_next_cid s" "sv_next_rid t = sv_next_rid s"
  using assms by (simp_all add: handed_def)

lemma handed_Nil: "healthy s \<Longrightarrow> handed [] s s"
  by (simp add: handed_def)

lemma handed_trans:
  assumes "handed o1 s t" "handed o2 t u"
  shows "handed (o1 @ o2) s u"
proof -
  have "length (cl_tx (client_of u d)) \<le> length (cl_tx (client_of s d)) + length (posted_to d (o1 @ o2))" for d
    using handed_sel(3)[OF assms(1), of d] handed_sel(3)[OF assms(2), of d] by simp
  then show ?thesis using assms by (simp add: handed_def)
qed

text \<open>What is posted fits the queues of the clients that are connected.\<close>

definition roomy :: "post list \<Rightarrow> server \<Rightarrow> bool" where
  "roomy out s \<longleftrightarrow>
     (\<forall>d. \<not> cl_dead (client_of s d) \<longrightarrow> length (cl_tx (client_of s d)) + length (posted_to d out) \<le> MAX_TX_BACKLOG)"

lemma roomy_after:
  assumes "handed o1 s t" "roomy (o1 @ o2) s"
  shows "roomy o2 t"
  unfolding roomy_def
proof (intro allI impI)
  fix d assume "\<not> cl_dead (client_of t d)"
  then have "length (cl_tx (client_of s d)) + length (posted_to d (o1 @ o2)) \<le> MAX_TX_BACKLOG"
    using assms(2) handed_sel(6)[OF assms(1), of d] by (simp add: roomy_def)
  then show "length (cl_tx (client_of t d)) + length (posted_to d o2) \<le> MAX_TX_BACKLOG"
    using handed_sel(3)[OF assms(1), of d] by simp
qed

lemma roomy_before: "roomy (o1 @ o2) s \<Longrightarrow> roomy o1 s"
  by (fastforce simp: roomy_def)

lemma handed_send:
  assumes "healthy s" "\<not> cl_dead (client_of s c)" "roomy [(c, m)] s"
  shows "\<exists>t. (\<forall>drp. send_with drp c (encode_msg m) s = Ok t) \<and> handed [(c, m)] s t"
proof -
  let ?data = "encode_msg m"
  let ?q = "upd_client c (\<lambda>x. x\<lparr>cl_tx := cl_tx x @ ?data\<rparr>) s"
  obtain sc tx w v where loop:
    "send_loop (sv_sends ?q) (cl_tx (client_of ?q c)) (cl_wire (client_of ?q c)) = (sc, tx, w, v)"
    by (rule prod_cases4)
  have v: "v = None" "list_all (\<lambda>r. r \<noteq> Send_fails \<and> r \<noteq> Sent 0) sc"
    using send_loop_healthy[OF _ loop] assms(1) by (simp_all add: healthy_def)
  let ?w = "upd_client c (\<lambda>x. x\<lparr>cl_tx := tx, cl_wire := w\<rparr>) (?q\<lparr>sv_sends := sc\<rparr>)"
  let ?t = "update_events c ?w"
  have "\<not> length (cl_tx (client_of s c)) + length ?data > MAX_TX_BACKLOG"
    using assms(2,3) by (auto simp: roomy_def split: if_splits dest: spec[where x = c])
  then have st: "\<forall>drp. send_with drp c ?data s = Ok ?t"
    using assms(2) unfolding send_with_def flush_with_def loop prod.case v(1) Let_def option.case
    by (simp only: if_False simp_thms)
  have wtx: "w @ tx = stream s c @ ?data" and len: "length tx \<le> length (cl_tx (client_of s c)) + length ?data"
    using send_loop_bytes[OF loop] send_loop_shrinks[OF loop] by (auto simp: stream_def)
  have "handed [(c, m)] s ?t" using wtx len v(2) by (simp add: handed_def stream_def healthy_def)
  with st show ?thesis by blast
qed

lemma handed_pair:
  assumes "members s r = [a, b]" "healthy s" "\<not> cl_dead (client_of s a)" "\<not> cl_dead (client_of s b)"
    and "roomy [(a, f 0), (b, f 1)] s"
  shows "\<exists>t. live_loop 2 0 r (\<lambda>i m s. send m (encode_msg (f i)) s) s = Ok t \<and> handed [(a, f 0), (b, f 1)] s t"
proof -
  obtain u where u: "send a (encode_msg (f 0)) s = Ok u" "handed [(a, f 0)] s u"
    using handed_send[OF assms(2,3), of "f 0"] roomy_before[of "[(a, f 0)]" "[(b, f 1)]"] assms(5) by (auto simp: send_def)
  note d = handed_sel[OF u(2)]
  have "roomy [(b, f 1)] u" using roomy_after[OF u(2)] assms(5) by simp
  with d(1) assms(4) obtain t where t: "send b (encode_msg (f 1)) u = Ok t" "handed [(b, f 1)] u t"
    using handed_send[of u b "f 1"] by (auto simp: send_def d(6))
  have "live_loop 2 0 r (\<lambda>i m s. send m (encode_msg (f i)) s) s = Ok t"
    using assms(1) u(1) t(1) d(7) by (simp add: numeral_2_eq_2)
  with handed_trans[OF u(2) t(2)] show ?thesis by auto
qed

section \<open>The hall of a server\<close>

definition table_of :: "server \<Rightarrow> cid \<Rightarrow> table option" where
  "table_of s c = (case cl_room (client_of s c) of
      None \<Rightarrow> None
    | Some r \<Rightarrow> Some (rm_started (room_of s r), members s r ! 0, members s r ! 1))"

definition hall_of :: "server \<Rightarrow> hall" where
  "hall_of s = \<lparr>hl_present = sv_clients s, hl_names = sv_by_name s, hl_table = table_of s,
     hl_draws = sv_rands s, hl_delay = sv_delay s, hl_auto = sv_auto_go s\<rparr>"

lemma hall_of_sel [simp]:
  "hl_present (hall_of s) = sv_clients s" "hl_names (hall_of s) = sv_by_name s"
  "hl_table (hall_of s) = table_of s" "hl_draws (hall_of s) = sv_rands s"
  "hl_delay (hall_of s) = sv_delay s" "hl_auto (hall_of s) = sv_auto_go s"
  by (simp_all add: hall_of_def)

lemma table_of_cong:
  assumes "\<And>c. cl_room (client_of t c) = cl_room (client_of s c)" "\<And>r. rm_started (room_of t r) = rm_started (room_of s r)"
    and "\<And>r. members t r = members s r"
  shows "table_of t = table_of s"
  by (rule ext) (simp add: table_of_def assms split: option.split)

lemma hall_of_handed:
  assumes "handed out s t"
  shows "hall_of t = hall_of s"
proof -
  note d = handed_sel[OF assms]
  have "table_of t = table_of s" by (rule table_of_cong) (simp_all add: d(4,7))
  then show ?thesis by (simp add: hall_of_def d(8-12))
qed

lemma table_of_irrelevant [simp]:
  "table_of (add_log m s) = table_of s" "table_of (lobby_update s) = table_of s" "table_of (rx_set c x s) = table_of s"
  by (rule table_of_cong; simp)+

lemma hall_of_irrelevant [simp]:
  "hall_of (add_log m s) = hall_of s" "hall_of (lobby_update s) = hall_of s" "hall_of (rx_set c x s) = hall_of s"
  by (simp_all add: hall_of_def)

text \<open>A server in order: everybody who has a name or a seat is connected.\<close>

definition in_order :: "server \<Rightarrow> bool" where
  "in_order s \<longleftrightarrow> good {} s \<and> healthy s \<and> hall_ok (hall_of s)"

text \<open>What the invariant says of the hall.\<close>

lemma names_nick:
  assumes "good {} s" "c \<in> snd ` set (sv_by_name s)"
  shows "nick (hall_of s) c = cl_name (client_of s c)"
proof -
  obtain n where n: "(n, c) \<in> set (sv_by_name s)" using assms(2) by auto
  have one: "cl_name (client_of s x) = Some k" if "(k, x) \<in> set (sv_by_name s)" for k x
    using assms(1) that by (auto simp: good_def core_def names_ok_def)
  obtain k where k: "map_of (map prod.swap (sv_by_name s)) c = Some k"
    using n by (cases "map_of (map prod.swap (sv_by_name s)) c") (auto simp: map_of_eq_None_iff image_iff)
  from map_of_SomeD[OF k] have "(k, c) \<in> set (sv_by_name s)" by auto
  then show ?thesis using one k by (simp add: nick_def)
qed

lemma alive_nick:
  assumes "good {} s" "\<not> cl_dead (client_of s c)"
  shows "nick (hall_of s) c = cl_name (client_of s c)"
proof (cases "cl_name (client_of s c)")
  case None
  then have "c \<notin> snd ` set (sv_by_name s)"
    using assms(1) by (auto simp: good_def core_def names_ok_def)
  then show ?thesis using None by (simp add: nick_None)
next
  case (Some n)
  then have "(n, c) \<in> set (sv_by_name s)" using assms by (auto simp: good_def core_def alive_named_def)
  then show ?thesis using names_nick[OF assms(1)] by force
qed

lemma nick_field_bytes: "nick (hall_of s) c = cl_name (client_of s c) \<Longrightarrow> nick_field (hall_of s) c = name_bytes s c"
  by (simp add: nick_field_def name_field_def name_bytes_def)

lemma present_alive: "good R s \<Longrightarrow> c \<in> set (sv_clients s) \<longleftrightarrow> \<not> cl_dead (client_of s c)"
  by (simp add: good_def core_def conns_ok_def)

lemma in_orderD:
  assumes "in_order s"
  shows "good {} s" "healthy s" "hall_ok (hall_of s)"
    and "c \<in> snd ` set (sv_by_name s) \<Longrightarrow> \<not> cl_dead (client_of s c)"
proof -
  show "good {} s" "healthy s" "hall_ok (hall_of s)" using assms by (simp_all add: in_order_def)
  then show "c \<in> snd ` set (sv_by_name s) \<Longrightarrow> \<not> cl_dead (client_of s c)"
    using present_alive[of "{}" s c] by (auto simp: hall_ok_def)
qed

text \<open>A seat in the hall is a seat in a room of two, both connected.\<close>

lemma tableD:
  assumes "in_order s" "table_of s c = Some (st, a, b)"
  obtains r where "cl_room (client_of s c) = Some r" "members s r = [a, b]" "rm_started (room_of s r) = st"
    and "a \<noteq> b" "c = a \<or> c = b" "cl_room (client_of s a) = Some r" "cl_room (client_of s b) = Some r"
    and "\<not> cl_dead (client_of s a)" "\<not> cl_dead (client_of s b)"
    and "nick_field (hall_of s) a = name_bytes s a" "nick_field (hall_of s) b = name_bytes s b"
proof -
  note io = in_orderD[OF assms(1)]
  obtain r where r: "cl_room (client_of s c) = Some r" "rm_started (room_of s r) = st"
      "a = members s r ! 0" "b = members s r ! 1"
    using assms(2) by (auto simp: table_of_def split: option.splits)
  have c: "c \<in> set (members s r)" using io(1) r(1) by (auto simp: good_def core_def rooms_ok_def)
  then have l: "length (members s r) = 2" using io(1) by (fastforce simp: good_def settled_def)
  then have m: "members s r = [a, b]" using r(3,4) by (auto simp: numeral_2_eq_2 length_Suc_conv)
  have room: "cl_room (client_of s x) = Some r" if "x \<in> {a, b}" for x
    using io(1) that m by (auto simp: good_def settled_def)
  have "hl_table (hall_of s) c = Some (st, a, b)" using assms(2) by simp
  note t = seatingD[OF io(3) this]
  have alive: "\<not> cl_dead (client_of s x)" if "x \<in> {a, b}" for x
    using t(7,8) io(4) that by auto
  show thesis
    by (rule that[OF r(1) m r(2) t(1,2)])
       (use room alive nick_field_bytes alive_nick[OF io(1)] in auto)
qed

lemma table_None: "table_of s c = None \<longleftrightarrow> cl_room (client_of s c) = None"
  by (simp add: table_of_def split: option.split)

lemma list_post_payload:
  assumes "good {} s"
  shows "list_post c (hall_of s) = (T_LOBBY, lobby_payload_of c s)"
proof -
  let ?os = "take 8 (filter (\<lambda>(n, x). x \<noteq> c) (sv_by_name s))"
  have others: "lobby_others c s = map snd ?os"
    unfolding lobby_payload_form(1)[OF assms] by (simp add: take_map filter_map comp_def case_prod_unfold)
  have line: "name_field n @ [if table_of s x = None then 1 else 0x82] = lobby_line s x" if "(n, x) \<in> set ?os" for n x
  proof -
    have "(n, x) \<in> set (sv_by_name s)" using that by (auto dest: in_set_takeD)
    then have "cl_name (client_of s x) = Some n" using assms by (auto simp: good_def core_def names_ok_def)
    then show ?thesis
      unfolding lobby_payload_form(2)[OF assms] table_None by (simp add: name_field_def name_bytes_def)
  qed
  have eq: "map (\<lambda>(n, x). name_field n @ [if table_of s x = None then 1 else 0x82]) ?os = map (lobby_line s) (map snd ?os)"
    using line by auto
  then show ?thesis
    unfolding list_post_def lobby_payload_of_def others Let_def hall_of_sel eq by simp
qed

lemma on_list_hands:
  assumes "good {} s" "healthy s" "\<not> cl_dead (client_of s c)" "roomy [(c, list_post c (hall_of s))] s"
  shows "\<exists>t. on_list c s = Ok t \<and> handed [(c, list_post c (hall_of s))] s t"
proof -
  obtain data where data: "frame T_LOBBY (lobby_payload_of c s) = Inr data" "on_list c s = send c data s"
    using on_list_sends[OF assms(1)] by blast
  have "length (lobby_payload_of c s) < 255"
    using lobby_others_le[of c s] by (simp add: length_lobby_payload)
  then have "data = encode_msg (list_post c (hall_of s))"
    using data(1) by (simp add: encode_msg_frame list_post_payload[OF assms(1)])
  then show ?thesis using handed_send[OF assms(2-4)] data(2) by (auto simp: send_def)
qed

section \<open>Operations\<close>

text \<open>An operation on \<open>s\<close> returns, leads to the hall \<open>h\<close> and hands over \<open>out\<close>.\<close>

definition yields :: "server \<Rightarrow> outcome \<Rightarrow> hall \<times> post list \<Rightarrow> bool" where
  "yields s oc res \<longleftrightarrow>
     (\<exists>t. oc = Ok t \<and> good {} t \<and> healthy t \<and> hall_of t = fst res \<and>
        (\<forall>d. stream t d = stream s d @ posted_to d (snd res) \<and>
           length (cl_tx (client_of t d)) \<le> length (cl_tx (client_of s d)) + length (posted_to d (snd res))))"

lemma yields_handed:
  assumes "safe oc" "oc = Ok t" "handed out s u" "hall_of t = h" "sv_client t = sv_client u" "healthy t"
  shows "yields s oc (h, out)"
proof -
  have "stream t d = stream u d" for d by (simp add: stream_def assms(5))
  then show ?thesis
    using assms handed_sel(2,3)[OF assms(3)] by (auto simp: yields_def safe_def)
qed

lemma yields_Ok: "good {} s \<Longrightarrow> healthy s \<Longrightarrow> yields s (Ok s) (hall_of s, [])"
  by (simp add: yields_def)

lemma list_yields:
  assumes "good {} s" "healthy s" "\<not> cl_dead (client_of s c)" "roomy (snd (show_list c (hall_of s))) s"
  shows "yields s (on_list c s) (show_list c (hall_of s))"
proof -
  have "roomy [(c, list_post c (hall_of s))] s" using assms(4) by (simp add: show_list_def)
  from on_list_hands[OF assms(1-3) this] obtain t where t: "on_list c s = Ok t" "handed [(c, list_post c (hall_of s))] s t"
    by blast
  show ?thesis
    unfolding show_list_def by (rule yields_handed[OF safe_on_list[OF assms(1)] t hall_of_handed[OF t(2)] refl handed_sel(1)[OF t(2)]])
qed

lemma ping_yields:
  assumes "good {} s" "healthy s" "\<not> cl_dead (client_of s c)" "roomy [(c, T_PONG, [])] s"
  shows "yields s (handle c T_PING payload s) (hall_of s, [(c, T_PONG, [])])"
proof -
  have h: "handle c T_PING payload s = send c (encode_msg (T_PONG, [])) s"
    by (simp add: handle_simps encode_msg_frame)
  have f: "is_frame (encode_msg (T_PONG, []))"
    by (rule is_frame_frame[of T_PONG "[]"]) (simp add: encode_msg_frame)
  obtain t where t: "send c (encode_msg (T_PONG, [])) s = Ok t" "handed [(c, T_PONG, [])] s t"
    using handed_send[OF assms(2-4)] by (auto simp: send_def)
  show ?thesis
    unfolding h by (rule yields_handed[OF safe_send[OF assms(1) f] t hall_of_handed[OF t(2)] refl handed_sel(1)[OF t(2)]])
qed

lemma seed_of_rands: "seed_of (sv_rands s) = fst (randrange s)"
  by (simp add: seed_of_def randrange_def split: list.split)

lemma hall_of_begun:
  assumes "good {} s" "members s r = [a, b]" "cl_room (client_of s a) = Some r" "cl_room (client_of s b) = Some r"
  shows "hall_of (match_begun r sd s) = fst (commence a b (hall_of s))"
proof -
  have "x = a \<or> x = b" if "cl_room (client_of s x) = Some r" for x
  proof -
    have "x \<in> set (members s r)" using assms(1) that by (auto simp: good_def core_def rooms_ok_def)
    then show ?thesis using assms(2) by simp
  qed
  then have "table_of (match_begun r sd s) = (table_of s)(a := Some (True, a, b), b := Some (True, a, b))"
    using assms(2-4) by (auto simp: table_of_def match_room_def fun_eq_iff split: option.split)
  then show ?thesis
    by (simp add: commence_def Let_def hall_of_def match_begun_def upd_room_def)
qed

lemma start_yields:
  assumes "good {} s" "delay_ok s" "healthy s" "members s r = [a, b]"
    and "\<forall>c \<in> {a, b}. cl_room (client_of s c) = Some r \<and> \<not> cl_dead (client_of s c) \<and> nick_field (hall_of s) c = name_bytes s c"
    and "roomy (snd (commence a b (hall_of s))) s"
  shows "yields s (start_room r s) (commence a b (hall_of s))"
proof -
  obtain sd where sd: "sd = fst (randrange s)" and st:
    "start_room r s = andthen
      (live_loop 2 0 r (\<lambda>i m w. send m (encode_msg (start_notice s a b sd i)) w) (match_begun r sd s))
      (\<lambda>u. Ok (lobby_update (add_log (Log_match_started r (length (members u r)) sd) u)))"
    using start_room_unfold[OF assms(1,2,4)] by blast
  let ?s3 = "match_begun r sd s" and ?out = "[(a, start_notice s a b sd 0), (b, start_notice s a b sd 1)]"
  have out: "snd (commence a b (hall_of s)) = ?out"
    using assms(5) by (simp add: commence_def Let_def start_post_def start_notice_def seed_of_rands sd)
  have m3: "members ?s3 r = [a, b]" using assms(4) by (simp add: match_room_def)
  have h3: "healthy ?s3" using assms(3) by (simp add: healthy_def match_begun_def upd_room_def)
  have r3: "roomy ?out ?s3" using assms(6) unfolding out roomy_def by simp
  obtain u where u: "live_loop 2 0 r (\<lambda>i m w. send m (encode_msg (start_notice s a b sd i)) w) ?s3 = Ok u"
      "handed ?out ?s3 u"
    using handed_pair[OF m3 h3 _ _ r3] assms(5) by auto
  let ?t = "lobby_update (add_log (Log_match_started r (length (members u r)) sd) u)"
  have t: "start_room r s = Ok ?t" by (simp add: st u(1))
  have "handed ?out s (u\<lparr>sv_room := sv_room s, sv_rands := sv_rands s\<rparr>)"
    using u(2) by (simp add: handed_def stream_def match_begun_def healthy_def)
  moreover have "hall_of ?t = fst (commence a b (hall_of s))"
    using hall_of_handed[OF u(2)] hall_of_begun[OF assms(1,4), of sd] assms(5) by simp
  moreover have "healthy ?t" using handed_sel(1)[OF u(2)] by (simp add: healthy_def)
  ultimately have "yields s (start_room r s) (fst (commence a b (hall_of s)), ?out)"
    using yields_handed[OF safe_start_room[OF assms(1,2)] t] by simp
  then show ?thesis using out by (metis prod.collapse)
qed

lemma go_yields:
  assumes "in_order s" "delay_ok s" "roomy (snd (ask_to_start c (hall_of s))) s"
  shows "yields s (on_go c s) (ask_to_start c (hall_of s))"
proof (cases "table_of s c")
  case None
  then show ?thesis
    using yields_Ok[OF in_orderD(1,2)[OF assms(1)]] by (simp add: ask_to_start_def on_go_def None table_None[THEN iffD1, OF None])
next
  case (Some tb)
  obtain st a b where tb: "tb = (st, a, b)" by (rule prod_cases3)
  obtain r where r: "cl_room (client_of s c) = Some r" "members s r = [a, b]" "rm_started (room_of s r) = st"
    and ab: "a \<noteq> b" "c = a \<or> c = b" "cl_room (client_of s a) = Some r" "cl_room (client_of s b) = Some r"
      "\<not> cl_dead (client_of s a)" "\<not> cl_dead (client_of s b)"
      "nick_field (hall_of s) a = name_bytes s a" "nick_field (hall_of s) b = name_bytes s b"
    by (rule tableD[OF assms(1) Some[unfolded tb]])
  note io = in_orderD[OF assms(1)]
  show ?thesis
  proof (cases "\<not> st \<and> c = a")
    case True
    then have "on_go c s = start_room r s" using r ab by (simp add: on_go_def seat_def MAX_SEATS_def)
    moreover have "ask_to_start c (hall_of s) = commence a b (hall_of s)"
      using True unfolding ask_to_start_def hall_of_sel Some tb option.case prod.case by simp
    ultimately show ?thesis
      using start_yields[OF io(1) assms(2) io(2) r(2)] ab assms(3) by simp
  next
    case False
    then have "on_go c s = Ok s" using r ab by (auto simp: on_go_def seat_def)
    moreover have "ask_to_start c (hall_of s) = (hall_of s, [])"
      using False by (auto simp: ask_to_start_def Some tb)
    ultimately show ?thesis using yields_Ok[OF io(1,2)] by simp
  qed
qed

lemma fold_add_log_more:
  "sv_clients (fold add_log ms s) = sv_clients s" "sv_rands (fold add_log ms s) = sv_rands s"
  "sv_auto_go (fold add_log ms s) = sv_auto_go s" "sv_next_rid (fold add_log ms s) = sv_next_rid s"
  by (induction ms arbitrary: s) simp_all

lemma log_crc_more:
  "sv_clients (log_crc r payload s) = sv_clients s" "sv_rands (log_crc r payload s) = sv_rands s"
  "sv_auto_go (log_crc r payload s) = sv_auto_go s" "sv_next_rid (log_crc r payload s) = sv_next_rid s"
  "sv_by_name (log_crc r payload s) = sv_by_name s" "sv_delay (log_crc r payload s) = sv_delay s"
  "sv_next_cid (log_crc r payload s) = sv_next_cid s"
  by (simp_all add: log_crc_def Let_def fold_add_log_more split: prod.split)

lemma relay_yields:
  assumes "in_order s" "length payload < 255" "roomy (snd (pass_on c (ftype, payload) (hall_of s))) s"
  shows "yields s (relay_frame c ftype payload s) (pass_on c (ftype, payload) (hall_of s))"
proof (cases "table_of s c")
  case None
  then show ?thesis
    using yields_Ok[OF in_orderD(1,2)[OF assms(1)]] by (simp add: pass_on_def relay_frame_def None table_None[THEN iffD1, OF None])
next
  case (Some tb)
  obtain st a b where tb: "tb = (st, a, b)" by (rule prod_cases3)
  obtain r where r: "cl_room (client_of s c) = Some r" "members s r = [a, b]" "rm_started (room_of s r) = st"
    and ab: "a \<noteq> b" "c = a \<or> c = b" "\<not> cl_dead (client_of s a)" "\<not> cl_dead (client_of s b)"
    by (rule tableD[OF assms(1) Some[unfolded tb]])
  note io = in_orderD[OF assms(1)]
  define m where "m = (if c = a then b else a)"
  show ?thesis
  proof (cases st)
    case True
    let ?s1 = "if ftype = T_CRC \<and> length payload = 5 then log_crc r payload s else s"
    let ?data = "encode_msg (ftype, payload)" and ?out = "[(m, ftype, payload)]"
    have po: "pass_on c (ftype, payload) (hall_of s) = (hall_of s, ?out)"
      by (simp add: pass_on_def Some tb True m_def)
    have "healthy ?s1" "\<not> cl_dead (client_of ?s1 m)" "roomy ?out ?s1"
      using io(2) ab assms(3) by (simp_all add: po healthy_def log_crc_frame roomy_def m_def)
    then obtain t where t: "send m ?data ?s1 = Ok t" "handed ?out ?s1 t"
      using handed_send by (fastforce simp: send_def)
    note d = handed_sel[OF t(2)]
    have "live_loop (length (members ?s1 r)) 0 r (\<lambda>i m s. if m \<noteq> c then send m ?data s else Ok s) ?s1 = Ok t"
      using t(1) r(2) ab d(7) by (auto simp: m_def)
    then have ok: "relay_frame c ftype payload s = Ok t"
      using r(1,3) True by (simp add: relay_frame_def Let_def encode_msg_frame[OF assms(2)])
    have h1: "hall_of ?s1 = hall_of s"
    proof (cases "ftype = T_CRC \<and> length payload = 5")
      case True
      have "table_of (log_crc r payload s) = table_of s"
        by (rule table_of_cong) (simp_all add: log_crc_frame log_crc_started)
      then show ?thesis using True by (simp add: hall_of_def log_crc_more)
    next
      case False
      show ?thesis unfolding if_not_P[OF False] ..
    qed
    have s1: "sv_client ?s1 = sv_client s" "sv_by_name ?s1 = sv_by_name s" "sv_clients ?s1 = sv_clients s"
      "sv_rands ?s1 = sv_rands s" "sv_delay ?s1 = sv_delay s" "sv_auto_go ?s1 = sv_auto_go s"
      "sv_next_cid ?s1 = sv_next_cid s" "sv_next_rid ?s1 = sv_next_rid s"
      by (simp_all add: log_crc_frame log_crc_more)
    have "handed ?out s (t\<lparr>sv_room := sv_room s\<rparr>)"
      using t(2) unfolding handed_def stream_def healthy_def s1 by simp
    moreover have "hall_of t = hall_of s" using hall_of_handed[OF t(2)] h1 by simp
    ultimately show ?thesis
      unfolding po using yields_handed[OF safe_relay_frame[OF io(1) assms(2)] ok] d(1) by simp
  next
    case False
    then show ?thesis
      using yields_Ok[OF io(1,2)] r by (simp add: relay_frame_def pass_on_def Some tb)
  qed
qed


lemma fold_delete: "fold AList.delete ks d = filter (\<lambda>(k, v). k \<notin> set ks) d"
proof (induction ks arbitrary: d)
  case (Cons k ks)
  then show ?case by (auto simp: AList.delete_eq intro!: filter_cong)
qed simp

lemma stale_filtered:
  assumes "good {} s"
  shows "fold AList.delete (stale_names c s) (sv_by_name s) = filter (\<lambda>(n, x). x \<noteq> c) (sv_by_name s)"
proof -
  have d: "distinct (map fst (sv_by_name s))" using assms by (simp add: good_def core_def names_ok_def)
  have "k \<in> set (stale_names c s) \<longleftrightarrow> x = c" if "(k, x) \<in> set (sv_by_name s)" for k x
  proof
    assume "k \<in> set (stale_names c s)"
    then have "(k, c) \<in> set (sv_by_name s)" by (auto simp: stale_names_def)
    with that show "x = c" using map_of_is_SomeI[OF d] by (metis option.inject)
  next
    assume "x = c"
    then show "k \<in> set (stale_names c s)" using that by (force simp: stale_names_def)
  qed
  then show ?thesis unfolding fold_delete by (intro filter_cong) auto
qed

lemma drop_yields:
  assumes "in_order s" "\<not> cl_dead (client_of s c)" "roomy (snd (depart c (hall_of s))) s"
  shows "yields s (drop c why s) (depart c (hall_of s))"
proof -
  note io = in_orderD[OF assms(1)]
  obtain t where t: "drop c why s = Ok t" "good {} t" using safe_drop[OF io(1)] by (auto simp: safe_def)
  note ev = drop_evolves[OF t(1)]
  have frame: "sv_rands t = sv_rands s" "sv_delay t = sv_delay s" "sv_auto_go t = sv_auto_go s"
      "\<And>r. rm_started (room_of t r) = rm_started (room_of s r)"
    using ev by (simp_all add: evolves_def room_evolves_def)
  show ?thesis
  proof (cases "table_of s c")
    case None
    then have "drop c why s = Ok (unlink c why s)"
      using drop_roomless[of s c 7 why] assms(2) by (simp add: drop_def DEPTH_def numeral_eq_Suc table_None)
    then have tu: "t = unlink c why s" using t(1) by simp
    have "table_of t = table_of s" by (rule table_of_cong) (simp_all add: tu)
    moreover have "healthy t" using io(2) by (simp add: tu healthy_def)
    ultimately show ?thesis
      using t None stale_filtered[OF io(1), of c] frame
      by (simp add: yields_def depart_def Let_def hall_of_def tu stream_def)
  next
    case (Some tb)
    obtain st a b where tb: "tb = (st, a, b)" by (rule prod_cases3)
    obtain r where r: "cl_room (client_of s c) = Some r" "members s r = [a, b]" "rm_started (room_of s r) = st"
      and ab: "a \<noteq> b" "c = a \<or> c = b" "cl_room (client_of s a) = Some r" "cl_room (client_of s b) = Some r"
        "\<not> cl_dead (client_of s a)" "\<not> cl_dead (client_of s b)"
        "nick_field (hall_of s) a = name_bytes s a" "nick_field (hall_of s) b = name_bytes s b"
      by (rule tableD[OF assms(1) Some[unfolded tb]])
    define m where "m = (if c = a then b else a)"
    have p: "pair_in s r c m" and cm: "c \<noteq> m" using r(2) ab by (auto simp: pair_in_def m_def)
    obtain u v where u: "left_behind c r m s u" "send_with (drop_client 7) m (encode_msg (leave_notice s c r)) u = Ok v"
      and tv: "members t r = []" "sv_client t = sv_client v" "\<forall>r'. r' \<noteq> r \<longrightarrow> members t r' = members v r'"
        "sv_by_name t = sv_by_name v" "sv_clients t = sv_clients v" "sv_sends t = sv_sends v"
      using drop_pair[OF io(1) assms(2) r(1) p t(1)] by blast
    have out: "snd (depart c (hall_of s)) = [(m, leave_notice s c r)]"
      using r(2,3) ab cm
      by (auto simp: depart_def Let_def Some tb m_def leave_notice_def)
    have u_client: "client_of u m = (client_of s m)\<lparr>cl_room := None\<rparr>"
        "client_of u c = (client_of s c)\<lparr>cl_room := None, cl_dead := True, cl_closed := True\<rparr>"
        "\<And>x. x \<noteq> c \<Longrightarrow> x \<noteq> m \<Longrightarrow> client_of u x = client_of s x"
      and u_rest: "\<And>r'. r' \<noteq> r \<Longrightarrow> members u r' = members s r'" "sv_clients u = removeAll c (sv_clients s)"
        "sv_by_name u = filter (\<lambda>(n, x). x \<noteq> c) (sv_by_name s)" "sv_sends u = sv_sends s"
      using u(1) by (simp_all add: left_behind_def stale_filtered[OF io(1)])
    have uc: "client_of u d = (client_of s d)\<lparr>cl_room := if d \<in> {c, m} then None else cl_room (client_of s d),
        cl_dead := cl_dead (client_of s d) \<or> d = c, cl_closed := cl_closed (client_of s d) \<or> d = c\<rparr>" for d
    proof -
      consider "d = c" | "d = m" "d \<noteq> c" | "d \<noteq> c" "d \<noteq> m" by blast
      then show ?thesis
      proof cases
        case 1
        show ?thesis unfolding 1 u_client(2) by simp
      next
        case 2
        show ?thesis using 2(2) unfolding 2(1) u_client(1) by simp
      next
        case 3
        show ?thesis using 3 unfolding u_client(3)[OF 3] by simp
      qed
    qed
    have tx: "cl_tx (client_of u d) = cl_tx (client_of s d)" "cl_wire (client_of u d) = cl_wire (client_of s d)"
      and dead: "cl_dead (client_of u d) \<longleftrightarrow> cl_dead (client_of s d) \<or> d = c" for d
      by (subst uc, simp)+
    have "healthy u" using io(2) u_rest(4) by (simp add: healthy_def)
    moreover have "\<not> cl_dead (client_of u m)" using dead[of m] cm ab by (auto simp: m_def)
    moreover have "roomy [(m, leave_notice s c r)] u"
      using assms(3) unfolding out by (simp add: roomy_def dead tx)
    ultimately have hv: "handed [(m, leave_notice s c r)] u v"
      using handed_send[of u m "leave_notice s c r"] u(2) by auto
    note d = handed_sel[OF hv]
    have room: "cl_room (client_of t x) = (if x = c \<or> x = m then None else cl_room (client_of s x))" for x
      unfolding tv(2) d(4) by (subst uc) simp
    have other: "r' \<noteq> r" if "cl_room (client_of s x) = Some r'" "x \<noteq> c" "x \<noteq> m" for x r'
    proof
      assume "r' = r"
      then have "x \<in> set (members s r)" using io(1) that(1) by (auto simp: good_def core_def rooms_ok_def)
      then show False using p that(2,3) by (auto simp: pair_in_def)
    qed
    have mem: "members t r' = members s r'" if "r' \<noteq> r" for r'
      using that tv(3) d(7) u_rest(1) by simp
    have "table_of t = (table_of s)(c := None, m := None)"
    proof
      fix x
      show "table_of t x = ((table_of s)(c := None, m := None)) x"
      proof (cases "x = c \<or> x = m")
        case False
        then have rx: "cl_room (client_of t x) = cl_room (client_of s x)" by (simp add: room)
        show ?thesis
        proof (cases "cl_room (client_of s x)")
          case (Some r')
          then have "r' \<noteq> r" using other False by blast
          then show ?thesis using False by (simp add: table_of_def rx Some mem frame(4))
        qed (use False in \<open>simp add: table_of_def rx\<close>)
      qed (auto simp: table_of_def room)
    qed
    then have "hall_of t = fst (depart c (hall_of s))"
      using frame by (simp add: depart_def Let_def Some tb hall_of_def m_def tv(4,5) d(8,9) u_rest)
    moreover have "healthy t" using d(1) tv(6) by (simp add: healthy_def)
    moreover have "stream t x = stream s x @ posted_to x [(m, leave_notice s c r)]" for x
      using d(2)[of x] by (simp add: stream_def tv(2) tx)
    moreover have "length (cl_tx (client_of t x)) \<le> length (cl_tx (client_of s x)) + length (posted_to x [(m, leave_notice s c r)])" for x
      using d(3)[of x] by (simp add: tv(2) tx)
    ultimately show ?thesis using t unfolding yields_def out by blast
  qed
qed

text \<open>Operations one after the other.\<close>

lemma yields_trans:
  assumes "yields s (Ok t) (h, o1)" "yields t oc (h2, o2)"
  shows "yields s oc (h2, o1 @ o2)"
proof -
  obtain u where u: "oc = Ok u" "good {} u" "healthy u" "hall_of u = h2"
      "\<And>d. stream u d = stream t d @ posted_to d o2"
      "\<And>d. length (cl_tx (client_of u d)) \<le> length (cl_tx (client_of t d)) + length (posted_to d o2)"
    using assms(2) by (auto simp: yields_def)
  have t: "stream t d = stream s d @ posted_to d o1"
      "length (cl_tx (client_of t d)) \<le> length (cl_tx (client_of s d)) + length (posted_to d o1)" for d
    using assms(1) by (simp_all add: yields_def)
  have "length (cl_tx (client_of u d)) \<le> length (cl_tx (client_of s d)) + length (posted_to d (o1 @ o2))" for d
    using t(2)[of d] u(6)[of d] by simp
  then show ?thesis using u(1-5) t(1) by (simp add: yields_def)
qed

lemma roomy_yields:
  assumes "good {} s" "yields s (Ok t) (h, o1)" "set (hl_present h) \<subseteq> set (sv_clients s)" "roomy (o1 @ o2) s"
  shows "roomy o2 t"
  unfolding roomy_def
proof (intro allI impI)
  fix d assume d: "\<not> cl_dead (client_of t d)"
  have t: "good {} t" "hall_of t = h" using assms(2) by (simp_all add: yields_def)
  then have "d \<in> set (hl_present h)" using d present_alive[of "{}" t d] by auto
  then have "\<not> cl_dead (client_of s d)" using assms(3) present_alive[OF assms(1)] by blast
  then have "length (cl_tx (client_of s d)) + length (posted_to d (o1 @ o2)) \<le> MAX_TX_BACKLOG"
    using assms(4) by (simp add: roomy_def)
  moreover have "length (cl_tx (client_of t d)) \<le> length (cl_tx (client_of s d)) + length (posted_to d o1)"
    using assms(2) by (simp add: yields_def)
  ultimately show "length (cl_tx (client_of t d)) + length (posted_to d o2) \<le> MAX_TX_BACKLOG" by simp
qed

text \<open>The same state up to what neither the hall nor the streams show.\<close>

lemma yields_shift:
  assumes "yields s' oc res" "\<And>d. cl_tx (client_of s' d) = cl_tx (client_of s d)"
    and "\<And>d. cl_wire (client_of s' d) = cl_wire (client_of s d)"
  shows "yields s oc res"
  using assms by (simp add: yields_def stream_def)

lemma hall_of_joined:
  assumes "good {} s" "cl_room (client_of s t) = None" "cl_room (client_of s c) = None"
  shows "hall_of (joined t c s) =
    (hall_of s)\<lparr>hl_table := (table_of s)(t := Some (False, t, c), c := Some (False, t, c))\<rparr>"
proof -
  have "table_of (joined t c s) = (table_of s)(t := Some (False, t, c), c := Some (False, t, c))"
  proof
    fix x
    have "cl_room (client_of s x) \<noteq> Some (sv_next_rid s)"
      using fresh_room(2) assms(1) by (simp add: good_def)
    then show "table_of (joined t c s) x = ((table_of s)(t := Some (False, t, c), c := Some (False, t, c))) x"
      by (simp add: table_of_def Room_init_def split: option.split)
  qed
  then show ?thesis by (simp add: hall_of_def joined_def Let_def)
qed

lemma sit_yields:
  assumes "in_order s" "delay_ok s" "c < sv_next_cid s" "cl_name (client_of s c) \<noteq> None" "\<not> cl_dead (client_of s c)"
    and "cl_room (client_of s c) = None"
    and "map_of (sv_by_name s) (wire_name payload) = Some t" "t \<noteq> c" "cl_room (client_of s t) = None"
    and "roomy (snd (sit_down t c (hall_of s))) s"
  shows "yields s (on_join c payload s) (sit_down t c (hall_of s))"
proof -
  let ?r = "sv_next_rid s" and ?j = "joined t c s"
  note io = in_orderD[OF assms(1)]
  have tn: "(wire_name payload, t) \<in> set (sv_by_name s)" by (rule map_of_SomeD[OF assms(7)])
  then have tin: "t \<in> snd ` set (sv_by_name s)" by force
  have hn: "cl_name (client_of s t) \<noteq> None" "t < sv_next_cid s"
    using tn io(1) by (auto simp: good_def core_def names_ok_def)
  have alive: "\<not> cl_dead (client_of s t)" by (rule io(4)[OF tin])
  have uj: "\<not> unjoinable c (Some t) s" using hn assms(8,9) by (simp add: unjoinable_def)
  have gj: "good {} ?j" using io(1) assms hn by (intro good_joined) auto
  have mj: "members ?j ?r = [t, c]" by simp
  have nbj: "name_bytes ?j = name_bytes s" by (rule ext) (simp add: name_bytes_def)
  have nf: "nick_field (hall_of s) x = name_bytes s x" if "x \<in> {t, c}" for x
    using that nick_field_bytes alive_nick[OF io(1)] alive assms(5) by auto
  have rn: "room_notice ?j t c = room_post (hall_of s) t c"
    using nf by (simp add: room_notice_def room_post_def nbj)
  define rp where "rp = room_post (hall_of s) t c"
  let ?out = "[(t, rp), (c, rp)]"
  define h1 where "h1 = (hall_of s)\<lparr>hl_table := (table_of s)(t := Some (False, t, c), c := Some (False, t, c))\<rparr>"
  define go where "go \<longleftrightarrow> sv_auto_go s \<noteq> 0 \<and> 2 \<ge> sv_auto_go s"
  have spec: "sit_down t c (hall_of s) =
      (if go then (fst (commence t c h1), ?out @ snd (commence t c h1)) else (h1, ?out))"
    by (simp add: sit_down_def Let_def rp_def h1_def go_def case_prod_unfold)
  have hj: "healthy ?j" using io(2) by (simp add: healthy_def)
  have jtx: "cl_tx (client_of ?j d) = cl_tx (client_of s d)" "cl_wire (client_of ?j d) = cl_wire (client_of s d)"
      "cl_dead (client_of ?j d) = cl_dead (client_of s d)" for d
    by simp_all
  have roomy1: "roomy ?out s" using assms(10) roomy_before unfolding spec by (simp split: if_splits)
  then have rj: "roomy [(t, (\<lambda>_ :: nat. rp) 0), (c, (\<lambda>_ :: nat. rp) 1)] ?j" unfolding roomy_def jtx .
  obtain u where u: "room_broadcast ?r ?j = Ok u" "handed ?out ?j u"
    using handed_pair[OF mj hj _ _ rj] alive assms(5) room_broadcast_unfold(1)[OF gj mj]
    unfolding rn rp_def[symmetric] by auto
  note d = handed_sel[OF u(2)]
  let ?u = "lobby_update u"
  have two: "length (members ?u ?r) = 2" by (simp add: d(7))
  have oj: "on_join c payload s = (if go then start_room ?r ?u else Ok ?u)"
    using u(1) on_join_joins[OF io(1) assms(4,6,7) uj] two by (simp add: Let_def go_def d(12) joined_def)
  have gu: "good {} ?u"
    using safe_room_broadcast[OF gj, of ?r] u(1) by (simp add: safe_def good_lobby_update)
  have hu: "hall_of ?u = h1"
    using hall_of_handed[OF u(2)] hall_of_joined[OF io(1) assms(9,6)] by (simp add: h1_def)
  have yu: "yields s (Ok ?u) (h1, ?out)"
    unfolding yields_def using gu d(1) hu d(2,3) jtx by (simp add: healthy_def stream_def)
  show ?thesis
  proof (cases go)
    case False
    then show ?thesis using yu by (simp add: oj spec)
  next
    case True
    have "roomy (snd (commence t c h1)) ?u"
      by (rule roomy_yields[OF io(1) yu]) (use assms(10) True in \<open>simp_all add: spec h1_def\<close>)
    moreover have "\<forall>x \<in> {t, c}. cl_room (client_of ?u x) = Some ?r \<and> \<not> cl_dead (client_of ?u x) \<and>
        nick_field (hall_of ?u) x = name_bytes ?u x"
    proof
      fix x assume x: "x \<in> {t, c}"
      have "\<not> cl_dead (client_of ?u x)" using x alive assms(5) by (auto simp: d(6))
      then have "nick_field (hall_of ?u) x = name_bytes ?u x" by (intro nick_field_bytes alive_nick[OF gu])
      with \<open>\<not> cl_dead (client_of ?u x)\<close> show "cl_room (client_of ?u x) = Some ?r \<and> \<not> cl_dead (client_of ?u x) \<and>
          nick_field (hall_of ?u) x = name_bytes ?u x" using x by (auto simp: d(4))
    qed
    moreover have "delay_ok ?u" using assms(2) by (simp add: delay_ok_def d(11))
    moreover have "healthy ?u" using d(1) by (simp add: healthy_def)
    ultimately have "yields ?u (start_room ?r ?u) (commence t c h1)"
      using start_yields[OF gu, of ?r t c] hu by (simp add: d(7))
    then have "yields ?u (start_room ?r ?u) (fst (commence t c h1), snd (commence t c h1))" by simp
    from yields_trans[OF yu this] show ?thesis using True by (simp add: oj spec)
  qed
qed

lemma join_yields:
  assumes "in_order s" "delay_ok s" "c < sv_next_cid s" "cl_name (client_of s c) \<noteq> None" "\<not> cl_dead (client_of s c)"
    and "roomy (snd (ask_to_join c payload (hall_of s))) s"
  shows "yields s (on_join c payload s) (ask_to_join c payload (hall_of s))"
proof -
  note io = in_orderD[OF assms(1)]
  have nm: "nick (hall_of s) c \<noteq> None" using alive_nick[OF io(1) assms(5)] assms(4) by simp
  let ?target = "map_of (sv_by_name s) (wire_name payload)"
  consider (seated) "cl_room (client_of s c) \<noteq> None"
    | (list) "cl_room (client_of s c) = None" "\<And>t. ?target = Some t \<Longrightarrow> t = c \<or> cl_room (client_of s t) \<noteq> None"
    | (sit) t where "cl_room (client_of s c) = None" "?target = Some t" "t \<noteq> c" "cl_room (client_of s t) = None"
    by blast
  then show ?thesis
  proof cases
    case seated
    then have "ask_to_join c payload (hall_of s) = (hall_of s, [])"
      using nm unfolding ask_to_join_def hall_of_sel by (simp add: table_None del: not_None_eq)
    then show ?thesis using seated assms(4) yields_Ok[OF io(1,2)] by (auto simp: on_join_def)
  next
    case list
    have "unjoinable c ?target s"
    proof (rule ccontr)
      assume n: "\<not> unjoinable c ?target s"
      then obtain t where t: "?target = Some t" "t \<noteq> c" by (auto simp: unjoinable_def split: option.splits)
      with n joinable_roomless[OF io(1), of c t] list(2) show False by auto
    qed
    then have "on_join c payload s = on_list c s" using assms(4) list(1) by (auto simp: on_join_def Let_def)
    moreover have "ask_to_join c payload (hall_of s) = show_list c (hall_of s)"
    proof (cases ?target)
      case None
      then show ?thesis using nm list(1) unfolding ask_to_join_def hall_of_sel None
        by (simp add: table_None[THEN iffD2] del: not_None_eq)
    next
      case (Some t)
      have "t = c \<or> table_of s t \<noteq> None" using list(2)[OF Some] unfolding table_None .
      then show ?thesis using nm list(1) Some unfolding ask_to_join_def hall_of_sel Some
        by (simp add: table_None[THEN iffD2] del: not_None_eq)
    qed
    ultimately show ?thesis using list_yields[OF io(1,2) assms(5)] assms(6) by simp
  next
    case sit
    have "ask_to_join c payload (hall_of s) = sit_down t c (hall_of s)"
      using nm sit unfolding ask_to_join_def hall_of_sel sit(2) by (simp add: table_None[THEN iffD2] del: not_None_eq)
    then show ?thesis using sit_yields[OF assms(1-5) sit] assms(6) by simp
  qed
qed


lemma hall_of_named:
  assumes "good {} s" "\<not> cl_dead (client_of s c)"
  shows "hall_of (take_name c n s) =
    (hall_of s)\<lparr>hl_names := AList.update n c (filter (\<lambda>(k, x). x = c \<longrightarrow> k = n) (sv_by_name s))\<rparr>"
proof -
  let ?d = "sv_by_name s"
  have d: "distinct (map fst ?d)" using assms(1) by (simp add: good_def core_def names_ok_def)
  have own: "cl_name (client_of s c) = Some k" if "(k, c) \<in> set ?d" for k
    using assms(1) that by (auto simp: good_def core_def names_ok_def)
  have kept: "filter (\<lambda>(k, x). x = c \<longrightarrow> k = n) ?d = ?d" if "cl_name (client_of s c) \<in> {None, Some n}"
    using own that by (intro filter_True) fastforce
  have gone: "filter (\<lambda>(k, x). x = c \<longrightarrow> k = n) ?d = AList.delete k' ?d"
    if k': "cl_name (client_of s c) = Some k'" "k' \<noteq> n" "map_of ?d k' = Some c" for k'
    unfolding AList.delete_eq
  proof (rule filter_cong[OF refl])
    fix y assume y: "y \<in> set ?d"
    obtain k x where kx': "y = (k, x)" by (cases y)
    with y have kx: "(k, x) \<in> set ?d" by simp
    have "(x = c \<longrightarrow> k = n) = (k \<noteq> k')"
    proof (cases "x = c")
      case True
      then have "k = k'" using own kx k'(1) by simp
      then show ?thesis using True k'(2) by simp
    next
      case False
      then have "k \<noteq> k'" using map_of_is_SomeI[OF d kx] k'(3) by auto
      then show ?thesis using False by simp
    qed
    then show "(case y of (k, x) \<Rightarrow> x = c \<longrightarrow> k = n) = (case y of (k, v) \<Rightarrow> k' \<noteq> k)" by (auto simp: kx')
  qed
  have mine: "map_of ?d k = Some c" if "cl_name (client_of s c) = Some k" for k
    using that assms map_of_is_SomeI[OF d] by (auto simp: good_def core_def alive_named_def)
  have "table_of (take_name c n s) = table_of s" by (rule table_of_cong) simp_all
  moreover have "sv_by_name (take_name c n s) = AList.update n c (filter (\<lambda>(k, x). x = c \<longrightarrow> k = n) ?d)"
    using kept gone mine by (simp add: take_name_def Let_def split: option.split)
  moreover have "sv_rands (take_name c n s) = sv_rands s"
    by (simp add: take_name_def Let_def split: option.split)
  ultimately show ?thesis by (simp add: hall_of_def)
qed

lemma evict_yields:
  assumes "in_order s" "roomy o1 s"
    and "(case map_of (sv_by_name s) n of None \<Rightarrow> (hall_of s, [])
          | Some x \<Rightarrow> if x \<noteq> c then depart x (hall_of s) else (hall_of s, [])) = (h1, o1)"
  shows "yields s (evict_holder c n s) (h1, o1)"
proof (cases "map_of (sv_by_name s) n")
  case None
  then show ?thesis using assms(3) yields_Ok[OF in_orderD(1,2)[OF assms(1)]] by (simp add: evict_holder_def)
next
  case (Some x)
  note io = in_orderD[OF assms(1)]
  have "x \<in> snd ` set (sv_by_name s)" using map_of_SomeD[OF Some] by force
  then have "\<not> cl_dead (client_of s x)" by (rule io(4))
  then show ?thesis
    using Some assms drop_yields[OF assms(1), of x Replaced] yields_Ok[OF io(1,2)]
    by (simp add: evict_holder_def split: if_splits)
qed

lemma evicted_present:
  assumes "(case map_of ns n of None \<Rightarrow> (h, [])
      | Some x \<Rightarrow> if x \<noteq> c then depart x h else (h, [])) = (h1, o1)"
  shows "set (hl_present h1) \<subseteq> set (hl_present h)" "c \<in> set (hl_present h) \<Longrightarrow> c \<in> set (hl_present h1)"
proof -
  have "h1 = h \<or> (\<exists>x. x \<noteq> c \<and> h1 = fst (depart x h))"
    using assms by (auto split: option.splits if_splits)
  then show "set (hl_present h1) \<subseteq> set (hl_present h)" "c \<in> set (hl_present h) \<Longrightarrow> c \<in> set (hl_present h1)"
    by (auto simp: depart_names)
qed

lemma hello_yields:
  assumes "in_order s" "c < sv_next_cid s" "\<not> cl_dead (client_of s c)" "hello_accepts payload"
    and "n = wire_name (List.drop 1 payload)" "roomy (snd (greet c n (hall_of s))) s"
  shows "yields s (on_hello c payload s) (greet c n (hall_of s))"
proof -
  note io = in_orderD[OF assms(1)]
  obtain h1 o1 where ho: "(case map_of (sv_by_name s) n of None \<Rightarrow> (hall_of s, [])
      | Some x \<Rightarrow> if x \<noteq> c then depart x (hall_of s) else (hall_of s, [])) = (h1, o1)" by fastforce
  define h2 where "h2 = h1\<lparr>hl_names := AList.update n c (filter (\<lambda>(k, x). x = c \<longrightarrow> k = n) (hl_names h1))\<rparr>"
  have spec: "greet c n (hall_of s) = (h2, o1 @ [(c, list_post c h2)])"
    by (simp add: greet_def ho h2_def Let_def)
  have r1: "roomy o1 s" using assms(6) roomy_before unfolding spec by simp
  note ev = evict_yields[OF assms(1) r1 ho]
  then obtain s1 where s1: "evict_holder c n s = Ok s1" "good {} s1" "healthy s1" "hall_of s1 = h1"
    by (auto simp: yields_def)
  have pres: "set (hl_present h1) \<subseteq> set (sv_clients s)" "c \<in> set (hl_present h1)"
    using evicted_present[OF ho] assms(3) present_alive[OF io(1), of c] by auto
  then have c1: "\<not> cl_dead (client_of s1 c)" using present_alive[OF s1(2), of c] s1(4) by auto
  let ?s2 = "lobby_update (add_log (Log_hello c) (take_name c n s1))"
  have ev1: "evolves s s1" by (rule evict_holder_evolves[OF s1(1)])
  have g2: "good {} ?s2"
  proof (rule good_take_name[OF s1(2)])
    show "valid_name n" using assms(4,5) by (simp add: hello_accepts_def)
    show "c < sv_next_cid s1" using assms(2) ev1 by (simp add: evolves_def)
    show "\<And>c'. c' \<noteq> c \<Longrightarrow> \<not> cl_dead (client_of s1 c') \<Longrightarrow> cl_name (client_of s1 c') \<noteq> Some n"
      by (rule evict_holder_frees[OF io(1) s1(1)])
  qed
  have nm: "sv_by_name s1 = hl_names h1" by (metis hall_of_sel(2) s1(4))
  have "hall_of (take_name c n s1) = h2" unfolding hall_of_named[OF s1(2) c1] s1(4) nm h2_def ..
  then have h2: "hall_of ?s2 = h2" by simp
  have hl: "healthy ?s2" "\<not> cl_dead (client_of ?s2 c)" using s1(3) c1 by (simp_all add: healthy_def)
  have "roomy [(c, list_post c h2)] s1"
    using roomy_yields[OF io(1) ev[unfolded s1(1)] pres(1)] assms(6) unfolding spec by simp
  moreover have "cl_tx (client_of ?s2 d) = cl_tx (client_of s1 d)" "cl_dead (client_of ?s2 d) = cl_dead (client_of s1 d)" for d
    by simp_all
  ultimately have "roomy [(c, list_post c h2)] ?s2" by (simp only: roomy_def)
  then have r2: "roomy (snd (show_list c (hall_of ?s2))) ?s2" unfolding show_list_def h2 snd_conv .
  have "yields ?s2 (on_list c ?s2) (show_list c (hall_of ?s2))" by (rule list_yields[OF g2 hl r2])
  then have "yields s1 (on_list c ?s2) (h2, [(c, list_post c h2)])"
    unfolding show_list_def h2 by (rule yields_shift) simp_all
  from yields_trans[OF ev[unfolded s1(1)] this] show ?thesis
    unfolding spec using on_hello_accepted[OF assms(4,5), of c s] s1(1) by simp
qed

section \<open>Messages\<close>

lemma deliver_one_Ok: "handle c t p s = Ok u \<Longrightarrow> deliver c [(t, p)] s = Ok u"
  by simp

lemma deliver_one_error: "handle c t p s = Raise (ProtocolError e) s \<Longrightarrow> deliver c [(t, p)] s = drop c (Protocol_violation e) s"
  by simp

lemma yields_deliver: "yields s (handle c t p s) res \<Longrightarrow> yields s (deliver c [(t, p)] s) res"
  by (auto simp: yields_def)

lemma respond_unfold:
  assumes "c \<in> set (hl_present h)"
  shows "respond c (t, p) h =
    (if t \<in> set RELAY_TYPES then pass_on c (t, p) h
     else if t = T_HELLO then (if hello_accepts p then greet c (wire_name (List.drop 1 p)) h else depart c h)
     else if t = T_LIST then show_list c h
     else if t = T_JOIN then ask_to_join c p h
     else if t = T_GO then ask_to_start c h
     else if t = T_PING then (h, [(c, T_PONG, [])])
     else depart c h)"
  using assms by (simp add: respond_def Let_def hello_accepts_def)

lemma respond_yields:
  assumes "in_order s" "delay_ok s" "\<not> cl_dead (client_of s c)" "length p < 255"
    and "roomy (snd (respond c (t, p) (hall_of s))) s"
  shows "yields s (deliver c [(t, p)] s) (respond c (t, p) (hall_of s))"
proof -
  note io = in_orderD[OF assms(1)]
  have pres: "c \<in> set (hl_present (hall_of s))" using assms(3) present_alive[OF io(1)] by simp
  have c: "c < sv_next_cid s" using pres io(1) by (simp add: good_def core_def conns_ok_def)
  note unf = respond_unfold[OF pres, of t p]
  have gone: "yields s (deliver c [(t, p)] s) (depart c (hall_of s))"
    if "\<exists>e. handle c t p s = Raise (ProtocolError e) s" "roomy (snd (depart c (hall_of s))) s"
    using that deliver_one_error drop_yields[OF assms(1,3)] by metis
  consider "t \<in> set RELAY_TYPES" | "t = T_HELLO" "hello_accepts p" | "t = T_HELLO" "\<not> hello_accepts p"
    | "t = T_LIST" | "t = T_JOIN" "cl_name (client_of s c) \<noteq> None" | "t = T_JOIN" "cl_name (client_of s c) = None"
    | "t = T_GO" | "t = T_PING" | "t = T_BYE"
    | "t \<notin> set RELAY_TYPES" "t \<notin> {T_HELLO, T_LIST, T_JOIN, T_GO, T_PING, T_BYE}" by blast
  then show ?thesis
  proof cases
    case 1
    then have "respond c (t, p) (hall_of s) = pass_on c (t, p) (hall_of s)" "handle c t p s = relay_frame c t p s"
      unfolding unf by (simp_all add: handle_def)
    with relay_yields[OF assms(1,4)] assms(5) show ?thesis by (intro yields_deliver) simp
  next
    case 2
    then have "respond c (t, p) (hall_of s) = greet c (wire_name (List.drop 1 p)) (hall_of s)"
      unfolding unf by (simp add: RELAY_TYPES_def T_defs)
    with hello_yields[OF assms(1) c assms(3) 2(2) refl] assms(5) show ?thesis
      by (intro yields_deliver) (simp add: handle_simps 2(1))
  next
    case 3
    then have "respond c (t, p) (hall_of s) = depart c (hall_of s)" unfolding unf by (simp add: RELAY_TYPES_def T_defs)
    with gone on_hello_rejected[OF 3(2), of c s] assms(5) show ?thesis by (simp add: handle_simps 3(1))
  next
    case 4
    then have "respond c (t, p) (hall_of s) = show_list c (hall_of s)" unfolding unf by (simp add: RELAY_TYPES_def T_defs)
    with list_yields[OF io(1,2) assms(3)] assms(5) show ?thesis by (intro yields_deliver) (simp add: handle_simps 4)
  next
    case 5
    then have "respond c (t, p) (hall_of s) = ask_to_join c p (hall_of s)" unfolding unf by (simp add: RELAY_TYPES_def T_defs)
    with join_yields[OF assms(1,2) c 5(2) assms(3)] assms(5) show ?thesis
      by (intro yields_deliver) (simp add: handle_simps 5(1))
  next
    case 6
    then have "nick (hall_of s) c = None" using alive_nick[OF io(1) assms(3)] by simp
    then have "respond c (t, p) (hall_of s) = depart c (hall_of s)"
      using 6(1) unfolding unf by (simp add: RELAY_TYPES_def T_defs ask_to_join_def)
    with gone assms(5) show ?thesis by (simp add: handle_simps 6 on_join_def)
  next
    case 7
    then have "respond c (t, p) (hall_of s) = ask_to_start c (hall_of s)" unfolding unf by (simp add: RELAY_TYPES_def T_defs)
    with go_yields[OF assms(1,2)] assms(5) show ?thesis by (intro yields_deliver) (simp add: handle_simps 7)
  next
    case 8
    then have "respond c (t, p) (hall_of s) = (hall_of s, [(c, T_PONG, [])])" unfolding unf by (simp add: RELAY_TYPES_def T_defs)
    with ping_yields[OF io(1,2) assms(3)] assms(5) show ?thesis by (intro yields_deliver) (simp add: 8)
  next
    case 9
    then have "respond c (t, p) (hall_of s) = depart c (hall_of s)" unfolding unf by (simp add: RELAY_TYPES_def T_defs)
    with drop_yields[OF assms(1,3)] assms(5) show ?thesis by (intro yields_deliver) (simp add: handle_simps 9)
  next
    case 10
    then have "respond c (t, p) (hall_of s) = depart c (hall_of s)" unfolding unf by simp
    with gone assms(5) 10 show ?thesis by (simp add: handle_def)
  qed
qed

text \<open>Messages of several clients, each handled as \<open>service\<close> handles it.\<close>

fun serve :: "(cid \<times> byte \<times> byte list) list \<Rightarrow> server \<Rightarrow> outcome" where
  "serve [] s = Ok s"
| "serve ((c, m) # ms) s = andthen (if cl_dead (client_of s c) then Ok s else deliver c [m] s) (serve ms)"

lemma depart_present: "set (hl_present (fst (depart c h))) \<subseteq> set (hl_present h)"
  by (auto simp: depart_names)

lemma commence_frame:
  "hl_present (fst (commence a b h)) = hl_present h" "hl_delay (fst (commence a b h)) = hl_delay h"
  by (simp_all add: commence_def Let_def)

lemma sit_down_frame:
  "hl_present (fst (sit_down t c h)) = hl_present h" "hl_delay (fst (sit_down t c h)) = hl_delay h"
  by (simp_all add: sit_down_def Let_def commence_frame case_prod_unfold)

lemma depart_delay: "hl_delay (fst (depart c h)) = hl_delay h"
  by (simp add: depart_def Let_def split: option.split prod.split)

lemma greet_frame:
  "set (hl_present (fst (greet c n h))) \<subseteq> set (hl_present h)" "hl_delay (fst (greet c n h)) = hl_delay h"
  using depart_present depart_delay
  by (simp_all add: greet_def Let_def case_prod_unfold split: option.split)

lemma respond_frame:
  "set (hl_present (fst (respond c m h))) \<subseteq> set (hl_present h)" "hl_delay (fst (respond c m h)) = hl_delay h"
  using depart_present[of c h]
  by (simp_all add: respond_def Let_def pass_on_def greet_frame show_list_def ask_to_join_def ask_to_start_def
      commence_frame sit_down_frame depart_delay split: option.split)

lemma dialogue_frame:
  "set (hl_present (fst (dialogue ms h))) \<subseteq> set (hl_present h)" "hl_delay (fst (dialogue ms h)) = hl_delay h"
proof (induction ms arbitrary: h)
  case (Cons msg ms)
  obtain c m where msg: "msg = (c, m)" by (cases msg)
  {
    case 1
    show ?case using Cons.IH(1)[of "fst (respond c m h)"] respond_frame(1)[of c m h] by (simp add: msg case_prod_unfold)
  next
    case 2
    show ?case using Cons.IH(2)[of "fst (respond c m h)"] respond_frame(2)[of c m h] by (simp add: msg case_prod_unfold)
  }
qed simp_all

lemma yields_in_order: "yields s (Ok t) (h, out) \<Longrightarrow> hall_ok h \<Longrightarrow> in_order t"
  by (auto simp: yields_def in_order_def)

lemma delay_of_hall: "delay_ok s \<longleftrightarrow> 0 \<le> hl_delay (hall_of s) \<and> hl_delay (hall_of s) < 256"
  by (simp add: delay_ok_def)

lemma serve_yields:
  assumes "in_order s" "delay_ok s" "list_all (\<lambda>(c, t, p). length p < 255) ms"
    and "roomy (snd (dialogue ms (hall_of s))) s"
  shows "yields s (serve ms s) (dialogue ms (hall_of s))"
  using assms
proof (induction ms arbitrary: s)
  case Nil
  then show ?case using yields_Ok in_orderD(1,2) by simp
next
  case (Cons msg ms)
  obtain c t p where msg: "msg = (c, t, p)" by (rule prod_cases3)
  note io = in_orderD[OF Cons.prems(1)]
  define h1 o1 where ho: "h1 = fst (respond c (t, p) (hall_of s))" "o1 = snd (respond c (t, p) (hall_of s))"
  have spec: "dialogue (msg # ms) (hall_of s) = (fst (dialogue ms h1), o1 @ snd (dialogue ms h1))"
    by (simp add: msg ho case_prod_unfold)
  have r1: "roomy o1 s" using Cons.prems(4) roomy_before unfolding spec by simp
  have one: "yields s (if cl_dead (client_of s c) then Ok s else deliver c [(t, p)] s) (h1, o1)"
  proof (cases "cl_dead (client_of s c)")
    case True
    then have "c \<notin> set (hl_present (hall_of s))" using present_alive[OF io(1)] by simp
    then have "(h1, o1) = (hall_of s, [])" by (simp add: ho respond_def)
    then show ?thesis using True yields_Ok[OF io(1,2)] by simp
  next
    case False
    have "length p < 255" using Cons.prems(3) by (simp add: msg)
    from respond_yields[OF Cons.prems(1,2) False this, of t] r1 False show ?thesis by (simp add: ho)
  qed
  then obtain u where u: "(if cl_dead (client_of s c) then Ok s else deliver c [(t, p)] s) = Ok u" "hall_of u = h1"
    by (auto simp: yields_def)
  note yu = one[unfolded u(1)]
  have "hall_ok h1" unfolding ho by (rule hall_ok_respond[OF io(3)])
  then have "in_order u" by (rule yields_in_order[OF yu])
  moreover have "delay_ok u" using Cons.prems(2) respond_frame(2) unfolding delay_of_hall u(2) ho by simp
  moreover have "roomy (snd (dialogue ms h1)) u"
    by (rule roomy_yields[OF io(1) yu]) (use respond_frame(1)[of c "(t, p)" "hall_of s"] Cons.prems(4) spec ho in simp_all)
  moreover have "list_all (\<lambda>(c, t, p). length p < 255) ms" using Cons.prems(3) by simp
  ultimately have "yields u (serve ms u) (dialogue ms h1)" using Cons.IH[of u] u(2) by simp
  then have "yields u (serve ms u) (fst (dialogue ms h1), snd (dialogue ms h1))" by simp
  from yields_trans[OF yu this] show ?case using u(1) unfolding spec by (simp add: msg)
qed

end
