(* ===== verification/Relay_Contract.thy ===== *)
theory Relay_Contract
  imports Relay_Refines
begin

text \<open>
  The contract of the whole relay: every event of its loop is mirrored by the machine of
  Relay_Spec, from the bytes that arrive to the bytes that are queued, and so is every sequence
  of events.
\<close>

section \<open>Who is written to\<close>

lemma posted_to_none: "(\<And>m. (d, m) \<notin> set out) \<Longrightarrow> posted_to d out = []"
  by (induction out) fastforce+

definition only_to :: "cid set \<Rightarrow> post list \<Rightarrow> bool" where
  "only_to cs out \<longleftrightarrow> fst ` set out \<subseteq> cs"

lemma only_to_simps [simp]:
  "only_to cs []" "only_to cs ((c, m) # out) \<longleftrightarrow> c \<in> cs \<and> only_to cs out"
  "only_to cs (xs @ ys) \<longleftrightarrow> only_to cs xs \<and> only_to cs ys"
  by (auto simp: only_to_def)

lemma only_to_mono: "only_to cs out \<Longrightarrow> cs \<subseteq> ds \<Longrightarrow> only_to ds out"
  by (auto simp: only_to_def)

lemma only_to_posted: "only_to cs out \<Longrightarrow> d \<notin> cs \<Longrightarrow> posted_to d out = []"
  by (rule posted_to_none) (force simp: only_to_def)

lemma table_present:
  assumes "hall_ok h" "hl_table h c = Some tb"
  shows "fst (snd tb) \<in> set (hl_present h)" "snd (snd tb) \<in> set (hl_present h)"
proof -
  have "hl_table h c = Some (fst tb, fst (snd tb), snd (snd tb))" using assms(2) by simp
  from seatingD(5,6)[OF assms(1) this]
  show "fst (snd tb) \<in> set (hl_present h)" "snd (snd tb) \<in> set (hl_present h)" .
qed

lemma only_to_depart:
  assumes "hall_ok h"
  shows "only_to (set (hl_present h)) (snd (depart c h))"
proof (cases "hl_table h c")
  case (Some tb)
  then show ?thesis using table_present[OF assms Some] by (simp add: depart_def Let_def case_prod_unfold)
qed (simp add: depart_def)

lemma only_to_start:
  assumes "hall_ok h"
  shows "only_to (set (hl_present h)) (snd (ask_to_start c h))"
proof (cases "hl_table h c")
  case (Some tb)
  then show ?thesis
    using table_present[OF assms Some] by (simp add: ask_to_start_def commence_def Let_def case_prod_unfold)
qed (simp add: ask_to_start_def)

lemma only_to_pass:
  assumes "hall_ok h"
  shows "only_to (set (hl_present h)) (snd (pass_on c m h))"
proof (cases "hl_table h c")
  case (Some tb)
  then show ?thesis
    using table_present[OF assms Some] by (cases m) (simp add: pass_on_def case_prod_unfold)
qed (simp add: pass_on_def)

lemma only_to_sit: "t \<in> set (hl_present h) \<Longrightarrow> c \<in> set (hl_present h) \<Longrightarrow> only_to (set (hl_present h)) (snd (sit_down t c h))"
  by (simp add: sit_down_def commence_def Let_def)

lemma only_to_greet:
  assumes "hall_ok h" "c \<in> set (hl_present h)"
  shows "only_to (set (hl_present h)) (snd (greet c n h))"
  using assms only_to_depart[OF assms(1)] by (simp add: greet_def Let_def case_prod_unfold split: option.split)

lemma only_to_respond:
  assumes "hall_ok h"
  shows "only_to (set (hl_present h)) (snd (respond c m h))"
proof -
  have named: "t \<in> set (hl_present h)" if "map_of (hl_names h) k = Some t" for k t
    using assms map_of_SomeD[OF that] by (force simp: hall_ok_def)
  have "only_to (set (hl_present h)) (snd (ask_to_join c (snd m) h))" if "c \<in> set (hl_present h)"
    using that named only_to_depart[OF assms] only_to_sit
    by (simp add: ask_to_join_def show_list_def split: option.split)
  then show ?thesis
    using only_to_greet[OF assms] only_to_depart[OF assms] only_to_start[OF assms] only_to_pass[OF assms]
    by (simp add: respond_def Let_def show_list_def)
qed

lemma only_to_dialogue: "hall_ok h \<Longrightarrow> only_to (set (hl_present h)) (snd (dialogue ms h))"
proof (induction ms arbitrary: h)
  case (Cons msg ms)
  obtain c m where msg: "msg = (c, m)" by (cases msg)
  have "only_to (set (hl_present (fst (respond c m h)))) (snd (dialogue ms (fst (respond c m h))))"
    by (rule Cons.IH[OF hall_ok_respond[OF Cons.prems]])
  then have "only_to (set (hl_present h)) (snd (dialogue ms (fst (respond c m h))))"
    using respond_frame(1) by (rule only_to_mono)
  then show ?case using only_to_respond[OF Cons.prems, of c m] by (simp add: msg case_prod_unfold)
qed simp

section \<open>Bytes\<close>

lemma server_read_short: "server_read xs = Msg (t, p) rest \<Longrightarrow> length p < 255"
  by (auto simp: server_read_def Let_def split: if_splits)

lemma decode_short: "list_all (\<lambda>(t, p). length p < 255) (fst (decode xs))"
proof -
  have "list_all (\<lambda>(t, p). length p < 255) (fst (drain server_read n xs))" for n
  proof (induction n arbitrary: xs)
    case (Suc n)
    show ?case
    proof (cases "server_read xs")
      case (Msg m rest)
      then show ?thesis using Suc.IH[of rest] server_read_short[of xs "fst m" "snd m" rest]
        by (simp add: case_prod_unfold)
    qed simp_all
  qed simp
  then show ?thesis by (simp add: decode_def)
qed

lemma serve_dead: "cl_dead (client_of s c) \<Longrightarrow> serve (map (Pair c) ms) s = Ok s"
  by (induction ms) simp_all

lemma deliver_serve: "\<not> cl_dead (client_of s c) \<Longrightarrow> deliver c ms s = serve (map (Pair c) ms) s"
proof (induction ms arbitrary: s)
  case (Cons m ms)
  have "deliver c (m # ms) s = andthen (deliver c [m] s) (\<lambda>t. if cl_dead (client_of t c) then Ok t else deliver c ms t)"
    using deliver_append[of c "[m]" ms s] by simp
  also have "\<dots> = andthen (deliver c [m] s) (serve (map (Pair c) ms))"
    by (rule andthen_cong) (simp add: Cons.IH serve_dead)
  finally show ?case using Cons.prems by simp
qed simp

section \<open>The house of a server\<close>

definition mirrors :: "server \<Rightarrow> house \<Rightarrow> bool" where
  "mirrors s w \<longleftrightarrow>
     hall_of s = fst w \<and> sv_next_cid s = po_next (snd w) \<and>
     (\<forall>c \<in> set (sv_clients s). cl_rx (client_of s c) = po_inbox (snd w) c \<and>
        fst (cl_addr (client_of s c)) = po_from (snd w) c \<and> cl_connected_at (client_of s c) = po_since (snd w) c) \<and>
     (\<forall>c \<ge> sv_next_cid s. stream s c = [])"

text \<open>A server that can be compared with the machine.\<close>

definition faithful :: "server \<Rightarrow> house \<Rightarrow> bool" where
  "faithful s w \<longleftrightarrow> server_inv s \<and> healthy s \<and> hall_ok (fst w) \<and> mirrors s w"

lemma faithfulD:
  assumes "faithful s w"
  shows "server_inv s" "in_order s" "mirrors s w" "delay_ok s" "good {} s"
  using assms by (auto simp: faithful_def server_inv_def in_order_def mirrors_def)

definition fits_all :: "post list \<Rightarrow> server \<Rightarrow> bool" where
  "fits_all out s \<longleftrightarrow> (\<forall>d. length (cl_tx (client_of s d)) + length (posted_to d out) \<le> MAX_TX_BACKLOG)"

lemma fits_roomy: "fits_all out s \<Longrightarrow> roomy out s"
  by (simp add: fits_all_def roomy_def)

text \<open>An event leads from \<open>s\<close> to a server that mirrors \<open>w\<close>, having sent \<open>out\<close>.\<close>

definition follows :: "server \<Rightarrow> outcome \<Rightarrow> house \<times> post list \<Rightarrow> bool" where
  "follows s oc res \<longleftrightarrow>
     (\<exists>t. oc = Ok t \<and> faithful t (fst res) \<and>
        (\<forall>d. stream t d = stream s d @ posted_to d (snd res) \<and>
           length (cl_tx (client_of t d)) \<le> length (cl_tx (client_of s d)) + length (posted_to d (snd res))))"

text \<open>The common part of everything a client's turn does: the client's own bytes aside, nothing but the hall changes.\<close>

lemma follows_hall:
  assumes "faithful s (h, p)" "yields s oc (h1, out)" "oc = Ok t" "server_inv t" "progress {c} s t"
    and "hall_ok h1" "set (hl_present h1) \<subseteq> set (hl_present h)" "only_to (set (hl_present h)) out"
    and "c \<in> set (hl_present h1) \<Longrightarrow> cl_rx (client_of t c) = inbox c" "\<And>d. d \<noteq> c \<Longrightarrow> inbox d = po_inbox p d"
  shows "follows s oc ((h1, p\<lparr>po_inbox := inbox\<rparr>), out)"
proof -
  have m: "mirrors s (h, p)" and g: "good {} s" using faithfulD[OF assms(1)] by simp_all
  have y: "healthy t" "hall_of t = h1" "\<And>d. stream t d = stream s d @ posted_to d out"
      "\<And>d. length (cl_tx (client_of t d)) \<le> length (cl_tx (client_of s d)) + length (posted_to d out)"
    using assms(2,3) by (auto simp: yields_def)
  have sv: "sv_clients t = hl_present h1" "sv_clients s = hl_present h"
    using y(2) m by (metis hall_of_sel(1), simp add: mirrors_def) (metis fst_conv hall_of_sel(1))
  have nx: "sv_next_cid t = sv_next_cid s" and addr: "\<And>d. cl_addr (client_of t d) = cl_addr (client_of s d)"
    and since: "\<And>d. cl_connected_at (client_of t d) = cl_connected_at (client_of s d)"
    using assms(5) by (simp_all add: progress_def client_progress_def)
  have rx: "cl_rx (client_of t d) = cl_rx (client_of s d)" if "d \<noteq> c" for d
    using that progress_rx[OF assms(5), of d] by simp
  have "mirrors t (h1, p\<lparr>po_inbox := inbox\<rparr>)"
    unfolding mirrors_def
  proof (intro conjI ballI allI impI)
    fix d assume d: "d \<in> set (sv_clients t)"
    then have "d \<in> set (sv_clients s)" using assms(7) by (auto simp: sv)
    then have "cl_rx (client_of s d) = po_inbox p d" "fst (cl_addr (client_of s d)) = po_from p d"
      "cl_connected_at (client_of s d) = po_since p d" using m by (simp_all add: mirrors_def)
    moreover have "cl_rx (client_of t d) = inbox d"
      using calculation(1) d assms(9,10) rx[of d] by (cases "d = c") (simp_all add: sv)
    ultimately show "cl_rx (client_of t d) = po_inbox (snd (h1, p\<lparr>po_inbox := inbox\<rparr>)) d"
      "fst (cl_addr (client_of t d)) = po_from (snd (h1, p\<lparr>po_inbox := inbox\<rparr>)) d"
      "cl_connected_at (client_of t d) = po_since (snd (h1, p\<lparr>po_inbox := inbox\<rparr>)) d"
      by (simp_all add: addr since)
  next
    fix d assume "sv_next_cid t \<le> d"
    then have d: "sv_next_cid s \<le> d" by (simp add: nx)
    then have "d \<notin> set (hl_present h)"
      using g unfolding sv(2)[symmetric] by (auto simp: good_def core_def conns_ok_def)
    then have "posted_to d out = []" by (rule only_to_posted[OF assms(8)])
    moreover have "stream s d = []" using m d by (simp add: mirrors_def)
    ultimately show "stream t d = []" by (simp add: y(3))
  qed (use y(2) m nx in \<open>simp_all add: mirrors_def\<close>)
  then show ?thesis using assms(3,4,6) y by (simp add: follows_def faithful_def)
qed

section \<open>Events\<close>

lemma faithful_present:
  assumes "faithful s (h, p)"
  shows "hl_present h = sv_clients s" "c \<in> set (hl_present h) \<longleftrightarrow> \<not> cl_dead (client_of s c)" "hall_of s = h"
proof -
  show h: "hall_of s = h" using faithfulD(3)[OF assms] by (simp add: mirrors_def)
  show "hl_present h = sv_clients s" by (simp flip: h)
  then show "c \<in> set (hl_present h) \<longleftrightarrow> \<not> cl_dead (client_of s c)"
    using present_alive[OF faithfulD(5)[OF assms], of c] by simp
qed

lemma follows_still: "faithful s w \<Longrightarrow> follows s (Ok s) (w, [])"
  by (simp add: follows_def)

lemma drop_progress: "drop c why s = Ok t \<Longrightarrow> progress X s t"
  by (rule evolves_progress[OF drop_evolves])

lemma hang_up_follows:
  assumes "faithful s (h, p)" "c \<in> set (hl_present h)" "roomy (snd (hang_up c (h, p))) s"
  shows "follows s (drop c why s) (hang_up c (h, p))"
proof -
  note f = faithfulD[OF assms(1)] and pr = faithful_present[OF assms(1)]
  have r: "roomy (snd (depart c h)) s" using assms(3) by (simp add: hang_up_def case_prod_unfold)
  have y: "yields s (drop c why s) (depart c h)"
    using drop_yields[OF f(2), of c why] assms(2) r pr by simp
  obtain t where t: "drop c why s = Ok t" "good {} t" using safe_drop[OF f(5)] by (auto simp: safe_def)
  have i: "server_inv t" by (rule server_inv_progress[OF f(1) drop_progress[OF t(1), of "{}"] t(2)]) simp
  have "follows s (drop c why s) ((fst (depart c h), p\<lparr>po_inbox := po_inbox p\<rparr>), snd (depart c h))"
  proof (rule follows_hall[OF assms(1) _ t(1) i drop_progress[OF t(1)]])
    show "yields s (drop c why s) (fst (depart c h), snd (depart c h))" using y by simp
    show "hall_ok (fst (depart c h))" using assms(1) by (simp add: faithful_def hall_ok_depart)
    show "only_to (set (hl_present h)) (snd (depart c h))"
      using assms(1) by (simp add: faithful_def only_to_depart)
  qed (auto simp: depart_names)
  then show ?thesis by (simp add: hang_up_def case_prod_unfold)
qed

lemma yields_rx:
  assumes "yields s (Ok u) res" "rx_set c [] t = rx_set c [] u" "good {} t"
  shows "yields s (Ok t) res"
proof -
  have "hall_of t = hall_of u" by (metis assms(2) hall_of_irrelevant(3))
  moreover have "sv_sends t = sv_sends u" by (metis assms(2) rx_set_sel(8))
  moreover have "cl_tx (client_of t d) = cl_tx (client_of u d)" "cl_wire (client_of t d) = cl_wire (client_of u d)" for d
    by (metis assms(2) rx_set_client(1)) (metis assms(2) rx_set_client(2))
  ultimately show ?thesis using assms(1,3) by (simp add: yields_def healthy_def stream_def)
qed

text \<open>Reading: the messages in the bytes, then possibly the end of the connection.\<close>

lemma receive_yields:
  assumes "in_order s" "delay_ok s" "\<not> cl_dead (client_of s c)" "decode xs = (ms, left, bad)"
    and "dialogue (map (Pair c) ms) (hall_of s) = (h1, o1)"
    and "res = (if bad \<and> c \<in> set (hl_present h1) then (fst (depart c h1), o1 @ snd (depart c h1)) else (h1, o1))"
    and "roomy (snd res) s"
  shows "yields s (receive c (ms, left, bad) s) res"
proof -
  note io = in_orderD[OF assms(1)]
  have short: "list_all (\<lambda>(c, t, p). length p < 255) (map (Pair c) ms)"
    using decode_short[of xs] by (simp add: assms(4) list_all_iff case_prod_unfold)
  have r1: "roomy o1 s" using assms(7) roomy_before unfolding assms(6) by (simp split: if_splits)
  have ys: "yields s (serve (map (Pair c) ms) s) (h1, o1)"
    using serve_yields[OF assms(1,2) short] r1 by (simp add: assms(5))
  then obtain u where u: "serve (map (Pair c) ms) s = Ok u" "good {} u" "hall_of u = h1" by (auto simp: yields_def)
  have rec: "receive c (ms, left, bad) s = (if bad then drop c (Bad_frame_length (left ! 0)) u else Ok u)"
    using deliver_serve[OF assms(3), of ms] u(1) by (simp add: receive_def)
  have alive: "c \<in> set (hl_present h1) \<longleftrightarrow> \<not> cl_dead (client_of u c)"
    using present_alive[OF u(2), of c] u(3) by auto
  show ?thesis
  proof (cases "bad \<and> c \<in> set (hl_present h1)")
    case True
    have h1: "hall_ok h1" using hall_ok_dialogue[OF io(3), of "map (Pair c) ms"] assms(5) by simp
    have "set (hl_present h1) \<subseteq> set (sv_clients s)"
      using dialogue_frame(1)[of "map (Pair c) ms" "hall_of s"] assms(5) by simp
    then have "roomy (snd (depart c h1)) u"
      using roomy_yields[OF io(1) ys[unfolded u(1)]] assms(7) True by (simp add: assms(6))
    then have "yields u (drop c (Bad_frame_length (left ! 0)) u) (depart c h1)"
      using drop_yields[OF yields_in_order[OF ys[unfolded u(1)] h1], of c] True alive u(3) by simp
    then have "yields u (drop c (Bad_frame_length (left ! 0)) u) (fst (depart c h1), snd (depart c h1))" by simp
    from yields_trans[OF ys[unfolded u(1)] this] show ?thesis unfolding rec assms(6) using True by simp
  next
    case False
    then have "receive c (ms, left, bad) s = Ok u" using alive by (auto simp: rec)
    then show ?thesis unfolding assms(6) if_not_P[OF False] using ys u(1) by simp
  qed
qed

lemma hear_follows:
  assumes "faithful s (h, p)" "c \<in> set (hl_present h)" "data \<noteq> []" "roomy (snd (hear c data (h, p))) s"
  shows "follows s (service c (Recv data) s) (hear c data (h, p))"
proof -
  note f = faithfulD[OF assms(1)] and pr = faithful_present[OF assms(1)]
  have alive: "\<not> cl_dead (client_of s c)" using assms(2) pr by simp
  have rx: "cl_rx (client_of s c) = po_inbox p c"
    using f(3) assms(2) pr(1) by (simp add: mirrors_def)
  have cn: "c < sv_next_cid s" using f(5) assms(2) unfolding pr(1) by (simp add: good_def core_def conns_ok_def)
  obtain ms left bad where dec: "decode (po_inbox p c @ data) = (ms, left, bad)" by (rule prod_cases3)
  obtain h1 o1 where dia: "dialogue (map (Pair c) ms) h = (h1, o1)" by fastforce
  define res where "res = (if bad \<and> c \<in> set (hl_present h1) then (fst (depart c h1), o1 @ snd (depart c h1)) else (h1, o1))"
  define inbox where "inbox = (if bad \<and> c \<in> set (hl_present h1) then po_inbox p else (po_inbox p)(c := left))"
  have spec: "hear c data (h, p) = ((fst res, p\<lparr>po_inbox := inbox\<rparr>), snd res)"
    by (simp add: hear_def dec dia res_def inbox_def case_prod_unfold)
  have ry: "yields s (receive c (ms, left, bad) s) res"
    by (rule receive_yields[OF f(2,4) alive dec dia[folded pr(3)] res_def]) (use assms(4) spec in simp)
  then obtain v where v: "receive c (ms, left, bad) s = Ok v" by (auto simp: yields_def)
  obtain t where t: "service c (Recv data) s = Ok t" "server_inv t" using service_returns[OF f(1) cn] by blast
  have pg: "progress {c} s t"
    using service_safe[OF f(5,4) cn, of "Recv data"] f(1) t(1) by (simp add: server_inv_def)
  have gt: "good {} t" using t(2) by (simp add: server_inv_def)
  have eq: "rx_set c [] t = rx_set c [] v"
    using service_delivers[OF assms(3), of c s] by (simp add: t(1) rx dec v forget_rx_def)
  have yt: "yields s (service c (Recv data) s) (fst res, snd res)"
    using yields_rx[OF ry[unfolded v] eq gt] by (simp add: t(1))
  have h1: "hall_ok h1" "set (hl_present h1) \<subseteq> set (hl_present h)" "only_to (set (hl_present h)) o1"
    using hall_ok_dialogue[of h "map (Pair c) ms"] dialogue_frame(1)[of "map (Pair c) ms" h]
      only_to_dialogue[of h "map (Pair c) ms"] assms(1) dia by (simp_all add: faithful_def)
  have "follows s (service c (Recv data) s) ((fst res, p\<lparr>po_inbox := inbox\<rparr>), snd res)"
  proof (rule follows_hall[OF assms(1) yt t(1,2) pg])
    show "hall_ok (fst res)" "set (hl_present (fst res)) \<subseteq> set (hl_present h)"
      using h1(1,2) hall_ok_depart[OF h1(1)] depart_present[of c h1] by (auto simp: res_def)
    show "only_to (set (hl_present h)) (snd res)"
      using h1 only_to_mono[OF only_to_depart[OF h1(1)] h1(2)] by (simp add: res_def)
    show "inbox d = po_inbox p d" if "d \<noteq> c" for d using that by (simp add: inbox_def)
    assume c: "c \<in> set (hl_present (fst res))"
    have "hall_of t = fst res" using yt t(1) by (auto simp: yields_def)
    then have "c \<in> set (sv_clients t)" using c hall_of_sel(1)[of t] by simp
    then have "\<not> cl_dead (client_of t c)" using present_alive[OF gt] by blast
    then obtain ms' where "decode (po_inbox p c @ data) = (ms', cl_rx (client_of t c), False)"
      using service_left[OF assms(3) t(1)] rx by auto
    then show "cl_rx (client_of t c) = inbox c" using dec by (simp add: inbox_def)
  qed
  then show ?thesis by (simp add: spec)
qed

text \<open>A writable socket: queued bytes become accepted ones.\<close>

lemma flush_hands:
  assumes "healthy s"
  shows "\<exists>t. flush c s = Ok t \<and> handed [] s t"
proof -
  obtain sc tx w v where loop:
    "send_loop (sv_sends s) (cl_tx (client_of s c)) (cl_wire (client_of s c)) = (sc, tx, w, v)"
    by (rule prod_cases4)
  have v: "v = None" "list_all (\<lambda>r. r \<noteq> Send_fails \<and> r \<noteq> Sent 0) sc"
    using send_loop_healthy[OF _ loop] assms by (simp_all add: healthy_def)
  let ?t = "update_events c (upd_client c (\<lambda>x. x\<lparr>cl_tx := tx, cl_wire := w\<rparr>) (s\<lparr>sv_sends := sc\<rparr>))"
  have "flush c s = Ok ?t"
    unfolding flush_def flush_with_def loop prod.case v(1) Let_def option.case ..
  moreover have "handed [] s ?t"
    using send_loop_bytes[OF loop] send_loop_shrinks[OF loop] v(2) by (auto simp: handed_def stream_def healthy_def)
  ultimately show ?thesis by blast
qed

lemma flush_follows:
  assumes "faithful s (h, p)" "\<not> cl_dead (client_of s c)"
  shows "follows s (flush c s) ((h, p), [])"
proof -
  note f = faithfulD[OF assms(1)] and pr = faithful_present[OF assms(1)]
  obtain t where t: "flush c s = Ok t" "handed [] s t" using flush_hands[of s c] assms(1) by (auto simp: faithful_def)
  have "evolves s (final (flush c s))" using plumbing.flush_evolves[OF assms(2)] by (simp add: flush_def)
  then have pg: "progress X s t" for X using t(1) by (auto intro: evolves_progress)
  have g: "good {} t" using safe_flush[OF f(5) assms(2)] t(1) by (simp add: safe_def)
  have i: "server_inv t" by (rule server_inv_progress[OF f(1) pg[of "{}"] g]) simp
  have y: "yields s (flush c s) (h, [])"
    using t g handed_sel[OF t(2)] hall_of_handed[OF t(2)] pr(3) by (simp add: yields_def)
  have "follows s (flush c s) ((h, p\<lparr>po_inbox := po_inbox p\<rparr>), [])"
  proof (rule follows_hall[OF assms(1) y t(1) i pg])
    show "hall_ok h" using assms(1) by (simp add: faithful_def)
    assume "c \<in> set (hl_present h)"
    then show "cl_rx (client_of t c) = po_inbox p c"
      using f(3) progress_rx[OF pg[of "{}"], of c] pr(1) by (simp add: mirrors_def)
  qed simp_all
  then show ?thesis by simp
qed

text \<open>Events one after the other, and room for what they post.\<close>

lemma follows_trans:
  assumes "follows s (Ok t) (w1, o1)" "follows t oc (w2, o2)"
  shows "follows s oc (w2, o1 @ o2)"
proof -
  obtain u where u: "oc = Ok u" "faithful u w2" "\<And>d. stream u d = stream t d @ posted_to d o2"
      "\<And>d. length (cl_tx (client_of u d)) \<le> length (cl_tx (client_of t d)) + length (posted_to d o2)"
    using assms(2) by (auto simp: follows_def)
  have t: "stream t d = stream s d @ posted_to d o1"
      "length (cl_tx (client_of t d)) \<le> length (cl_tx (client_of s d)) + length (posted_to d o1)" for d
    using assms(1) by (simp_all add: follows_def)
  have "length (cl_tx (client_of u d)) \<le> length (cl_tx (client_of s d)) + length (posted_to d (o1 @ o2))" for d
    using t(2)[of d] u(4)[of d] by simp
  then show ?thesis using u(1-3) t(1) by (simp add: follows_def)
qed

lemma fits_follows:
  assumes "follows s (Ok t) (w, o1)" "fits_all (o1 @ o2) s"
  shows "fits_all o2 t"
  unfolding fits_all_def
proof
  fix d
  have "length (cl_tx (client_of t d)) \<le> length (cl_tx (client_of s d)) + length (posted_to d o1)"
    using assms(1) by (simp add: follows_def)
  moreover have "length (cl_tx (client_of s d)) + length (posted_to d (o1 @ o2)) \<le> MAX_TX_BACKLOG"
    using assms(2) by (simp only: fits_all_def)
  ultimately show "length (cl_tx (client_of t d)) + length (posted_to d o2) \<le> MAX_TX_BACKLOG" by simp
qed

lemma fits_before:
  assumes "fits_all (o1 @ o2) s"
  shows "fits_all o1 s"
  unfolding fits_all_def
proof
  fix d
  have "length (cl_tx (client_of s d)) + length (posted_to d (o1 @ o2)) \<le> MAX_TX_BACKLOG"
    using assms by (simp only: fits_all_def)
  then show "length (cl_tx (client_of s d)) + length (posted_to d o1) \<le> MAX_TX_BACKLOG" by simp
qed

text \<open>A client's turn.\<close>

lemma happen_client:
  "happen (Ev_client c writable readable) w =
     (case readable of
        None \<Rightarrow> (w, [])
      | Some result \<Rightarrow> if c \<notin> set (hl_present (fst w)) then (w, [])
          else (case result of
              Recv data \<Rightarrow> if data = [] then hang_up c w else hear c data w
            | Recv_blocks \<Rightarrow> (w, []) | Recv_fails \<Rightarrow> hang_up c w))"
  by (cases readable) (auto split: recv_result.split)

lemma turn_follows:
  assumes "faithful s w" "fits_all (snd (happen (Ev_client c writable readable) w)) s"
  shows "follows s (serve_client c writable readable s) (happen (Ev_client c writable readable) w)"
proof -
  obtain h p where w: "w = (h, p)" by (cases w)
  let ?flushed = "if writable \<and> \<not> cl_dead (client_of s c) then flush c s else Ok s"
  have fl: "follows s ?flushed (w, [])"
    using flush_follows[of s h p c] follows_still assms(1) by (simp add: w)
  then obtain s1 where s1: "?flushed = Ok s1" "faithful s1 (h, p)" by (auto simp: follows_def w)
  note pr = faithful_present[OF s1(2)]
  have room: "roomy (snd (happen (Ev_client c writable readable) w)) s1"
    using fits_roomy[OF fits_follows[of s s1 w "[]"]] fl assms(2) s1(1) by simp
  let ?turn = "case readable of None \<Rightarrow> Ok s1
      | Some result \<Rightarrow> if \<not> cl_dead (client_of s1 c) then service c result s1 else Ok s1"
  have "follows s1 ?turn (happen (Ev_client c writable readable) w)"
  proof (cases readable)
    case None
    then show ?thesis using follows_still[OF s1(2)] by (simp add: happen_client w)
  next
    case (Some result)
    show ?thesis
    proof (cases "c \<in> set (hl_present h)")
      case False
      then show ?thesis using follows_still[OF s1(2)] Some pr(2)[of c] by (simp add: happen_client w)
    next
      case True
      then have alive: "\<not> cl_dead (client_of s1 c)" using pr(2)[of c] by simp
      show ?thesis
      proof (cases result)
        case (Recv data)
        have "service c result s1 = drop c Peer_closed s1" if "data = []" using that Recv by (simp add: service_def)
        then show ?thesis
          using hang_up_follows[OF s1(2) True, of Peer_closed] hear_follows[OF s1(2) True, of data] room alive True
          unfolding happen_client by (cases "data = []") (simp_all add: Some Recv w)
      next
        case Recv_blocks
        then show ?thesis using follows_still[OF s1(2)] alive True unfolding happen_client
          by (simp add: Some w service_def)
      next
        case Recv_fails
        then show ?thesis
          using hang_up_follows[OF s1(2) True, of Recv_error] room alive True unfolding happen_client
          by (simp add: Some w service_def)
      qed
    qed
  qed
  then have "follows s1 ?turn (fst (happen (Ev_client c writable readable) w), snd (happen (Ev_client c writable readable) w))"
    by simp
  from follows_trans[OF fl[unfolded s1(1)] this]
  have turn: "follows s ?turn (happen (Ev_client c writable readable) w)" by simp
  then obtain t where "?turn = Ok t" by (auto simp: follows_def)
  moreover have "serve_try c writable readable s = ?turn"
    using s1(1) by (simp add: serve_try_def)
  ultimately show ?thesis using turn by (simp add: serve_client_def)
qed

text \<open>What the machine does not see.\<close>

lemma follows_aside:
  assumes "faithful s w" "server_inv t" "sv_client t = sv_client s" "sv_room t = sv_room s"
    and "sv_by_name t = sv_by_name s" "sv_clients t = sv_clients s" "sv_rands t = sv_rands s"
    and "sv_delay t = sv_delay s" "sv_auto_go t = sv_auto_go s" "sv_next_cid t = sv_next_cid s" "sv_sends t = sv_sends s"
  shows "follows s (Ok t) (w, [])"
proof -
  have "table_of t = table_of s" by (rule table_of_cong) (simp_all add: assms)
  then have "hall_of t = hall_of s" by (simp add: hall_of_def assms)
  then show ?thesis
    using assms(1,2) by (simp add: follows_def faithful_def mirrors_def healthy_def stream_def assms(3-11))
qed

lemma hall_ok_arrival:
  assumes "hall_ok h"
  shows "hall_ok (h\<lparr>hl_present := hl_present h @ [c]\<rparr>)"
proof -
  have "seating (h\<lparr>hl_present := hl_present h @ [c]\<rparr>)"
  proof (rule seatingI)
    fix d st a b assume "hl_table (h\<lparr>hl_present := hl_present h @ [c]\<rparr>) d = Some (st, a, b)"
    then have "hl_table h d = Some (st, a, b)" by simp
    from seatingD[OF assms this]
    show "a \<noteq> b \<and> (d = a \<or> d = b) \<and> hl_table (h\<lparr>hl_present := hl_present h @ [c]\<rparr>) a = Some (st, a, b) \<and>
      hl_table (h\<lparr>hl_present := hl_present h @ [c]\<rparr>) b = Some (st, a, b) \<and>
      a \<in> set (hl_present (h\<lparr>hl_present := hl_present h @ [c]\<rparr>)) \<and> b \<in> set (hl_present (h\<lparr>hl_present := hl_present h @ [c]\<rparr>)) \<and>
      a \<in> snd ` set (hl_names (h\<lparr>hl_present := hl_present h @ [c]\<rparr>)) \<and>
      b \<in> snd ` set (hl_names (h\<lparr>hl_present := hl_present h @ [c]\<rparr>))" by simp
  qed
  then show ?thesis using assms by (auto simp: hall_ok_def)
qed

lemma accept_follows:
  assumes "faithful s w" "\<not> accept_failure (Ev_accept (Accepted addr opts_ok) now) s"
  shows "follows s (accept (Accepted addr opts_ok) now s) (take_in (fst addr) now w, [])"
proof -
  obtain h p where w: "w = (h, p)" by (cases w)
  note f = faithfulD[OF assms(1)] and pr = faithful_present[OF assms(1)[unfolded w]]
  have ip: "per_ip (fst addr) s = length (filter (\<lambda>c. po_from p c = fst addr) (hl_present h))"
    unfolding per_ip_def pr(1) using f(3)
    by (intro arg_cong[where f = length] filter_cong) (auto simp: mirrors_def w)
  show ?thesis
  proof (cases "length (sv_clients s) \<ge> MAX_CLIENTS \<or> per_ip (fst addr) s \<ge> MAX_CONNECTIONS_PER_IP")
    case True
    then have st: "take_in (fst addr) now w = w" by (auto simp: take_in_def w ip pr(1))
    obtain m where "accept (Accepted addr opts_ok) now s = Ok (add_log m (bump_rejections s))"
      using True unfolding accept_def accept_result.case by (cases "length (sv_clients s) \<ge> MAX_CLIENTS") auto
    moreover have "follows s (Ok (add_log m (bump_rejections s))) (w, [])"
      by (rule follows_aside[OF assms(1)]) (use f(1) in \<open>simp_all add: bump_rejections_def\<close>)
    ultimately show ?thesis by (simp add: st)
  next
    case False
    then have lim: "length (sv_clients s) < MAX_CLIENTS" "per_ip (fst addr) s < MAX_CONNECTIONS_PER_IP" and ok: opts_ok
      using assms(2) by auto
    let ?c = "sv_next_cid s" and ?t = "admitted addr now s"
    have acc: "accept (Accepted addr opts_ok) now s = Ok ?t" using accept_admits[OF lim] ok by simp
    have c: "po_next p = ?c" "stream s ?c = []" using f(3) by (simp_all add: mirrors_def w)
    have un: "cl_room (client_of s ?c) = None" "?c \<notin> set (sv_clients s)"
      using f(5) by (auto simp: good_def core_def rooms_ok_def conns_ok_def) (metis less_irrefl not_Some_eq)
    let ?h = "h\<lparr>hl_present := hl_present h @ [?c]\<rparr>"
    let ?p = "p\<lparr>po_next := Suc ?c, po_inbox := (po_inbox p)(?c := []), po_from := (po_from p)(?c := fst addr),
        po_since := (po_since p)(?c := now)\<rparr>"
    have st: "take_in (fst addr) now w = (?h, ?p)" using lim by (simp add: take_in_def w ip pr(1) c(1) not_le)
    have "table_of ?t = table_of s"
      by (rule table_of_cong) (simp_all add: Client_init_def un(1))
    then have "hall_of ?t = ?h" using pr(3) by (auto simp: hall_of_def admitted_def Let_def)
    then have "mirrors ?t (?h, ?p)"
      using f(3) un(2) by (auto simp: mirrors_def w Client_init_def stream_def)
    moreover have "server_inv ?t" by (rule server_inv_admitted[OF f(1) lim])
    moreover have "healthy ?t" using assms(1) by (simp add: faithful_def healthy_def admitted_def Let_def)
    moreover have "hall_ok ?h" using assms(1) by (simp add: faithful_def w hall_ok_arrival)
    moreover have "stream ?t d = stream s d \<and> length (cl_tx (client_of ?t d)) \<le> length (cl_tx (client_of s d))" for d
      using c(2) by (cases "d = ?c") (simp_all add: stream_def Client_init_def)
    ultimately show ?thesis by (simp add: acc st follows_def faithful_def)
  qed
qed

lemma sweep_follows:
  assumes "faithful s (h, p)" "distinct order" "set order \<subseteq> set (hl_present h)"
  shows "follows s (sweep order now s)
    ((h\<lparr>hl_present := filter (\<lambda>c. c \<notin> set order \<or> nick h c \<noteq> None \<or> now - po_since p c \<le> HELLO_TIMEOUT) (hl_present h)\<rparr>, p), [])"
  using assms
proof (induction order arbitrary: s h)
  case Nil
  then show ?case by (simp add: follows_still)
next
  case (Cons c order)
  note f = faithfulD[OF Cons.prems(1)] and pr = faithful_present[OF Cons.prems(1)]
  have c: "c \<in> set (hl_present h)" "\<not> cl_dead (client_of s c)" using Cons.prems(3) pr(2)[of c] by simp_all
  have nm: "cl_name (client_of s c) = nick h c" using alive_nick[OF f(5) c(2)] pr(3) by simp
  have since: "cl_connected_at (client_of s c) = po_since p c" using f(3) c(1) pr(1) by (simp add: mirrors_def)
  show ?case
  proof (cases "nick h c = None \<and> now - po_since p c > HELLO_TIMEOUT")
    case False
    then have st: "sweep (c # order) now s = sweep order now s"
      unfolding sweep.simps nm since by (rule if_not_P)
    have fl: "filter (\<lambda>x. x \<notin> set (c # order) \<or> nick h x \<noteq> None \<or> now - po_since p x \<le> HELLO_TIMEOUT) (hl_present h) =
        filter (\<lambda>x. x \<notin> set order \<or> nick h x \<noteq> None \<or> now - po_since p x \<le> HELLO_TIMEOUT) (hl_present h)"
      using False by (intro filter_cong) auto
    show ?thesis unfolding st fl using Cons.IH[OF Cons.prems(1)] Cons.prems(2,3) by simp
  next
    case True
    let ?s1 = "s\<lparr>sv_stats := (sv_stats s)\<lparr>st_hello_timeouts := st_hello_timeouts (sv_stats s) + 1\<rparr>\<rparr>"
    have f1: "follows s (Ok ?s1) ((h, p), [])"
      by (rule follows_aside[OF Cons.prems(1)]) (use f(1) in simp_all)
    then have fs1: "faithful ?s1 (h, p)" by (simp add: follows_def)
    have un: "c \<notin> snd ` set (hl_names h)" using True by (simp add: nick_None)
    have "hl_table h c = None"
    proof (cases "hl_table h c")
      case (Some tb)
      have "hall_ok h" using Cons.prems(1) by (simp add: faithful_def)
      then show ?thesis using seatingD(2,7,8)[of h c "fst tb" "fst (snd tb)" "snd (snd tb)"] Some un by auto
    qed
    moreover have "filter (\<lambda>(n, x). x \<noteq> c) (hl_names h) = hl_names h"
      using un by (intro filter_True) force
    ultimately have dep: "depart c h = (h\<lparr>hl_present := removeAll c (hl_present h)\<rparr>, [])"
      by (simp add: depart_def)
    let ?h1 = "h\<lparr>hl_present := removeAll c (hl_present h)\<rparr>"
    have hu: "hang_up c (h, p) = ((?h1, p), [])" by (simp add: hang_up_def dep)
    have "tx_ok ?s1" using f(5) by (simp add: good_def core_def tx_ok_def)
    then have "roomy [] ?s1" by (simp add: roomy_def tx_ok_def)
    then have d: "follows ?s1 (drop c No_hello ?s1) ((?h1, p), [])"
      using hang_up_follows[OF fs1 c(1), of No_hello] by (simp add: hu)
    then obtain t where t: "drop c No_hello ?s1 = Ok t" "faithful t (?h1, p)" by (auto simp: follows_def)
    have st: "sweep (c # order) now s = sweep order now t" using True t(1) by (simp add: nm since)
    have sub: "set order \<subseteq> set (hl_present ?h1)" using Cons.prems(2,3) by auto
    have fl: "filter (\<lambda>x. x \<notin> set order \<or> nick ?h1 x \<noteq> None \<or> now - po_since p x \<le> HELLO_TIMEOUT) (hl_present ?h1) =
        filter (\<lambda>x. x \<notin> set (c # order) \<or> nick h x \<noteq> None \<or> now - po_since p x \<le> HELLO_TIMEOUT) (hl_present h)"
      using True Cons.prems(2) by (auto simp: removeAll_filter_not_eq nick_def intro!: filter_cong)
    have "follows t (sweep order now t)
      ((?h1\<lparr>hl_present := filter (\<lambda>x. x \<notin> set order \<or> nick ?h1 x \<noteq> None \<or> now - po_since p x \<le> HELLO_TIMEOUT) (hl_present ?h1)\<rparr>, p), [])"
      using Cons.IH[OF t(2) _ sub] Cons.prems(2) by simp
    then have "follows t (sweep order now t)
      ((h\<lparr>hl_present := filter (\<lambda>x. x \<notin> set (c # order) \<or> nick h x \<noteq> None \<or> now - po_since p x \<le> HELLO_TIMEOUT) (hl_present h)\<rparr>, p), [])"
      unfolding fl by simp
    from follows_trans[OF follows_trans[OF f1 d[unfolded t(1)]] this] show ?thesis unfolding st by simp
  qed
qed

text \<open>
  The events the machine can tell to be possible: \<open>accept\<close> and the socket calls after
  it succeed, a client's turn is of a connection that was once accepted, and the sweep covers
  the clients.  (A step of the lobby's worker depends on the publisher, which no client sees.)
\<close>

fun admissible :: "event \<Rightarrow> house \<Rightarrow> bool" where
  "admissible (Ev_accept (Accepted addr opts_ok) now) w \<longleftrightarrow> opts_ok"
| "admissible (Ev_accept Accept_fails now) w \<longleftrightarrow> False"
| "admissible (Ev_client c writable readable) w \<longleftrightarrow> c < po_next (snd w)"
| "admissible (Ev_sweep order now) w \<longleftrightarrow> distinct order \<and> set order = set (hl_present (fst w))"
| "admissible Ev_stats w \<longleftrightarrow> True"
| "admissible (Ev_lobby p) w \<longleftrightarrow> False"

fun all_admissible :: "event list \<Rightarrow> house \<Rightarrow> bool" where
  "all_admissible [] w \<longleftrightarrow> True"
| "all_admissible (e # es) w \<longleftrightarrow> admissible e w \<and> all_admissible es (fst (happen e w))"

fun run_events :: "event list \<Rightarrow> server \<Rightarrow> outcome" where
  "run_events [] s = Ok s"
| "run_events (e # es) s = andthen (run_event e s) (run_events es)"

lemma event_follows:
  assumes "faithful s w" "admissible e w" "fits_all (snd (happen e w)) s"
  shows "follows s (run_event e s) (happen e w)"
proof (cases e)
  case (Ev_accept result now)
  with assms show ?thesis
    using accept_follows[OF assms(1)] by (cases result) (auto simp del: accept_failure.simps(1))
next
  case (Ev_client c writable readable)
  then show ?thesis using turn_follows[OF assms(1)] assms(3) by simp
next
  case (Ev_sweep order now)
  obtain h p where w: "w = (h, p)" by (cases w)
  have o: "distinct order" "set order = set (hl_present h)" using assms(2) by (simp_all add: Ev_sweep w)
  have fl: "filter (\<lambda>c. c \<notin> set order \<or> nick h c \<noteq> None \<or> now - po_since p c \<le> HELLO_TIMEOUT) (hl_present h) =
      filter (\<lambda>c. nick h c \<noteq> None \<or> now - po_since p c \<le> HELLO_TIMEOUT) (hl_present h)"
    using o(2) by (intro filter_cong) auto
  have "set order \<subseteq> set (hl_present h)" by (simp add: o(2))
  from sweep_follows[OF assms(1)[unfolded w] o(1) this, of now] show ?thesis
    unfolding Ev_sweep w fl by (simp add: dismiss_def)
next
  case Ev_stats
  have i: "server_inv s" using assms(1) by (simp add: faithful_def)
  then obtain t where t: "run_event e s = Ok t" "server_inv t"
    using run_event_inv[OF i, of e] Ev_stats by auto
  have "follows s (Ok t) (w, [])"
    by (rule follows_aside[OF assms(1) t(2)]) (use t(1) Ev_stats in \<open>auto simp: log_stats_def Let_def split: if_splits\<close>)
  then show ?thesis using t(1) by (simp add: Ev_stats)
next
  case (Ev_lobby p)
  then show ?thesis using assms(2) by simp
qed

lemma events_follow:
  assumes "faithful s w" "all_admissible es w" "fits_all (snd (happenings es w)) s"
  shows "follows s (run_events es s) (happenings es w)"
  using assms
proof (induction es arbitrary: s w)
  case Nil
  then show ?case by (simp add: follows_still)
next
  case (Cons e es)
  define w1 o1 where wo: "w1 = fst (happen e w)" "o1 = snd (happen e w)"
  have spec: "happenings (e # es) w = (fst (happenings es w1), o1 @ snd (happenings es w1))"
    by (simp add: wo case_prod_unfold)
  have f1: "fits_all o1 s" using Cons.prems(3) fits_before unfolding spec by simp
  have "follows s (run_event e s) (w1, o1)"
    using event_follows[OF Cons.prems(1), of e] Cons.prems(2) f1 by (simp add: wo)
  then obtain t where t: "run_event e s = Ok t" "faithful t w1" "follows s (Ok t) (w1, o1)"
    by (auto simp: follows_def)
  have "fits_all (snd (happenings es w1)) t"
    by (rule fits_follows[OF t(3)]) (use Cons.prems(3) spec in simp)
  then have "follows t (run_events es t) (fst (happenings es w1), snd (happenings es w1))"
    using Cons.IH[OF t(2)] Cons.prems(2) by (simp add: wo)
  from follows_trans[OF t(3) this] show ?case unfolding spec using t(1) by simp
qed

section \<open>Properties\<close>

text \<open>
  C2 (the relay refines its contract): as long as the sockets accept data and what is posted fits
  the queues, every sequence of events of the loop, accepting connections, reading any bytes cut
  into any segments, broken connections, sweeps, returns normally, leads to a server whose
  clients, names, rooms, seeds and receive buffers are those of the machine, keeps the invariant,
  and has queued for every client, after what it had queued before, exactly the messages the
  machine posts to that client, in that order.
\<close>

theorem relay_refines_machine:
  assumes "faithful s w" "all_admissible es w"
    and "\<forall>d. length (cl_tx (client_of s d)) + length (posted_to d (snd (happenings es w))) \<le> MAX_TX_BACKLOG"
  shows "\<exists>t. run_events es s = Ok t \<and> server_inv t \<and> mirrors t (fst (happenings es w)) \<and>
    hall_of t = fst (fst (happenings es w)) \<and> hall_ok (hall_of t) \<and>
    (\<forall>d. stream t d = stream s d @ posted_to d (snd (happenings es w)))"
proof -
  have "fits_all (snd (happenings es w)) s" using assms(3) by (simp add: fits_all_def)
  from events_follow[OF assms(1,2) this] show ?thesis
    by (auto simp: follows_def faithful_def mirrors_def)
qed

text \<open>The house before anybody came.\<close>

definition empty_house :: "int \<Rightarrow> int \<Rightarrow> nat list \<Rightarrow> house" where
  "empty_house delay auto_go rands =
     (\<lparr>hl_present = [], hl_names = [], hl_table = (\<lambda>_. None), hl_draws = rands, hl_delay = delay, hl_auto = auto_go\<rparr>,
      \<lparr>po_next = 0, po_inbox = (\<lambda>_. []), po_from = (\<lambda>_. []), po_since = (\<lambda>_. 0)\<rparr>)"

lemma faithful_start:
  assumes "0 \<le> delay" "delay < 256" "list_all (\<lambda>r. r \<noteq> Send_fails \<and> r \<noteq> Sent 0) sends"
  shows "faithful (Server_init port delay None auto_go sends rands) (empty_house delay auto_go rands)"
proof -
  let ?s = "Server_init port delay None auto_go sends rands"
  have "server_inv ?s" by (rule loop.invar_reach, rule server_reach_init) (use assms in simp_all)
  moreover have "table_of ?s = (\<lambda>_. None)"
    by (rule ext) (simp add: table_of_def Server_init_def Client_init_def)
  then have "hall_of ?s = fst (empty_house delay auto_go rands)"
    by (simp add: hall_of_def empty_house_def Server_init_def)
  ultimately show ?thesis
    using assms(3)
    by (simp add: faithful_def mirrors_def healthy_def empty_house_def hall_ok_def seating_def Server_init_def
        Client_init_def stream_def)
qed

lemma posted_to_length: "length (posted_to d out) \<le> sum_list (map (\<lambda>(c, m). length (snd m) + 2) out)"
  by (induction out) (auto simp: encode_msg_def)

text \<open>Evaluating the machine.\<close>

lemmas machine_simps = respond_def dialogue.simps pass_on_def greet_def show_list_def list_post_def ask_to_join_def
  ask_to_start_def sit_down_def commence_def depart_def room_post_def start_post_def nick_def nick_field_def Let_def
  RELAY_TYPES_def T_defs PROTO_VER_def seed_of_def

lemmas house_simps = happenings.simps happen.simps hear_def hang_up_def take_in_def dismiss_def empty_house_def
  MAX_CLIENTS_def MAX_CONNECTIONS_PER_IP_def

text \<open>A session with a frame split over two segments and two frames in one.\<close>

definition session :: "event list" where
  "session =
     [Ev_accept (Accepted (''10.0.0.1'', 4000) True) 0, Ev_accept (Accepted (''10.0.0.2'', 4001) True) 1,
      Ev_client 0 False (Some (Recv [7, 1, 2, 65])), Ev_client 0 False (Some (Recv [76, 73, 67, 69])),
      Ev_client 1 False (Some (Recv [5, 1, 2, 66, 79, 66, 6, 4, 65, 76, 73, 67, 69])),
      Ev_client 0 True (Some (Recv [1, 15])),
      Ev_client 1 False (Some (Recv [6, 6, 1, 0, 0, 64, 0])),
      Ev_client 1 False (Some (Recv [1, 10]))]"

lemma session_names:
  "wire_name [65, 76, 73, 67, 69] = ''ALICE''" "valid_name ''ALICE''" "name_field ''ALICE'' = [65, 76, 73, 67, 69, 0, 0, 0]"
  "wire_name [66, 79, 66] = ''BOB''" "valid_name ''BOB''" "name_field ''BOB'' = [66, 79, 66, 0, 0, 0, 0, 0]"
  by code_simp+

lemma session_bytes:
  "decode [7, 1, 2, 65] = ([], [7, 1, 2, 65], False)"
  "decode [7, 1, 2, 65, 76, 73, 67, 69] = ([(1, [2, 65, 76, 73, 67, 69])], [], False)"
  "decode [5, 1, 2, 66, 79, 66, 6, 4, 65, 76, 73, 67, 69] = ([(1, [2, 66, 79, 66]), (4, [65, 76, 73, 67, 69])], [], False)"
  "decode [1, 15] = ([(15, [])], [], False)"
  "decode [6, 6, 1, 0, 0, 64, 0] = ([(6, [1, 0, 0, 64, 0])], [], False)"
  "decode [1, 10] = ([(10, [])], [], False)"
  by code_simp+

definition session_posts :: "post list" where
  "session_posts =
     (let names = [65, 76, 73, 67, 69, 0, 0, 0] @ [66, 79, 66, 0, 0, 0, 0, 0] @ replicate 16 0 in
      [(0, T_LOBBY, [0]), (1, T_LOBBY, [1, 65, 76, 73, 67, 69, 0, 0, 0, 1]),
       (0, T_ROOM, 2 # names), (1, T_ROOM, 2 # names),
       (0, T_START, [0, 2, 0x35, 0x12, 3] @ names), (1, T_START, [1, 2, 0x35, 0x12, 3] @ names),
       (0, T_INPUT, [1, 0, 0, 64, 0]), (0, T_PEER_LEFT, [1, 66, 79, 66, 0, 0, 0, 0, 0])])"

lemma session_runs:
  "snd (happenings session (empty_house 3 0 [0x1234])) = session_posts"
  "all_admissible session (empty_house 3 0 [0x1234])"
  "hl_names (fst (fst (happenings session (empty_house 3 0 [0x1234])))) = [(''ALICE'', 0)]"
  by (simp_all add: session_def session_posts_def machine_simps house_simps session_names session_bytes)

theorem relay_refines_machine_witness:
  "\<exists>t. run_events session (Server_init 6502 3 None 0 [] [0x1234]) = Ok t \<and> sv_by_name t = [(''ALICE'', 0)] \<and>
     stream t 0 = posted_to 0 session_posts \<and> stream t 1 = posted_to 1 session_posts"
proof -
  let ?s = "Server_init 6502 3 None 0 [] [0x1234]" and ?w = "empty_house 3 0 [0x1234]"
  have f: "faithful ?s ?w" by (rule faithful_start) simp_all
  have "sum_list (map (\<lambda>(c, m). length (snd m) + 2) session_posts) \<le> MAX_TX_BACKLOG"
    by (simp add: session_posts_def MAX_TX_BACKLOG_def Let_def)
  then have room: "\<forall>d. length (cl_tx (client_of ?s d)) + length (posted_to d (snd (happenings session ?w))) \<le> MAX_TX_BACKLOG"
    using posted_to_length[of _ session_posts] unfolding session_runs
    by (auto simp: Server_init_def Client_init_def intro: le_trans)
  from relay_refines_machine[OF f session_runs(2) room] obtain t where t: "run_events session ?s = Ok t"
      "hall_of t = fst (fst (happenings session ?w))" "\<forall>d. stream t d = stream ?s d @ posted_to d session_posts"
    unfolding session_runs by blast
  have "sv_by_name t = [(''ALICE'', 0)]" using session_runs(3) by (simp flip: t(2))
  then show ?thesis using t(1,3) by (simp add: stream_def Server_init_def Client_init_def)
qed

end
