(* ===== verification/Relay_Main.thy ===== *)
theory Relay_Main
  imports Relay_Props Relay_Contract
begin

text \<open>
  The server process of server/intv_relay_server.py: \<open>main\<close> from the parsed options to the
  \<open>finally\<close> that shuts the lobby publisher down, and \<open>run\<close> with its clocks: one pass
  over what \<open>select\<close> returned, then the sweep and the statistics when they are due.
\<close>

section \<open>Options\<close>

text \<open>The namespace \<open>ap.parse_args()\<close> returns, and its defaults.\<close>

record options =
  op_port :: nat
  op_game_name :: string
  op_server_name :: string
  op_delay :: int
  op_auto_go :: int
  op_debug :: bool
  op_lobby_enabled :: bool
  op_lobby_url :: string
  op_lobby_serverurl :: string
  op_lobby_client_url :: string
  op_lobby_appkey :: int

definition default_options :: options where
  "default_options =
     \<lparr>op_port = 9112, op_game_name = ''PGA Golf'', op_server_name = ''Golf Netplay'', op_delay = DEFAULT_DELAY,
      op_auto_go = 0, op_debug = False, op_lobby_enabled = False, op_lobby_url = ''https://lobby.fujinet.online'',
      op_lobby_serverurl = ''TCP://fujinet.online:9111/'',
      op_lobby_client_url = ''TNFS://apps.irata.online/Intellivision/Games/PGAGolf.rom'', op_lobby_appkey = 20\<rparr>"

text \<open>The publisher that \<open>main\<close> creates, with \<open>lobby.update(0)\<close>.\<close>

definition start_lobby :: "options \<Rightarrow> publisher option" where
  "start_lobby op =
     (if op_lobby_enabled op
      then Some (update 0 (publisher_init (op_lobby_url op) (op_lobby_serverurl op) (op_lobby_client_url op)
             (op_lobby_appkey op) ''us'' (op_game_name op) (op_server_name op)))
      else None)"

definition start_server :: "options \<Rightarrow> send_result list \<Rightarrow> nat list \<Rightarrow> server" where
  "start_server op sends rands =
     Server_init (op_port op) (op_delay op) (start_lobby op) (op_auto_go op) sends rands"

section \<open>The loop with its clocks\<close>

text \<open>\<open>lo_clock\<close> is the time the loop read last.\<close>

record looping =
  lo_server :: server
  lo_sweep :: time
  lo_stats :: time
  lo_clock :: time

definition loop_begin :: "time \<Rightarrow> server \<Rightarrow> looping" where
  "loop_begin now s = \<lparr>lo_server = s, lo_sweep = now, lo_stats = now, lo_clock = now\<rparr>"

text \<open>
  One turn of \<open>while True\<close>: the events \<open>select\<close> returned, in their order, then the two
  periodic duties.  \<open>order\<close> is the order in which the set of clients is iterated.
\<close>

definition run_pass :: "event list \<Rightarrow> cid list \<Rightarrow> time \<Rightarrow> looping \<Rightarrow> (exn \<times> server) + looping" where
  "run_pass evs order now l =
     (case run_events evs (lo_server l) of
        Raise e t \<Rightarrow> Inl (e, t)
      | Ok t \<Rightarrow>
          (let due = now - lo_sweep l \<ge> 1; report = now - lo_stats l \<ge> STATS_INTERVAL in
           case (if due then sweep order now t else Ok t) of
             Raise e u \<Rightarrow> Inl (e, u)
           | Ok u \<Rightarrow> Inr \<lparr>lo_server = (if report then log_stats u else u),
                          lo_sweep = (if due then now else lo_sweep l),
                          lo_stats = (if report then now else lo_stats l), lo_clock = now\<rparr>))"

text \<open>
  What a pass can meet: connections and clients that are ready, at times between the last
  reading of the clock and this one, and steps of the lobby's worker thread in between.
\<close>

fun in_pass :: "time \<Rightarrow> time \<Rightarrow> event \<Rightarrow> bool" where
  "in_pass lo hi (Ev_accept result now) = (lo \<le> now \<and> now \<le> hi)"
| "in_pass lo hi (Ev_client c writable readable) = True"
| "in_pass lo hi (Ev_lobby p) = True"
| "in_pass lo hi _ = False"

fun all_enabled :: "event list \<Rightarrow> server \<Rightarrow> bool" where
  "all_enabled [] s = True"
| "all_enabled (e # es) s = (enabled e s \<and> (case run_event e s of Ok t \<Rightarrow> all_enabled es t | Raise x t \<Rightarrow> True))"

definition pass_ok :: "event list \<Rightarrow> cid list \<Rightarrow> time \<Rightarrow> looping \<Rightarrow> bool" where
  "pass_ok evs order now l \<longleftrightarrow>
     lo_clock l \<le> now \<and> list_all (in_pass (lo_clock l) now) evs \<and> all_enabled evs (lo_server l) \<and>
     (case run_events evs (lo_server l) of
        Ok t \<Rightarrow> distinct order \<and> set order = set (sv_clients t) | Raise x t \<Rightarrow> True)"

section \<open>The process\<close>

datatype cause = Raised exn | Interrupted

text \<open>
  Before the listening socket is ready, in the loop, in \<open>lobby.shutdown()\<close>, ended with its
  exception; or ended by SIGTERM, for which the program has no handler, so no \<open>finally\<close> runs.
\<close>

datatype process =
    Pr_listen server
  | Pr_loop looping
  | Pr_stop cause publisher
  | Pr_exit cause "publisher option"
  | Pr_killed "publisher option"

definition main_start :: "options \<Rightarrow> send_result list \<Rightarrow> nat list \<Rightarrow> process" where
  "main_start op sends rands = Pr_listen (start_server op sends rands)"

definition main_finally :: "cause \<Rightarrow> server \<Rightarrow> process" where
  "main_finally e s =
     (case sv_lobby s of None \<Rightarrow> Pr_exit e None | Some p \<Rightarrow> Pr_stop e (shutdown_begin p))"

text \<open>A KeyboardInterrupt is taken where the loop waits, in \<open>select\<close>.\<close>

inductive proc_step :: "process \<Rightarrow> process \<Rightarrow> bool" where
  listening: "proc_step (Pr_listen s) (Pr_loop (loop_begin now s))"
| not_listening: "proc_step (Pr_listen s) (main_finally (Raised OSError) s)"
| listen_worker: "enabled (Ev_lobby p) s \<Longrightarrow> proc_step (Pr_listen s) (Pr_listen (s\<lparr>sv_lobby := Some p\<rparr>))"
| pass_done: "pass_ok evs order now l \<Longrightarrow> run_pass evs order now l = Inr l' \<Longrightarrow> proc_step (Pr_loop l) (Pr_loop l')"
| pass_raised: "pass_ok evs order now l \<Longrightarrow> run_pass evs order now l = Inl (e, t) \<Longrightarrow>
    proc_step (Pr_loop l) (main_finally (Raised e) t)"
| interrupted: "proc_step (Pr_loop l) (main_finally Interrupted (lo_server l))"
| stopping: "pb_main p \<noteq> M_done \<Longrightarrow> pub_step p q \<Longrightarrow> proc_step (Pr_stop e p) (Pr_stop e q)"
| stopped: "pb_main p = M_done \<Longrightarrow> proc_step (Pr_stop e p) (Pr_exit e (Some p))"
| killed_listening: "proc_step (Pr_listen s) (Pr_killed (sv_lobby s))"
| killed_looping: "proc_step (Pr_loop l) (Pr_killed (sv_lobby (lo_server l)))"
| killed_stopping: "proc_step (Pr_stop e p) (Pr_killed (Some p))"

definition proc_initial :: "options \<Rightarrow> process \<Rightarrow> bool" where
  "proc_initial op p \<longleftrightarrow> 0 \<le> op_delay op \<and> op_delay op < 256 \<and> (\<exists>sends rands. p = main_start op sends rands)"

abbreviation proc_reach :: "options \<Rightarrow> process \<Rightarrow> bool" where
  "proc_reach op \<equiv> reach (proc_initial op) proc_step"

section \<open>The lobby under the server\<close>

text \<open>While the server runs, its publisher is in a reachable state, and \<open>shutdown\<close> has not begun.\<close>

definition lobby_live :: "bool \<Rightarrow> server \<Rightarrow> bool" where
  "lobby_live on s \<longleftrightarrow>
     (case sv_lobby s of None \<Rightarrow> \<not> on | Some p \<Rightarrow> on \<and> pub_reach p \<and> pb_main p = M_running)"

lemma updates_live:
  "(\<lambda>p q. \<exists>n. q = update n p)\<^sup>*\<^sup>* p q \<Longrightarrow> pub_reach p \<Longrightarrow> pb_main p = M_running \<Longrightarrow> pub_reach q \<and> pb_main q = M_running"
proof (induction rule: rtranclp_induct)
  case (step y z)
  then obtain n where z: "z = update n y" by blast
  have "pub_step y z" unfolding z by (rule pub_step.p_update) (use step in blast)
  moreover have "pb_main z = M_running" using step by (auto simp: z update_def notify_def)
  ultimately show ?case using step by (auto intro: reach.reach_step)
qed simp

lemma live_published: "lobby_live on s \<Longrightarrow> published (sv_lobby s) (sv_lobby t) \<Longrightarrow> lobby_live on t"
  by (auto simp: lobby_live_def published_def split: option.splits dest: updates_live)

lemma worker_main: "worker_step p q \<Longrightarrow> pb_main q = pb_main p"
  by (erule worker_step.cases) (auto simp: pub_defs split: post_result.splits)

lemma live_worker:
  assumes "lobby_live on s" "enabled (Ev_lobby p) s"
  shows "lobby_live on (s\<lparr>sv_lobby := Some p\<rparr>)"
proof -
  obtain q where q: "sv_lobby s = Some q" "worker_step q p" using assms(2) by auto
  then have "on" "pub_reach q" "pb_main q = M_running" using assms(1) by (auto simp: lobby_live_def)
  moreover have "pb_main p = pb_main q" using q(2) by (rule worker_main)
  ultimately show ?thesis using q(2) by (auto simp: lobby_live_def intro: reach.reach_step pub_step.p_worker)
qed

section \<open>Clients that have not said hello\<close>

text \<open>Every connected client without a name has connected after \<open>t0\<close>.\<close>

definition greeted_since :: "time \<Rightarrow> server \<Rightarrow> bool" where
  "greeted_since t0 s \<longleftrightarrow>
     (\<forall>c \<in> set (sv_clients s). cl_name (client_of s c) = None \<longrightarrow> t0 \<le> cl_connected_at (client_of s c))"

lemma greeted_progress: "greeted_since t0 s \<Longrightarrow> progress X s t \<Longrightarrow> greeted_since t0 t"
  by (fastforce simp: greeted_since_def progress_def client_progress_def)

lemma greeted_admitted: "greeted_since t0 s \<Longrightarrow> t0 \<le> now \<Longrightarrow> greeted_since t0 (admitted addr now s)"
  by (auto simp: greeted_since_def Client_init_def)

lemma accept_cases:
  assumes "accept result now s = Ok t"
  shows "(\<exists>addr. t = admitted addr now s) \<or> (\<exists>m. t = add_log m (bump_rejections s))"
proof (cases result)
  case (Accepted addr opts_ok)
  then show ?thesis
    using assms accept_admits[of s addr now]
    by (cases "length (sv_clients s) < MAX_CLIENTS"; cases "per_ip (fst addr) s < MAX_CONNECTIONS_PER_IP"; cases opts_ok)
       (auto simp: accept_def simp del: split_paired_Ex)
qed (use assms in \<open>simp add: accept_def\<close>)

lemma bump_sel [simp]:
  "client_of (bump_rejections s) c = client_of s c" "sv_clients (bump_rejections s) = sv_clients s"
  "sv_lobby (bump_rejections s) = sv_lobby s"
  by (simp_all add: bump_rejections_def)

lemma event_kept:
  assumes "server_inv s" "enabled e s" "run_event e s = Ok t" "in_pass lo hi e"
    and "lobby_live on s" "greeted_since t0 s" "t0 \<le> lo"
  shows "server_inv t \<and> lobby_live on t \<and> greeted_since t0 t"
proof -
  have "\<not> accept_failure e s"
    using assms(3) by (cases "(e, s)" rule: accept_failure.cases) (auto simp: accept_def)
  then have "server_inv t" using run_event_inv[OF assms(1,2)] assms(3) by auto
  moreover have "lobby_live on t \<and> greeted_since t0 t"
  proof (cases e)
    case (Ev_accept result now)
    then have "accept result now s = Ok t" using assms(3) by simp
    then have "(\<exists>addr. t = admitted addr now s) \<or> (\<exists>m. t = add_log m (bump_rejections s))" by (rule accept_cases)
    then show ?thesis
      using assms(4-7) greeted_admitted[OF assms(6), of now] by (auto simp: Ev_accept lobby_live_def greeted_since_def)
  next
    case (Ev_client c writable readable)
    then have p: "progress {c} s t" using serve_client_progress[OF assms(1)] assms(2,3) by simp
    then have "published (sv_lobby s) (sv_lobby t)" by (simp add: progress_def)
    with p show ?thesis using live_published[OF assms(5)] greeted_progress[OF assms(6)] by blast
  next
    case (Ev_lobby p)
    then show ?thesis using live_worker[OF assms(5)] assms(2,3,6) by (auto simp: greeted_since_def)
  qed (use assms(4) in simp_all)
  ultimately show ?thesis by blast
qed

lemma events_kept:
  assumes "server_inv s" "all_enabled es s" "run_events es s = Ok t" "list_all (in_pass lo hi) es"
    and "lobby_live on s" "greeted_since t0 s" "t0 \<le> lo"
  shows "server_inv t \<and> lobby_live on t \<and> greeted_since t0 t"
  using assms
proof (induction es arbitrary: s)
  case (Cons e es)
  obtain s1 where s1: "run_event e s = Ok s1" "run_events es s1 = Ok t" using Cons.prems(3) by (auto simp: andthen_Ok_iff)
  have "server_inv s1 \<and> lobby_live on s1 \<and> greeted_since t0 s1"
    using event_kept[OF Cons.prems(1) _ s1(1) _ Cons.prems(5-7), of hi] Cons.prems(2,4) by simp
  then show ?case using Cons.IH[of s1] Cons.prems(2,4,7) s1 by simp
qed simp

text \<open>The only exception that leaves a pass is that of a failing accept.\<close>

lemma events_raise:
  assumes "server_inv s" "all_enabled es s" "run_events es s = Raise x t" "list_all (in_pass lo hi) es"
    and "lobby_live on s"
  shows "x = OSError \<and> lobby_live on t"
  using assms
proof (induction es arbitrary: s)
  case (Cons e es)
  show ?case
  proof (cases "run_event e s")
    case (Ok s1)
    have "greeted_since (Min (insert lo ((\<lambda>c. cl_connected_at (client_of s c)) ` set (sv_clients s)))) s"
      by (auto simp: greeted_since_def)
    then have "server_inv s1 \<and> lobby_live on s1"
      using event_kept[OF Cons.prems(1) _ Ok _ Cons.prems(5)] Cons.prems(2,4) by fastforce
    then show ?thesis using Cons.IH[of s1] Cons.prems(2-4) Ok by simp
  next
    case (Raise y u)
    then have "accept_failure e s" using run_event_inv[OF Cons.prems(1), of e] Cons.prems(2) by auto
    then have "u = s \<and> y = OSError"
      using Raise by (cases "(e, s)" rule: accept_failure.cases) (auto simp: accept_def split: if_splits)
    then show ?thesis using Raise Cons.prems(3,5) by simp
  qed
qed simp

section \<open>One pass\<close>

definition loop_ok :: "bool \<Rightarrow> looping \<Rightarrow> bool" where
  "loop_ok on l \<longleftrightarrow>
     server_inv (lo_server l) \<and> lobby_live on (lo_server l) \<and> lo_sweep l \<le> lo_clock l \<and> lo_clock l < lo_sweep l + 1 \<and>
     greeted_since (lo_sweep l - HELLO_TIMEOUT) (lo_server l)"

lemma log_stats_sel [simp]:
  "client_of (log_stats s) c = client_of s c" "sv_clients (log_stats s) = sv_clients s" "sv_lobby (log_stats s) = sv_lobby s"
  "server_inv (log_stats s) = server_inv s"
  by (simp_all add: log_stats_def Let_def)

lemma greeted_log_stats [simp]: "greeted_since t0 (log_stats s) = greeted_since t0 s" "lobby_live on (log_stats s) = lobby_live on s"
  by (simp_all add: greeted_since_def lobby_live_def)

lemma sweep_kept:
  assumes "server_inv s" "lobby_live on s" "distinct order" "set order = set (sv_clients s)"
  shows "\<exists>t. sweep order now s = Ok t \<and> server_inv t \<and> lobby_live on t \<and> greeted_since (now - HELLO_TIMEOUT) t"
proof -
  have g: "good {} s" using assms(1) by (simp add: server_inv_def)
  obtain t where t: "sweep order now s = Ok t"
    "\<forall>c. client_of t c = (if c \<in> set order \<and> overdue now (client_of s c)
        then (client_of s c)\<lparr>cl_dead := True, cl_closed := True\<rparr> else client_of s c)"
    using sweep_effect[OF g assms(3)] assms(4) by blast
  have "progress {} s t" using sweep_safe[OF g, of order now] t(1) by simp
  then have p: "published (sv_lobby s) (sv_lobby t)" "set (sv_clients t) \<subseteq> set order" using assms(4) by (simp_all add: progress_def)
  have inv: "server_inv t" using run_event_inv[OF assms(1), of "Ev_sweep order now"] assms(3,4) t(1) by simp
  have "greeted_since (now - HELLO_TIMEOUT) t"
    unfolding greeted_since_def
  proof (intro ballI impI)
    fix c
    assume c: "c \<in> set (sv_clients t)" "cl_name (client_of t c) = None"
    have "\<not> cl_dead (client_of t c)" using inv c(1) by (auto simp: server_inv_def good_def core_def conns_ok_def)
    then have "\<not> overdue now (client_of s c)" "client_of t c = client_of s c" using t(2) c(1) p(2) by auto
    then show "now - HELLO_TIMEOUT \<le> cl_connected_at (client_of t c)" using c(2) by (simp add: overdue_def)
  qed
  then show ?thesis using t(1) inv live_published[OF assms(2) p(1)] by blast
qed

lemma pass_kept:
  assumes "loop_ok on l" "pass_ok evs order now l" "run_pass evs order now l = Inr l'"
  shows "loop_ok on l'"
proof -
  obtain t where t: "run_events evs (lo_server l) = Ok t" using assms(3) by (auto simp: run_pass_def split: outcome.splits)
  have pre: "server_inv (lo_server l)" "lobby_live on (lo_server l)" "greeted_since (lo_sweep l - HELLO_TIMEOUT) (lo_server l)"
    "lo_sweep l - HELLO_TIMEOUT \<le> lo_clock l" "lo_sweep l \<le> lo_clock l" "lo_clock l \<le> now"
    using assms(1,2) by (simp_all add: loop_ok_def pass_ok_def HELLO_TIMEOUT_def)
  have ok: "all_enabled evs (lo_server l)" "list_all (in_pass (lo_clock l) now) evs" "distinct order" "set order = set (sv_clients t)"
    using assms(2) t by (simp_all add: pass_ok_def)
  have k: "server_inv t" "lobby_live on t" "greeted_since (lo_sweep l - HELLO_TIMEOUT) t"
    using events_kept[OF pre(1) ok(1) t ok(2) pre(2-4)] by simp_all
  obtain u where u: "sweep order now t = Ok u" "server_inv u" "lobby_live on u" "greeted_since (now - HELLO_TIMEOUT) u"
    using sweep_kept[OF k(1,2) ok(3,4), of now] by blast
  show ?thesis
    using assms(3) t k u pre(5,6)
    by (cases "now - lo_sweep l \<ge> 1"; cases "now - lo_stats l \<ge> STATS_INTERVAL") (auto simp: run_pass_def loop_ok_def)
qed

lemma pass_raises:
  assumes "loop_ok on l" "pass_ok evs order now l" "run_pass evs order now l = Inl (x, t)"
  shows "x = OSError \<and> lobby_live on t"
proof (cases "run_events evs (lo_server l)")
  case (Ok u)
  have pre: "server_inv (lo_server l)" "lobby_live on (lo_server l)" "greeted_since (lo_sweep l - HELLO_TIMEOUT) (lo_server l)"
    "lo_sweep l - HELLO_TIMEOUT \<le> lo_clock l" using assms(1) by (simp_all add: loop_ok_def HELLO_TIMEOUT_def)
  have ok: "all_enabled evs (lo_server l)" "list_all (in_pass (lo_clock l) now) evs" "distinct order" "set order = set (sv_clients u)"
    using assms(2) Ok by (simp_all add: pass_ok_def)
  have "server_inv u" "lobby_live on u" using events_kept[OF pre(1) ok(1) Ok ok(2) pre(2-4)] by simp_all
  then obtain v where "sweep order now u = Ok v" using sweep_kept[OF _ _ ok(3,4)] by blast
  then show ?thesis using assms(3) Ok by (simp add: run_pass_def Let_def split: if_splits)
next
  case (Raise y u)
  have "y = OSError \<and> lobby_live on u"
    by (rule events_raise[OF _ _ Raise, of "lo_clock l" now]) (use assms(1,2) in \<open>simp_all add: loop_ok_def pass_ok_def\<close>)
  then show ?thesis using assms(3) Raise by (simp add: run_pass_def)
qed

section \<open>The invariant of the process\<close>

fun cause_ok :: "cause \<Rightarrow> bool" where
  "cause_ok Interrupted = True"
| "cause_ok (Raised e) = (e = OSError)"

fun proc_inv :: "bool \<Rightarrow> process \<Rightarrow> bool" where
  "proc_inv on (Pr_listen s) = (server_inv s \<and> lobby_live on s \<and> sv_clients s = [])"
| "proc_inv on (Pr_loop l) = loop_ok on l"
| "proc_inv on (Pr_stop e p) = (on \<and> cause_ok e \<and> pub_reach p \<and> pb_main p \<noteq> M_running)"
| "proc_inv on (Pr_exit e lobby) =
     (cause_ok e \<and> (case lobby of None \<Rightarrow> \<not> on | Some p \<Rightarrow> on \<and> pub_reach p \<and> pb_main p = M_done))"
| "proc_inv on (Pr_killed lobby) = (case lobby of None \<Rightarrow> \<not> on | Some p \<Rightarrow> on \<and> pub_reach p)"

lemma finally_inv:
  assumes "lobby_live on s" "cause_ok e"
  shows "proc_inv on (main_finally e s)"
proof (cases "sv_lobby s")
  case (Some p)
  then have p: "on" "pub_reach p" "pb_main p = M_running" using assms(1) by (simp_all add: lobby_live_def)
  have "pub_reach (shutdown_begin p)" using p(2) by (rule reach.reach_step) (rule pub_step.p_shutdown[OF p(3)])
  then show ?thesis using Some p(1) assms(2) by (simp add: main_finally_def shutdown_begin_def Let_def)
qed (use assms in \<open>simp add: main_finally_def lobby_live_def\<close>)

lemma start_lobby_live: "lobby_live (op_lobby_enabled op) (start_server op sends rands)"
proof -
  have "pub_reach (update 0 (publisher_init url srv cl ak rg gm nm))" for url srv cl ak rg gm nm
    by (rule reach.reach_step[OF pub_reach_init]) (rule pub_step.p_update, simp add: publisher_init_def)
  then show ?thesis
    by (simp add: lobby_live_def start_server_def Server_init_def start_lobby_def) (simp add: publisher_init_def update_def notify_def)
qed

lemma stopping_stays: "pub_step p q \<Longrightarrow> pb_main p \<noteq> M_running \<Longrightarrow> pb_main q \<noteq> M_running"
  by (erule pub_step.cases) (auto simp: pub_defs dest: worker_main split: post_result.splits)

lemma proc_inv_init: "proc_initial op p \<Longrightarrow> proc_inv (op_lobby_enabled op) p"
proof -
  assume "proc_initial op p"
  then obtain sends rands where p: "0 \<le> op_delay op" "op_delay op < 256" "p = Pr_listen (start_server op sends rands)"
    by (auto simp: proc_initial_def main_start_def)
  have "\<forall>q. start_lobby op = Some q \<longrightarrow> pub_reach q \<and> pb_main q = M_running \<and> lp_curplayers (pb_payload q) = 0"
    using start_lobby_live[of op sends rands]
    by (auto simp: lobby_live_def start_server_def Server_init_def) (auto simp: start_lobby_def update_def notify_def publisher_init_def split: if_splits)
  then have "server_initial (start_server op sends rands)"
    using p(1,2) unfolding server_initial_def start_server_def by blast
  then show ?thesis using start_lobby_live p(3) server_inv_init by (simp add: start_server_def Server_init_def)
qed

lemma proc_inv_step: "proc_inv on p \<Longrightarrow> proc_step p q \<Longrightarrow> proc_inv on q"
proof (erule proc_step.cases)
  fix s now
  assume "proc_inv on p" "p = Pr_listen s" "q = Pr_loop (loop_begin now s)"
  then show "proc_inv on q" by (simp add: loop_begin_def loop_ok_def greeted_since_def)
next
  fix w s
  assume a: "proc_inv on p" "p = Pr_listen s" "q = Pr_listen (s\<lparr>sv_lobby := Some w\<rparr>)" "enabled (Ev_lobby w) s"
  then have "server_inv (s\<lparr>sv_lobby := Some w\<rparr>)" using server_inv_lobby by auto
  then show "proc_inv on q" using a live_worker by simp
next
  fix evs order now l l'
  assume "proc_inv on p" "p = Pr_loop l" "q = Pr_loop l'" "pass_ok evs order now l" "run_pass evs order now l = Inr l'"
  then show "proc_inv on q" using pass_kept by simp
next
  fix evs order now l e t
  assume "proc_inv on p" "p = Pr_loop l" "q = main_finally (Raised e) t" "pass_ok evs order now l"
    "run_pass evs order now l = Inl (e, t)"
  then show "proc_inv on q" using pass_raises finally_inv[of on t "Raised e"] by simp
next
  fix e w w'
  assume "proc_inv on p" "p = Pr_stop e w" "q = Pr_stop e w'" "pub_step w w'"
  then show "proc_inv on q" using stopping_stays by (auto intro: reach.reach_step)
qed (auto simp: loop_ok_def lobby_live_def intro!: finally_inv split: option.splits)

interpretation proc: invariant_system "proc_initial op" proc_step "proc_inv (op_lobby_enabled op)" for op
  by unfold_locales (auto intro: proc_inv_init proc_inv_step)

section \<open>Properties\<close>

text \<open>The parts of \<open>shutdown\<close> that are left can always be carried out.\<close>

lemma stop_steps: "pub_step\<^sup>*\<^sup>* p q \<Longrightarrow> pb_main p \<noteq> M_running \<Longrightarrow> pb_main q = M_done \<Longrightarrow>
    \<exists>q. pb_main q = M_done \<and> proc_step\<^sup>*\<^sup>* (Pr_stop e p) (Pr_stop e q)"
proof (induction rule: converse_rtranclp_induct)
  case (step y z)
  show ?case
  proof (cases "pb_main y = M_done")
    case False
    obtain q where "pb_main q = M_done" "proc_step\<^sup>*\<^sup>* (Pr_stop e z) (Pr_stop e q)"
      using step stopping_stays by blast
    then show ?thesis using proc_step.stopping[OF False step(1)] by (blast intro: converse_rtranclp_into_rtranclp)
  qed blast
qed blast

lemma stop_done: "pb_main p \<noteq> M_running \<Longrightarrow> \<exists>q. pub_step\<^sup>*\<^sup>* p q \<and> pb_main q = M_done"
proof (cases "pb_main p")
  case (M_join pl)
  have "pub_step p (shutdown_join pl p)" by (rule pub_step.p_join[OF M_join])
  moreover have "pub_step (shutdown_join pl p) (shutdown_post Post_ok pl (shutdown_join pl p))"
    by (rule pub_step.p_final) (simp add: shutdown_join_def)
  ultimately have "pub_step\<^sup>*\<^sup>* p (shutdown_post Post_ok pl (shutdown_join pl p))" by (rule converse_rtranclp_into_rtranclp[OF _ r_into_rtranclp])
  moreover have "pb_main (shutdown_post Post_ok pl (shutdown_join pl p)) = M_done" by (simp add: shutdown_post_def)
  ultimately show ?thesis by blast
next
  case (M_final pl)
  then have "pub_step\<^sup>*\<^sup>* p (shutdown_post Post_ok pl p)" by (auto intro: pub_step.p_final)
  moreover have "pb_main (shutdown_post Post_ok pl p) = M_done" by (simp add: shutdown_post_def)
  ultimately show ?thesis by blast
qed auto

definition announced_offline :: "publisher \<Rightarrow> bool" where
  "announced_offline p \<longleftrightarrow> (\<exists>pl \<in> set (pb_posts p). lp_status pl = ''offline'')"

lemma done_offline: "pub_reach p \<Longrightarrow> pb_main p = M_done \<Longrightarrow> announced_offline p"
  using lobby.invar_reach[of p] by (simp add: pub_inv_def announced_offline_def)


definition lobby_options :: options where
  "lobby_options = default_options\<lparr>op_lobby_enabled := True\<rparr>"

lemma initial_reach:
  assumes "op_delay op = DEFAULT_DELAY"
  shows "proc_reach op (Pr_listen (start_server op sends rands))"
  using assms by (intro reach.reach_init) (auto simp: proc_initial_def main_start_def DEFAULT_DELAY_def)

lemma lobby_loop: "proc_reach lobby_options (Pr_loop (loop_begin 0 (start_server lobby_options [] [])))"
proof -
  have "op_delay lobby_options = DEFAULT_DELAY" by (simp add: lobby_options_def default_options_def)
  from reach.reach_step[OF initial_reach[OF this] proc_step.listening] show ?thesis .
qed

lemma lobby_stop: "proc_reach lobby_options (main_finally Interrupted (start_server lobby_options [] []))"
  using reach.reach_step[OF lobby_loop proc_step.interrupted] by (simp add: loop_begin_def)




text \<open>
  C16 (the lobby lists the registered players): in the loop, when the worker has nothing pending,
  the payload it handed to HTTP last announces exactly as many players as the directory has, and
  the server as online; before the first one nobody is registered.
\<close>

theorem lobby_announces:
  assumes "proc_reach op (Pr_loop l)" "sv_lobby (lo_server l) = Some p" "\<not> pb_dirty p"
  shows "case newest p of
      Some pl \<Rightarrow> lp_curplayers pl = length (sv_by_name (lo_server l)) \<and> lp_status pl = ''online''
    | None \<Rightarrow> sv_by_name (lo_server l) = []"
proof -
  have "loop_ok (op_lobby_enabled op) l" using proc.invar_reach[OF assms(1)] by simp
  then have p: "pub_inv p" "pb_main p = M_running" "lobby_ok (lo_server l)"
    using assms(2) lobby.invar_reach[of p] by (auto simp: loop_ok_def lobby_live_def server_inv_def good_def core_def)
  then have "lp_curplayers (pb_payload p) = length (sv_by_name (lo_server l))"
    using assms(2) by (simp add: lobby_ok_def pub_inv_def)
  then show ?thesis using p(1,2) assms(3) by (auto simp: pub_inv_def split: option.split)
qed

theorem lobby_announces_witness:
  "\<exists>l p pl. proc_reach lobby_options (Pr_loop l) \<and> sv_lobby (lo_server l) = Some p \<and> newest p = Some pl \<and>
     lp_curplayers pl = length (sv_by_name (lo_server l))"
proof -
  let ?s = "start_server lobby_options [] []"
  obtain p where p: "sv_lobby ?s = Some p" "pb_worker p = W_check" "pb_dirty p" "\<not> pb_stopping p"
    by (simp add: start_server_def Server_init_def start_lobby_def lobby_options_def update_def notify_def publisher_init_def)
  let ?p = "worker_check p"
  let ?l = "loop_begin 0 (?s\<lparr>sv_lobby := Some ?p\<rparr>)"
  have "enabled (Ev_lobby ?p) ?s" using p(1) worker_step.w_check[OF p(2)] by simp
  moreover have "op_delay lobby_options = DEFAULT_DELAY" by (simp add: lobby_options_def default_options_def)
  ultimately have r: "proc_reach lobby_options (Pr_loop ?l)"
    by (blast intro: reach.reach_step initial_reach proc_step.listen_worker proc_step.listening)
  have q: "sv_lobby (lo_server ?l) = Some ?p" "\<not> pb_dirty ?p" "newest ?p = Some (pb_payload p)"
    using p by (simp_all add: loop_begin_def worker_check_def newest_def)
  from lobby_announces[OF r q(1,2)] q(3) have "lp_curplayers (pb_payload p) = length (sv_by_name (lo_server ?l))" by simp
  with r q show ?thesis by blast
qed

end
