(* ===== verification/Tool_Launch.thy ===== *)
theory Tool_Launch
  imports Relay_Main Load_Tools Gate_Script
begin

text \<open>
  How the tools start and stop a relay: the command lines of tools/bbnet_client_sim.py,
  tools/server_diff.py and tools/soak.py, what the relay's options are for them, the loops that
  wait for the server to come up, and the end of the differential harness.
\<close>

section \<open>Command lines of the relay\<close>

text \<open>
  The options of a command line in which every option has its full name and its value is a
  separate argument, which is how the tools and run_production.sh spell them; \<open>None\<close> for any
  other command line, and for values that \<open>int\<close> does not read.
\<close>

definition int_arg :: "string \<Rightarrow> int option" where
  "int_arg v = (case py_int v of Inl e \<Rightarrow> None | Inr n \<Rightarrow> Some n)"

definition set_option :: "string \<Rightarrow> string \<Rightarrow> options \<Rightarrow> options option" where
  "set_option a v op =
     (if a = ''--port'' then map_option (\<lambda>n. op\<lparr>op_port := nat n\<rparr>) (int_arg v)
      else if a = ''--game-name'' then Some (op\<lparr>op_game_name := v\<rparr>)
      else if a = ''--server-name'' then Some (op\<lparr>op_server_name := v\<rparr>)
      else if a = ''--delay'' then map_option (\<lambda>n. op\<lparr>op_delay := n\<rparr>) (int_arg v)
      else if a = ''--auto-go'' then map_option (\<lambda>n. op\<lparr>op_auto_go := n\<rparr>) (int_arg v)
      else if a = ''--lobby-url'' then Some (op\<lparr>op_lobby_url := v\<rparr>)
      else if a = ''--lobby-serverurl'' then Some (op\<lparr>op_lobby_serverurl := v\<rparr>)
      else if a = ''--lobby-client-url'' then Some (op\<lparr>op_lobby_client_url := v\<rparr>)
      else if a = ''--lobby-appkey'' then map_option (\<lambda>n. op\<lparr>op_lobby_appkey := n\<rparr>) (int_arg v)
      else None)"

fun plain_args :: "string list \<Rightarrow> options \<Rightarrow> options option" where
  "plain_args [] op = Some op"
| "plain_args (a # rest) op =
     (if a = ''--debug'' then plain_args rest (op\<lparr>op_debug := True\<rparr>)
      else if a = ''--lobby-enabled'' then plain_args rest (op\<lparr>op_lobby_enabled := True\<rparr>)
      else case rest of
        [] \<Rightarrow> None
      | v # rest' \<Rightarrow>
          if v \<noteq> [] \<and> hd v = CHR ''-'' then None
          else case set_option a v op of None \<Rightarrow> None | Some op' \<Rightarrow> plain_args rest' op')"

definition relay_started :: "string list \<Rightarrow> send_result list \<Rightarrow> nat list \<Rightarrow> server option" where
  "relay_started args sends rands = map_option (\<lambda>op. start_server op sends rands) (plain_args args default_options)"

section \<open>Command lines of the tools\<close>

datatype program = Python_relay string | C_relay

definition sd_command :: "string \<Rightarrow> nat \<Rightarrow> string \<Rightarrow> nat \<Rightarrow> nat \<Rightarrow> string list \<Rightarrow> program \<times> string list" where
  "sd_command relay_py proto impl seats port extra =
     (let cmd = (if impl = ''py'' then (Python_relay relay_py, [''--port'', dec port])
                 else if proto = 1 then (C_relay, [''--port'', dec port, ''--proto'', ''1''])
                 else (C_relay, [''--port'', dec port, ''--max-seats'', dec seats]))
      in (fst cmd, snd cmd @ extra))"

text \<open>\<open>None\<close> is the exit for a C relay that is not built.\<close>

definition gate_command :: "string \<Rightarrow> bool \<Rightarrow> nat \<Rightarrow> nat \<Rightarrow> string list \<Rightarrow> (program \<times> string list) option" where
  "gate_command SERVER built SEATS port extra =
     (if SERVER = ''c''
      then if built then Some (C_relay, [''--port'', dec port, ''--max-seats'', dec SEATS] @ extra) else None
      else Some (Python_relay ''server/intv_relay_server.py'', [''--port'', dec port] @ extra))"

definition so_command :: "string \<Rightarrow> string \<Rightarrow> bool \<Rightarrow> nat \<Rightarrow> (program \<times> string list) option" where
  "so_command relay_py impl built port =
     (if impl = ''py'' then Some (Python_relay relay_py, [''--port'', dec port])
      else if \<not> built then None
      else Some (C_relay, [''--port'', dec port, ''--max-seats'', ''2'']))"

section \<open>Coming up and ending\<close>

datatype boot = Up | Exited_at_boot "string list" | Never_up

text \<open>
  Each turn of a waiting loop before its deadline sees the log so far, or whether a connection
  succeeds, and whether the process has ended.
\<close>

fun await_boot :: "(string list \<times> bool) list \<Rightarrow> boot" where
  "await_boot [] = Never_up"
| "await_boot ((raw_log, ended) # turns) =
     (if list_ex (\<lambda>l. contains l ''listening on :'') raw_log then Up
      else if ended then Exited_at_boot raw_log
      else await_boot turns)"

fun connect_boot :: "(bool \<times> bool) list \<Rightarrow> string list \<Rightarrow> boot" where
  "connect_boot [] output = Never_up"
| "connect_boot ((reached, ended) # turns) output =
     (if reached then Up else if ended then Exited_at_boot output else connect_boot turns output)"

datatype stop_signal = SIGINT | SIGKILL

definition stop_signals :: "bool \<Rightarrow> stop_signal list" where
  "stop_signals in_time = SIGINT # (if in_time then [] else [SIGKILL])"

definition sd_finish :: "bool \<Rightarrow> string list \<Rightarrow> sd_ctx \<Rightarrow> sd_ctx \<times> stop_signal list \<times> string list" where
  "sd_finish in_time raw_log x =
     (x\<lparr>dx_clients := map dc_close (dx_clients x)\<rparr>, stop_signals in_time, List.map_filter log_record raw_log)"

section \<open>Reading a number that was printed\<close>

lemma digit_of: "n < 10 \<Longrightarrow> digit (char_of (48 + n))" "n < 10 \<Longrightarrow> (of_char (char_of (48 + n)) :: nat) = 48 + n"
  by (simp_all add: digit_def)

lemma int_tail_append:
  "int_tail acc xs = Some n \<Longrightarrow> list_all digit xs \<Longrightarrow> int_tail acc (xs @ ys) = int_tail n ys"
  by (induction acc xs rule: int_tail.induct) (auto split: if_splits)

lemma dec_digits: "list_all digit (dec n) \<and> dec n \<noteq> []"
proof (induction n rule: dec.induct)
  case (1 n)
  then show ?case by (subst (1 2) dec.simps) (auto simp: digit_of)
qed

lemma int_tail_dec: "int_tail 0 (dec n) = Some n"
proof (induction n rule: dec.induct)
  case (1 n)
  show ?case
  proof (cases "n < 10")
    case True
    then show ?thesis by (subst dec.simps) (simp add: digit_of)
  next
    case False
    then have "int_tail 0 (dec (n div 10) @ [char_of (48 + n mod 10)]) = int_tail (n div 10) [char_of (48 + n mod 10)]"
      using 1 dec_digits by (intro int_tail_append) auto
    also have "\<dots> = Some n" by (simp add: digit_of)
    finally show ?thesis using False by (subst dec.simps) simp
  qed
qed

lemma py_int_dec: "py_int (dec n) = Inr (int n)"
proof -
  obtain c cs where c: "dec n = c # cs" "digit c" using dec_digits[of n] by (cases "dec n") auto
  then have "c \<noteq> CHR ''-''" "c \<noteq> CHR ''+''" by (auto simp: digit_def)
  then show ?thesis using int_tail_dec[of n] c by (simp add: py_int_def Let_def)
qed

lemma dec_value: "\<not> (dec n \<noteq> [] \<and> hd (dec n) = CHR ''-'')"
  using dec_digits[of n] by (cases "dec n") (auto simp: digit_def)

lemma relay_started_port:
  "relay_started ([''--port'', dec port] @ extra) sends rands =
     map_option (\<lambda>op. start_server op sends rands) (plain_args extra (default_options\<lparr>op_port := port\<rparr>))"
  using dec_value[of port] by (auto simp: relay_started_def set_option_def int_arg_def py_int_dec)

lemma relay_started_plain:
  "relay_started [''--port'', dec port] sends rands = Some (Server_init port DEFAULT_DELAY None 0 sends rands)"
  using relay_started_port[of port "[]"] by (simp add: start_server_def start_lobby_def default_options_def)

lemma relay_started_autogo:
  "relay_started [''--port'', dec port, ''--auto-go'', dec n] sends rands =
     Some (Server_init port DEFAULT_DELAY None (int n) sends rands)"
  using relay_started_port[of port "[''--auto-go'', dec n]"] dec_value[of n]
  by (auto simp: start_server_def start_lobby_def default_options_def set_option_def int_arg_def py_int_dec)

text \<open>
  For every port, the command line of the differential
  harness, of the soak and of the gate's first scenario starts a relay without lobby, with the
  default delay and without automatic start; \<open>--auto-go\<close> with a number sets that number.
\<close>

lemma tools_start_relay:
  "relay_started (snd (sd_command relay_py proto ''py'' seats port [])) sends rands =
    Some (Server_init port DEFAULT_DELAY None 0 sends rands)"
  "map_option (\<lambda>c. relay_started (snd c) sends rands) (so_command relay_py ''py'' built port) =
    Some (Some (Server_init port DEFAULT_DELAY None 0 sends rands))"
  "map_option (\<lambda>c. relay_started (snd c) sends rands) (gate_command ''py'' built SEATS port []) =
    Some (Some (Server_init port DEFAULT_DELAY None 0 sends rands))"
  "map_option (\<lambda>c. relay_started (snd c) sends rands) (gate_command ''py'' built SEATS port [''--auto-go'', dec n]) =
    Some (Some (Server_init port DEFAULT_DELAY None (int n) sends rands))"
  by (simp_all add: sd_command_def so_command_def gate_command_def relay_started_plain relay_started_autogo)

end
