(* ===== verification/Gate_Desk.thy ===== *)
theory Gate_Desk
  imports Gate_Relay Relay_Contract
begin

text \<open>
  A scenario of tools/bbnet_client_sim.py read over queues of messages instead of sockets: every
  step takes whole messages from the queue of a console.  The simulated consoles do the same
  whatever the segmentation of their streams, so a scenario whose checks hold over the queues
  passes; and a scenario as the events the relay sees, with the streams the relay then writes.
\<close>

section \<open>A console as a queue of messages\<close>

type_synonym msgs = "(byte \<times> byte list) list"

text \<open>
  What a connection will deliver: blocks of messages, cut into segments in any way, and a
  \<open>recv\<close> that times out between two blocks.
\<close>

fun reads :: "msgs list \<Rightarrow> byte list \<Rightarrow> sock_recv list \<Rightarrow> bool" where
  "reads [] buf script = False"
| "reads [ms] buf script =
     (\<exists>ds. script = map Got ds \<and> whole ds \<and> buf @ concat ds = concat (map encode_msg ms))"
| "reads (ms # bs) buf script =
     (\<exists>ds rest. script = map Got ds @ Timed_out # rest \<and> whole ds \<and>
        buf @ concat ds = concat (map encode_msg ms) \<and> reads bs [] rest)"

lemma reads_cons:
  "reads (ms # b # bs) buf script \<longleftrightarrow>
     (\<exists>ds rest. script = map Got ds @ Timed_out # rest \<and> whole ds \<and>
        buf @ concat ds = concat (map encode_msg ms) \<and> reads (b # bs) [] rest)"
  by simp

lemma reads_next:
  assumes "reads (((t, p) # ms) # bs) buf script" "length p < 255"
  shows "\<exists>buf' script'. recv_loop buf script = (Inr (t, p), buf', script') \<and> reads (ms # bs) buf' script'"
proof (cases bs)
  case Nil
  then obtain ds where ds: "script = map Got ds" "whole ds" "buf @ concat ds = encode_msg (t, p) @ concat (map encode_msg ms)"
    using assms(1) by auto
  obtain buf' ds' where "recv_loop buf (map Got ds @ []) = (Inr (t, p), buf', map Got ds' @ [])"
      "buf' @ concat ds' = concat (map encode_msg ms)" "whole ds'"
    using recv_loop_frame[of "(t, p)" ds buf "concat (map encode_msg ms)" "[]"] assms(2) ds by auto
  then show ?thesis using Nil ds(1) by auto
next
  case (Cons b bs')
  then obtain ds rest where ds: "script = map Got ds @ Timed_out # rest" "whole ds" "reads (b # bs') [] rest"
      "buf @ concat ds = encode_msg (t, p) @ concat (map encode_msg ms)"
    using assms(1) by auto
  obtain buf' ds' where "recv_loop buf (map Got ds @ Timed_out # rest) = (Inr (t, p), buf', map Got ds' @ Timed_out # rest)"
      "buf' @ concat ds' = concat (map encode_msg ms)" "whole ds'"
    using recv_loop_frame[of "(t, p)" ds buf "concat (map encode_msg ms)" "Timed_out # rest"] assms(2) ds(2,4) by auto
  then show ?thesis using Cons ds(1,3) by auto
qed

lemma reads_empty: "whole ds \<Longrightarrow> buf @ concat ds = [] \<Longrightarrow> ds = [] \<and> buf = []"
  by (cases ds) auto

lemma reads_pause:
  assumes "reads ([] # b # bs) buf script"
  shows "\<exists>script'. recv_loop buf script = (Inl TimeoutError, [], script') \<and> reads (b # bs) [] script'"
proof -
  obtain ds rest where ds: "script = map Got ds @ Timed_out # rest" "whole ds" "buf @ concat ds = []" "reads (b # bs) [] rest"
    using assms by auto
  from reads_empty[OF ds(2,3)] ds(1,4) show ?thesis by (subst recv_loop_read) (simp add: peer_read_def)
qed

lemma reads_end:
  assumes "reads [[]] buf script"
  shows "\<exists>script'. recv_loop buf script = (Inl TimeoutError, [], script') \<and> reads [[]] [] script'"
proof -
  obtain ds where ds: "script = map Got ds" "whole ds" "buf @ concat ds = []"
    using assms by auto
  from reads_empty[OF ds(2,3)] ds(1) show ?thesis by (subst recv_loop_read) (simp add: peer_read_def)
qed

section \<open>The scenario over queues\<close>

text \<open>A console that is open or closed, what it will read, and what it has sent.\<close>

record console =
  cn_open :: bool
  cn_reads :: "msgs list"
  cn_sent :: "byte list"

type_synonym desk = "(string \<times> console) list \<times> (byte \<times> byte) list"

definition shows_cli :: "console \<Rightarrow> cli \<Rightarrow> bool" where
  "shows_cli x c \<longleftrightarrow> cli_out c = cn_sent x \<and> (cn_open x \<longrightarrow> cli_up c \<and> reads (cn_reads x) (cli_buf c) (cli_in c))"

definition shows_gate :: "desk \<Rightarrow> gate \<Rightarrow> bool" where
  "shows_gate d g \<longleftrightarrow>
     gt_seeds g = snd d \<and>
     (\<forall>n. case map_of (fst d) n of
        None \<Rightarrow> map_of (gt_cli g) n = None
      | Some x \<Rightarrow> \<exists>c. map_of (gt_cli g) n = Some c \<and> shows_cli x c)"

text \<open>The next message of an open console, if it has the expected type and passes the check.\<close>

definition take_msg :: "string \<Rightarrow> string \<Rightarrow> desk \<Rightarrow> (byte list \<times> desk) option" where
  "take_msg n ft d =
     (case map_of (fst d) n of
        Some x \<Rightarrow>
          (case cn_reads x of
             ((t, p) # ms) # bs \<Rightarrow>
               if cn_open x \<and> sim_T ft = Some t \<and> length p < 255
               then Some (p, AList.update n (x\<lparr>cn_reads := ms # bs\<rparr>) (fst d), snd d) else None
           | _ \<Rightarrow> None)
      | None \<Rightarrow> None)"

definition say :: "string \<Rightarrow> byte \<times> byte list \<Rightarrow> desk \<Rightarrow> desk option" where
  "say n m d =
     (case map_of (fst d) n of
        Some x \<Rightarrow> if cn_open x \<and> length (snd m) < 255
          then Some (AList.update n (x\<lparr>cn_sent := cn_sent x @ encode_msg m\<rparr>) (fst d), snd d) else None
      | None \<Rightarrow> None)"

definition holds :: "exn + bool \<Rightarrow> desk \<Rightarrow> desk option" where
  "holds r d = (if r = Inr True then Some d else None)"

fun desk_step :: "(string \<Rightarrow> msgs list) \<Rightarrow> gstep \<Rightarrow> desk \<Rightarrow> desk option" where
  "desk_step src (G_open n ver) d =
     (if 0 \<le> ver \<and> ver < 256 \<and> length (utf8_encode n) < 254
      then Some (AList.update n \<lparr>cn_open = True, cn_reads = src n,
             cn_sent = encode_msg (T_HELLO, word_of_int ver # utf8_encode n)\<rparr> (fst d), snd d) else None)"
| "desk_step src (G_send n t p) d = (case sim_T t of None \<Rightarrow> None | Some b \<Rightarrow> say n (b, p) d)"
| "desk_step src (G_expect n t chk) d =
     (case take_msg n t d of None \<Rightarrow> None | Some (p, d1) \<Rightarrow> holds (chk p) d1)"
| "desk_step src (G_start n chk) d =
     (case take_msg n ''START'' d of
        None \<Rightarrow> None | Some (p, d1) \<Rightarrow> holds (chk p) (fst d1, snd d1 @ [(p ! 2, p ! 3)]))"
| "desk_step src G_same_seed d = holds (Inr (length (remdups (snd d)) = 1)) d"
| "desk_step src (G_poll n chk) d =
     (case say n (T_LIST, []) d of
        None \<Rightarrow> None
      | Some d1 \<Rightarrow> (case take_msg n ''LOBBY'' d1 of None \<Rightarrow> None | Some (p, d2) \<Rightarrow> holds (chk p) d2))"
| "desk_step src (G_refused n) d =
     (case map_of (fst d) n of
        Some x \<Rightarrow> if cn_open x \<and> cn_reads x = [[]] then Some d else None
      | None \<Rightarrow> None)"
| "desk_step src (G_silent n) d =
     (case map_of (fst d) n of
        Some x \<Rightarrow>
          (case cn_reads x of
             [] # b # bs \<Rightarrow> if cn_open x then Some (AList.update n (x\<lparr>cn_reads := b # bs\<rparr>) (fst d), snd d) else None
           | _ \<Rightarrow> None)
      | None \<Rightarrow> None)"
| "desk_step src (G_until_start n chk) d =
     (case map_of (fst d) n of
        Some x \<Rightarrow>
          (case cn_reads x of
             ms # bs \<Rightarrow>
               (case dropWhile (\<lambda>(t, p). t \<noteq> T_START) ms of
                  (t, p) # ms' \<Rightarrow>
                    if cn_open x \<and> list_all (\<lambda>(t, p). length p < 255) ms
                    then holds (chk p) (AList.update n (x\<lparr>cn_reads := ms' # bs\<rparr>) (fst d), snd d) else None
                | [] \<Rightarrow> None)
           | [] \<Rightarrow> None)
      | None \<Rightarrow> None)"
| "desk_step src (G_starts m n chk) d =
     (case take_msg m ''START'' d of
        None \<Rightarrow> None
      | Some (pa, d1) \<Rightarrow>
          (case take_msg n ''START'' d1 of None \<Rightarrow> None | Some (pb, d2) \<Rightarrow> holds (chk pa pb) d2))"
| "desk_step src (G_close n) d =
     (case map_of (fst d) n of
        Some x \<Rightarrow> Some (AList.update n (x\<lparr>cn_open := False\<rparr>) (fst d), snd d)
      | None \<Rightarrow> None)"

fun desk_run :: "(string \<Rightarrow> msgs list) \<Rightarrow> gstep list \<Rightarrow> desk \<Rightarrow> desk option" where
  "desk_run src [] d = Some d"
| "desk_run src (x # xs) d = (case desk_step src x d of None \<Rightarrow> None | Some d1 \<Rightarrow> desk_run src xs d1)"

lemma shows_at:
  assumes "shows_gate d g" "map_of (fst d) n = Some x"
  obtains c where "map_of (gt_cli g) n = Some c" "shows_cli x c"
  using assms by (force simp: shows_gate_def split: option.splits)

lemma shows_update:
  assumes "shows_gate d g" "shows_cli x c"
  shows "shows_gate (AList.update n x (fst d), snd d) (g\<lparr>gt_cli := AList.update n c (gt_cli g)\<rparr>)"
  unfolding shows_gate_def
proof (intro conjI allI)
  fix k
  have "case map_of (fst d) k of None \<Rightarrow> map_of (gt_cli g) k = None
      | Some x \<Rightarrow> \<exists>c. map_of (gt_cli g) k = Some c \<and> shows_cli x c"
    using assms(1) by (simp add: shows_gate_def)
  then show "case map_of (fst (AList.update n x (fst d), snd d)) k of
      None \<Rightarrow> map_of (gt_cli (g\<lparr>gt_cli := AList.update n c (gt_cli g)\<rparr>)) k = None
    | Some x \<Rightarrow> \<exists>c'. map_of (gt_cli (g\<lparr>gt_cli := AList.update n c (gt_cli g)\<rparr>)) k = Some c' \<and> shows_cli x c'"
    using assms(2) by (cases "k = n") (simp_all add: update_conv' split: option.splits)
qed (use assms(1) in \<open>simp add: shows_gate_def\<close>)

lemma take_msg_sound:
  assumes "shows_gate d g" "take_msg n ft d = Some (p, d1)"
  shows "\<exists>g1. on_cli n (expect ft) g = Inr (p, g1) \<and> shows_gate d1 g1"
proof -
  obtain x t ms bs where x: "map_of (fst d) n = Some x" "cn_reads x = ((t, p) # ms) # bs" "cn_open x" "sim_T ft = Some t"
      "length p < 255" "d1 = (AList.update n (x\<lparr>cn_reads := ms # bs\<rparr>) (fst d), snd d)"
    using assms(2) by (auto simp: take_msg_def split: option.splits list.splits prod.splits if_splits)
  obtain c where c: "map_of (gt_cli g) n = Some c" "shows_cli x c" by (rule shows_at[OF assms(1) x(1)])
  then have "reads (((t, p) # ms) # bs) (cli_buf c) (cli_in c)" using x(2,3) by (simp add: shows_cli_def)
  from reads_next[OF this x(5)] obtain buf' script' where
    r: "recv_loop (cli_buf c) (cli_in c) = (Inr (t, p), buf', script')" "reads (ms # bs) buf' script'" by blast
  let ?c1 = "c\<lparr>cli_buf := buf', cli_in := script'\<rparr>"
  have "expect ft c = (Inr p, ?c1)" using r(1) x(4) by (simp add: expect_def recv_frame_def)
  moreover have "shows_cli (x\<lparr>cn_reads := ms # bs\<rparr>) ?c1" using c(2) r(2) by (simp add: shows_cli_def)
  ultimately show ?thesis using shows_update[OF assms(1)] c(1) x(6) by (auto simp: on_cli_def)
qed

lemma say_sound:
  assumes "shows_gate d g" "say n (b, p) d = Some d1"
  shows "\<exists>c. map_of (gt_cli g) n = Some c \<and> cli_up c \<and> length p < 255 \<and>
    shows_gate d1 (g\<lparr>gt_cli := AList.update n (c\<lparr>cli_out := cli_out c @ encode_msg (b, p)\<rparr>) (gt_cli g)\<rparr>)"
proof -
  obtain x where x: "map_of (fst d) n = Some x" "cn_open x" "length p < 255"
      "d1 = (AList.update n (x\<lparr>cn_sent := cn_sent x @ encode_msg (b, p)\<rparr>) (fst d), snd d)"
    using assms(2) by (auto simp: say_def split: option.splits if_splits)
  obtain c where c: "map_of (gt_cli g) n = Some c" "shows_cli x c" by (rule shows_at[OF assms(1) x(1)])
  have "shows_cli (x\<lparr>cn_sent := cn_sent x @ encode_msg (b, p)\<rparr>) (c\<lparr>cli_out := cli_out c @ encode_msg (b, p)\<rparr>)"
    using c(2) by (simp add: shows_cli_def)
  from shows_update[OF assms(1) this] c x(2-4) show ?thesis by (simp add: shows_cli_def)
qed

lemma holds_Some: "holds r d = Some d1 \<longleftrightarrow> r = Inr True \<and> d1 = d"
  by (auto simp: holds_def)

lemma shows_seeds:
  assumes "shows_gate d g"
  shows "shows_gate (fst d, snd d @ ss) (g\<lparr>gt_seeds := gt_seeds g @ ss\<rparr>)"
proof -
  have "gt_cli (g\<lparr>gt_seeds := gt_seeds g @ ss\<rparr>) = gt_cli g" by simp
  then show ?thesis using assms unfolding shows_gate_def by (simp only:) simp
qed

lemma until_start_reads:
  assumes "reads (ms # bs) buf script" "dropWhile (\<lambda>(t, p). t \<noteq> T_START) ms = (t, p) # ms'"
    and "list_all (\<lambda>(t, p). length p < 255) ms"
  shows "\<exists>buf' script'. until_start buf script = (Inr p, buf', script') \<and> reads (ms' # bs) buf' script'"
  using assms
proof (induction ms arbitrary: buf script)
  case (Cons m ms)
  obtain mt mp where m: "m = (mt, mp)" by (cases m)
  have len: "length mp < 255" using Cons.prems(3) by (simp add: m)
  from reads_next[OF Cons.prems(1)[unfolded m] len] obtain buf1 script1 where
    r: "recv_loop buf script = (Inr (mt, mp), buf1, script1)" "reads (ms # bs) buf1 script1" by blast
  show ?case
  proof (cases "mt = T_START")
    case True
    then show ?thesis
      using r Cons.prems(2) by (subst until_start.simps) (simp add: m sim_types)
  next
    case False
    then obtain buf' script' where "until_start buf1 script1 = (Inr p, buf', script')" "reads (ms' # bs) buf' script'"
      using Cons.IH[OF r(2)] Cons.prems(2,3) by (auto simp: m)
    then show ?thesis using r(1) False by (subst until_start.simps) (simp add: sim_types)
  qed
qed simp

lemma desk_step_sound:
  assumes "shows_gate d g" "desk_step src x d = Some d1" "\<And>n ver. x = G_open n ver \<Longrightarrow> reads (src n) [] (net n)"
  shows "\<exists>g1. gstep_run net x g = Inr g1 \<and> shows_gate d1 g1"
proof (cases x)
  case (G_open n ver)
  have v: "0 \<le> ver" "ver < 256" "length (utf8_encode n) < 254"
    and d1: "d1 = (AList.update n \<lparr>cn_open = True, cn_reads = src n,
        cn_sent = encode_msg (T_HELLO, word_of_int ver # utf8_encode n)\<rparr> (fst d), snd d)"
    using assms(2) by (simp_all add: G_open split: if_splits)
  let ?c = "\<lparr>cli_name = n, cli_buf = [], cli_in = net n, cli_out = encode_msg (T_HELLO, word_of_int ver # utf8_encode n), cli_up = True\<rparr>"
  have "Cli_init n ver (net n) = Inr ?c"
    using v by (simp add: Cli_init_def sim_T_def peer_frame_ok cli_send_def T_HELLO_def)
  moreover have "shows_cli \<lparr>cn_open = True, cn_reads = src n, cn_sent = encode_msg (T_HELLO, word_of_int ver # utf8_encode n)\<rparr> ?c"
    using assms(3)[OF G_open] by (simp add: shows_cli_def)
  ultimately show ?thesis using shows_update[OF assms(1)] by (auto simp: G_open d1)
next
  case (G_send n t p)
  obtain b where b: "sim_T t = Some b" "say n (b, p) d = Some d1"
    using assms(2) by (auto simp: G_send split: option.splits)
  from say_sound[OF assms(1) b(2)] b(1) show ?thesis
    by (auto simp: G_send on_cli_def send_typed_def peer_frame_ok cli_send_def)
next
  case (G_expect n t chk)
  obtain p where "take_msg n t d = Some (p, d1)" "chk p = Inr True"
    using assms(2) by (auto simp: G_expect holds_Some split: option.splits)
  with take_msg_sound[OF assms(1)] show ?thesis by (fastforce simp: G_expect assert_that_def)
next
  case (G_start n chk)
  obtain p d2 where d2: "take_msg n ''START'' d = Some (p, d2)" "chk p = Inr True" "d1 = (fst d2, snd d2 @ [(p ! 2, p ! 3)])"
    using assms(2) by (auto simp: G_start holds_Some split: option.splits)
  obtain g1 where "on_cli n (expect ''START'') g = Inr (p, g1)" "shows_gate d2 g1"
    using take_msg_sound[OF assms(1) d2(1)] by blast
  with d2(2,3) shows_seeds[of d2 g1 "[(p ! 2, p ! 3)]"] show ?thesis by (simp add: G_start assert_that_def)
next
  case G_same_seed
  then show ?thesis using assms(1,2) by (auto simp: holds_Some assert_that_def shows_gate_def)
next
  case (G_poll n chk)
  obtain d2 p where d2: "say n (T_LIST, []) d = Some d2" "take_msg n ''LOBBY'' d2 = Some (p, d1)" "chk p = Inr True"
    using assms(2) by (auto simp: G_poll holds_Some split: option.splits)
  obtain c where c: "map_of (gt_cli g) n = Some c" "cli_up c"
      "shows_gate d2 (g\<lparr>gt_cli := AList.update n (c\<lparr>cli_out := cli_out c @ encode_msg (T_LIST, [])\<rparr>) (gt_cli g)\<rparr>)"
    using say_sound[OF assms(1) d2(1)] by blast
  let ?c = "c\<lparr>cli_out := cli_out c @ encode_msg (T_LIST, [])\<rparr>"
  obtain g1 where g1: "on_cli n (expect ''LOBBY'') (g\<lparr>gt_cli := AList.update n ?c (gt_cli g)\<rparr>) = Inr (p, g1)" "shows_gate d1 g1"
    using take_msg_sound[OF c(3) d2(2)] by blast
  have "lobby c = expect ''LOBBY'' ?c"
    using c(2) by (simp add: lobby_def sim_T_def peer_frame_ok cli_send_def T_LIST_def)
  then have "on_cli n lobby g = on_cli n (expect ''LOBBY'') (g\<lparr>gt_cli := AList.update n ?c (gt_cli g)\<rparr>)"
    using c(1) by (simp add: on_cli_def update_conv' split: prod.split sum.split)
  with g1 d2(3) show ?thesis by (simp add: G_poll assert_that_def)
next
  case (G_refused n)
  obtain y where y: "map_of (fst d) n = Some y" "cn_open y" "cn_reads y = [[]]" "d1 = d"
    using assms(2) by (auto simp: G_refused split: option.splits if_splits)
  obtain c where c: "map_of (gt_cli g) n = Some c" "shows_cli y c" by (rule shows_at[OF assms(1) y(1)])
  then have "reads [[]] (cli_buf c) (cli_in c)" using y(2,3) by (simp add: shows_cli_def)
  from reads_end[OF this] obtain script' where
    r: "recv_loop (cli_buf c) (cli_in c) = (Inl TimeoutError, [], script')" "reads [[]] [] script'" by blast
  let ?c = "c\<lparr>cli_buf := [], cli_in := script'\<rparr>"
  have "shows_cli y ?c" using c(2) r(2) y(3) unfolding shows_cli_def by simp
  from shows_update[OF assms(1) this, of n] y(1,4) have "shows_gate d1 (g\<lparr>gt_cli := AList.update n ?c (gt_cli g)\<rparr>)"
    by (simp add: update_same)
  then show ?thesis using r(1) c(1) by (simp add: G_refused on_cli_def refused_def recv_frame_def)
next
  case (G_silent n)
  obtain y b bs where y: "map_of (fst d) n = Some y" "cn_open y" "cn_reads y = [] # b # bs"
      "d1 = (AList.update n (y\<lparr>cn_reads := b # bs\<rparr>) (fst d), snd d)"
    using assms(2) by (auto simp: G_silent split: option.splits list.splits if_splits)
  obtain c where c: "map_of (gt_cli g) n = Some c" "shows_cli y c" by (rule shows_at[OF assms(1) y(1)])
  then have "reads ([] # b # bs) (cli_buf c) (cli_in c)" using y(2,3) by (simp add: shows_cli_def)
  from reads_pause[OF this] obtain script' where
    r: "recv_loop (cli_buf c) (cli_in c) = (Inl TimeoutError, [], script')" "reads (b # bs) [] script'" by blast
  let ?c = "c\<lparr>cli_buf := [], cli_in := script'\<rparr>"
  have "shows_cli (y\<lparr>cn_reads := b # bs\<rparr>) ?c" using c(2) r(2) by (simp add: shows_cli_def)
  from shows_update[OF assms(1) this] r(1) c(1) show ?thesis
    by (simp add: G_silent y(4) on_cli_def expect_silence_def recv_frame_def)
next
  case (G_until_start n chk)
  obtain y ms bs t p ms' where y: "map_of (fst d) n = Some y" "cn_open y" "cn_reads y = ms # bs"
      "dropWhile (\<lambda>(t, p). t \<noteq> T_START) ms = (t, p) # ms'" "list_all (\<lambda>(t, p). length p < 255) ms" "chk p = Inr True"
      "d1 = (AList.update n (y\<lparr>cn_reads := ms' # bs\<rparr>) (fst d), snd d)"
    using assms(2) by (auto simp: G_until_start holds_Some split: option.splits list.splits if_splits)
  obtain c where c: "map_of (gt_cli g) n = Some c" "shows_cli y c" by (rule shows_at[OF assms(1) y(1)])
  then have "reads (ms # bs) (cli_buf c) (cli_in c)" using y(2,3) by (simp add: shows_cli_def)
  from until_start_reads[OF this y(4,5)] obtain buf' script' where
    r: "until_start (cli_buf c) (cli_in c) = (Inr p, buf', script')" "reads (ms' # bs) buf' script'" by blast
  let ?c = "c\<lparr>cli_buf := buf', cli_in := script'\<rparr>"
  have "shows_cli (y\<lparr>cn_reads := ms' # bs\<rparr>) ?c" using c(2) r(2) by (simp add: shows_cli_def)
  from shows_update[OF assms(1) this] r(1) c(1) y(6) show ?thesis
    by (simp add: G_until_start y(7) on_cli_def skip_to_start_def assert_that_def del: until_start.simps)
next
  case (G_starts m n chk)
  obtain pa d2 pb where p: "take_msg m ''START'' d = Some (pa, d2)" "take_msg n ''START'' d2 = Some (pb, d1)" "chk pa pb = Inr True"
    using assms(2) by (auto simp: G_starts holds_Some split: option.splits)
  obtain g1 where g1: "on_cli m (expect ''START'') g = Inr (pa, g1)" "shows_gate d2 g1"
    using take_msg_sound[OF assms(1) p(1)] by blast
  obtain g2 where g2: "on_cli n (expect ''START'') g1 = Inr (pb, g2)" "shows_gate d1 g2"
    using take_msg_sound[OF g1(2) p(2)] by blast
  from g1(1) g2 p(3) show ?thesis by (simp add: G_starts assert_that_def)
next
  case (G_close n)
  obtain y where y: "map_of (fst d) n = Some y" "d1 = (AList.update n (y\<lparr>cn_open := False\<rparr>) (fst d), snd d)"
    using assms(2) by (auto simp: G_close split: option.splits)
  obtain c where c: "map_of (gt_cli g) n = Some c" "shows_cli y c" by (rule shows_at[OF assms(1) y(1)])
  have "shows_cli (y\<lparr>cn_open := False\<rparr>) (c\<lparr>cli_up := False\<rparr>)" using c(2) by (simp add: shows_cli_def)
  from shows_update[OF assms(1) this] c(1) show ?thesis by (simp add: G_close y(2) on_cli_def cli_close_def)
qed

lemma desk_run_sound:
  assumes "shows_gate d g" "desk_run src xs d = Some d1" "\<And>n ver. G_open n ver \<in> set xs \<Longrightarrow> reads (src n) [] (net n)"
  shows "\<exists>g1. gate_run net xs g = Inr g1 \<and> shows_gate d1 g1"
  using assms
proof (induction xs arbitrary: d g)
  case (Cons x xs)
  obtain d2 where d2: "desk_step src x d = Some d2" "desk_run src xs d2 = Some d1"
    using Cons.prems(2) by (auto split: option.splits)
  obtain g2 where g2: "gstep_run net x g = Inr g2" "shows_gate d2 g2"
    using desk_step_sound[OF Cons.prems(1) d2(1)] Cons.prems(3) by force
  from Cons.IH[OF g2(2) d2(2)] Cons.prems(3) g2(1) show ?case by auto
qed simp

section \<open>The relay's side of a scenario\<close>

text \<open>
  The events the relay sees when the steps of a script are carried out one after the other:
  every console that opens is the next connection and says HELLO, a send is one read, a close is
  an empty one.  A new block starts where a console waits for silence.
\<close>

fun put_event :: "event \<Rightarrow> event list list \<Rightarrow> event list list" where
  "put_event e [] = [[e]]"
| "put_event e (b # bs) = (e # b) # bs"

definition from_cli :: "cid \<Rightarrow> byte list \<Rightarrow> event" where
  "from_cli c data = Ev_client c False (Some (Recv data))"

fun script_events :: "gstep list \<Rightarrow> (string \<times> cid) list \<Rightarrow> cid \<Rightarrow> event list list" where
  "script_events [] ids k = [[]]"
| "script_events (G_open n ver # xs) ids k =
     put_event (Ev_accept (Accepted (''127.0.0.1'', k) True) 0)
       (put_event (from_cli k (encode_msg (T_HELLO, word_of_int ver # utf8_encode n)))
          (script_events xs ((n, k) # ids) (Suc k)))"
| "script_events (G_send n t p # xs) ids k =
     put_event (from_cli (the (map_of ids n)) (encode_msg (the (sim_T t), p))) (script_events xs ids k)"
| "script_events (G_poll n chk # xs) ids k =
     put_event (from_cli (the (map_of ids n)) (encode_msg (T_LIST, []))) (script_events xs ids k)"
| "script_events (G_close n # xs) ids k =
     put_event (from_cli (the (map_of ids n)) []) (script_events xs ids k)"
| "script_events (G_silent n # xs) ids k = [] # script_events xs ids k"
| "script_events (_ # xs) ids k = script_events xs ids k"

text \<open>\<open>start_server\<close> connects once to see whether the server is up, and closes.\<close>

definition gate_boot :: "event list" where
  "gate_boot = [Ev_accept (Accepted (''127.0.0.1'', 0) True) 0, from_cli 0 []]"

text \<open>What a client has said in a list of events.\<close>

fun fed :: "cid \<Rightarrow> event list \<Rightarrow> byte list" where
  "fed c [] = []"
| "fed c (Ev_client d w (Some (Recv data)) # es) = (if d = c then data else []) @ fed c es"
| "fed c (_ # es) = fed c es"

lemma fed_from_cli [simp]:
  "fed c (from_cli d data # es) = (if d = c then data else []) @ fed c es"
  by (simp add: from_cli_def)

text \<open>The messages posted to one client.\<close>

definition msgs_for :: "cid \<Rightarrow> post list \<Rightarrow> msgs" where
  "msgs_for c out = map snd (filter (\<lambda>(d, _). d = c) out)"

lemma msgs_for_stream: "concat (map encode_msg (msgs_for c out)) = posted_to c out"
  by (induction out) (auto simp: msgs_for_def)

text \<open>
  Byte strings in their order, each cut into segments in any way, with a \<open>recv\<close> that times out
  between two of them; and the connections of a scenario, where only the client that waits for
  silence sees such a pause, after what the relay had written by then.
\<close>

fun delivers :: "byte list list \<Rightarrow> sock_recv list \<Rightarrow> bool" where
  "delivers [] script = False"
| "delivers [x] script = (\<exists>ds. script = map Got ds \<and> whole ds \<and> concat ds = x)"
| "delivers (x # xs) script =
     (\<exists>ds rest. script = map Got ds @ Timed_out # rest \<and> whole ds \<and> concat ds = x \<and> delivers xs rest)"

definition network :: "(string \<times> cid) list \<Rightarrow> string \<Rightarrow> server \<Rightarrow> server \<Rightarrow> (string \<Rightarrow> sock_recv list) \<Rightarrow> bool" where
  "network ids quiet t1 t net \<longleftrightarrow>
     (\<forall>(n, c) \<in> set ids. delivers
        (if n = quiet then [stream t1 c, List.drop (length (stream t1 c)) (stream t c)] else [stream t c]) (net n))"

lemma delivers_reads: "delivers (map (\<lambda>ms. concat (map encode_msg ms)) bs) script \<Longrightarrow> reads bs [] script"
  by (induction bs arbitrary: script rule: induct_list012) force+

definition gate_src :: "(string \<times> cid) list \<Rightarrow> string \<Rightarrow> post list \<Rightarrow> post list \<Rightarrow> string \<Rightarrow> msgs list" where
  "gate_src ids quiet p1 p2 n =
     (case map_of ids n of
        None \<Rightarrow> [[]]
      | Some c \<Rightarrow> if n = quiet then [msgs_for c p1, msgs_for c p2] else [msgs_for c (p1 @ p2)])"

text \<open>Every console of a finished run has sent exactly what the events feed the relay.\<close>

definition spoke :: "(string \<times> cid) list \<Rightarrow> event list \<Rightarrow> gate \<Rightarrow> bool" where
  "spoke ids es g \<longleftrightarrow> (\<forall>(n, c) \<in> set ids. \<exists>x. map_of (gt_cli g) n = Some x \<and> cli_out x = fed c es)"

definition desk_spoke :: "(string \<times> cid) list \<Rightarrow> event list \<Rightarrow> desk \<Rightarrow> bool" where
  "desk_spoke ids es d \<longleftrightarrow> list_all (\<lambda>(n, c). map_option cn_sent (map_of (fst d) n) = Some (fed c es)) ids"

lemma spoke_desk:
  assumes "shows_gate d g" "desk_spoke ids es d"
  shows "spoke ids es g"
  unfolding spoke_def
proof (clarify)
  fix n c
  assume "(n, c) \<in> set ids"
  then obtain x where x: "map_of (fst d) n = Some x" "cn_sent x = fed c es"
    using assms(2) by (force simp: desk_spoke_def list_all_iff)
  obtain y where "map_of (gt_cli g) n = Some y" "shows_cli x y" by (rule shows_at[OF assms(1) x(1)])
  then show "\<exists>y. map_of (gt_cli g) n = Some y \<and> cli_out y = fed c es" using x(2) by (simp add: shows_cli_def)
qed

definition opened :: "gstep list \<Rightarrow> string set" where
  "opened xs = {n. \<exists>ver. G_open n ver \<in> set xs}"

lemma run_events_append: "run_events (xs @ ys) s = andthen (run_events xs s) (run_events ys)"
proof (induction xs arbitrary: s)
  case (Cons x xs)
  have "run_events (xs @ ys) = (\<lambda>s. andthen (run_events xs s) (run_events ys))" by (rule ext) (rule Cons.IH)
  then show ?case by (simp add: andthen_assoc)
qed simp

text \<open>
  From the machine to the consoles: what a faithful server does for the events of a scenario, and
  how the scenario then goes.
\<close>

lemma scenario_passes:
  assumes "faithful s w" "\<And>c. stream s c = []" "\<And>c. cl_tx (client_of s c) = []"
    and "snd (happenings b1 w) = p1" "all_admissible b1 w"
    and "snd (happenings (b1 @ b2) w) = p1 @ p2" "all_admissible (b1 @ b2) w"
    and "sum_list (map (\<lambda>(c, m). length (snd m) + 2) (p1 @ p2)) \<le> MAX_TX_BACKLOG"
    and "desk_run (gate_src ids quiet p1 p2) xs ([], []) = Some d" "desk_spoke ids (b1 @ b2) d"
    and "opened xs \<subseteq> fst ` set ids" "distinct (map fst ids)"
  shows "\<exists>t1 t. run_events b1 s = Ok t1 \<and> run_events b2 t1 = Ok t \<and>
    (\<forall>net. network ids quiet t1 t net \<longrightarrow> (\<exists>g. gate_run net xs empty_gate = Inr g \<and> spoke ids (b1 @ b2) g))"
proof -
  have fits: "fits_all p1 s" "fits_all (p1 @ p2) s"
    using order_trans[OF posted_to_length assms(8)] assms(3) by (auto simp: fits_all_def intro: add_leD1)
  obtain t1 where t1: "run_events b1 s = Ok t1" "\<And>c. stream t1 c = posted_to c p1"
    using events_follow[OF assms(1,5)] assms(2,4) fits(1) by (auto simp: follows_def)
  obtain t where t: "run_events (b1 @ b2) s = Ok t" "\<And>c. stream t c = posted_to c (p1 @ p2)"
    using events_follow[OF assms(1,7)] assms(2,6) fits(2) by (auto simp: follows_def)
  have "run_events b2 t1 = Ok t" using t(1) t1(1) by (simp add: run_events_append)
  moreover have "\<exists>g. gate_run net xs empty_gate = Inr g \<and> spoke ids (b1 @ b2) g" if "network ids quiet t1 t net" for net
  proof -
    have "reads (gate_src ids quiet p1 p2 n) [] (net n)" if opens: "G_open n ver \<in> set xs" for n ver
    proof -
      have "n \<in> fst ` set ids" using opens assms(11) by (auto simp: opened_def)
      then obtain c where c: "(n, c) \<in> set ids" by auto
      then have "map_of ids n = Some c" using assms(12) by simp
      moreover have "delivers (if n = quiet then [stream t1 c, List.drop (length (stream t1 c)) (stream t c)]
          else [stream t c]) (net n)" using \<open>network ids quiet t1 t net\<close> c by (auto simp: network_def)
      ultimately show ?thesis
        by (intro delivers_reads) (simp add: gate_src_def msgs_for_stream t1(2) t(2) split: if_splits)
    qed
    moreover have "shows_gate ([], []) empty_gate" by (simp add: shows_gate_def empty_gate_def)
    ultimately obtain g where "gate_run net xs empty_gate = Inr g" "shows_gate d g"
      using desk_run_sound[OF _ assms(9)] by blast
    then show ?thesis using spoke_desk assms(10) by blast
  qed
  ultimately show ?thesis using t1(1) by blast
qed

end
