(* ===== verification/Gate_Pass.thy ===== *)
theory Gate_Pass
  imports Gate_Desk Tool_Launch
begin

text \<open>
  The protocol gate passes on the modelled relay: for each of its three scenarios the events the
  relay sees, what the machine of Relay_Spec posts for them, and the run of the scenario over
  the queues of Gate_Desk, in which every check of tools/bbnet_client_sim.py holds.
\<close>

section \<open>The scenario of joins, a match and leaving\<close>

definition main_steps :: "gstep list" where
  "main_steps = main_joins 2 @ main_match 2 @ main_leaves 2"

lemma upt_4: "[0..<4] = [0, 1, 2, 3]"
  by (simp add: upt_rec)

lemma upt_2: "[0..<2] = [0, 1]"
  by (simp add: upt_rec)

lemma gate_types:
  "sim_T ''LOBBY'' = Some T_LOBBY" "sim_T ''ROOM'' = Some T_ROOM" "sim_T ''START'' = Some T_START" "sim_T ''JOIN'' = Some T_JOIN"
  "sim_T ''GO'' = Some T_GO" "sim_T ''INPUT'' = Some T_INPUT" "sim_T ''STATE'' = Some T_STATE" "sim_T ''CRC'' = Some T_CRC"
  "sim_T ''PEER_LEFT'' = Some T_PEER_LEFT"
  by (simp_all add: sim_T_def T_defs)

definition main_before :: "event list" where
  "main_before =
     [Ev_accept (Accepted (''127.0.0.1'', 1) True) 0, from_cli 1 (encode_msg (T_HELLO, 2 # utf8_encode ''ALICE'')),
      Ev_accept (Accepted (''127.0.0.1'', 2) True) 0, from_cli 2 (encode_msg (T_HELLO, 1 # utf8_encode ''OLDGUY'')),
      from_cli 2 [],
      Ev_accept (Accepted (''127.0.0.1'', 3) True) 0, from_cli 3 (encode_msg (T_HELLO, 2 # utf8_encode ''BOB'')),
      Ev_accept (Accepted (''127.0.0.1'', 4) True) 0, from_cli 4 (encode_msg (T_HELLO, 2 # utf8_encode ''EVE'')),
      from_cli 4 (encode_msg (T_LIST, [])), from_cli 3 (encode_msg (T_JOIN, sim_pad ''ALICE'')),
      from_cli 4 (encode_msg (T_LIST, [])), from_cli 4 (encode_msg (T_LIST, [])), from_cli 4 (encode_msg (T_LIST, [])),
      from_cli 4 (encode_msg (T_JOIN, sim_pad ''ALICE'')),
      from_cli 3 (encode_msg (T_GO, [])), from_cli 1 (encode_msg (T_GO, [])),
      from_cli 4 (encode_msg (T_LIST, [])), from_cli 4 (encode_msg (T_JOIN, sim_pad ''ALICE'')),
      from_cli 1 (encode_msg (T_INPUT, [0, 5, 0, 0x44, 0]))]"

definition main_after :: "event list" where
  "main_after =
     [from_cli 1 (encode_msg (T_STATE, [0, 0xFF, 9, 0])),
      from_cli 1 (encode_msg (T_CRC, [0, 64, 0, 0xEF, 0xBE])), from_cli 3 (encode_msg (T_CRC, [1, 64, 0, 0xEF, 0xBE])),
      from_cli 1 (encode_msg (T_CRC, [0, 128, 0, 0xEF, 0xBE])), from_cli 3 (encode_msg (T_CRC, [1, 128, 0, 0xEF, 0xBE])),
      from_cli 1 (encode_msg (T_CRC, [0, 192, 0, 0xEF, 0xBE])), from_cli 3 (encode_msg (T_CRC, [1, 192, 0, 0xEF, 0xBE])),
      from_cli 1 (encode_msg (T_CRC, [0, 0, 1, 0xEF, 0xBE])), from_cli 3 (encode_msg (T_CRC, [1, 0, 1, 0xEF, 0xBE])),
      from_cli 1 (encode_msg (T_CRC, [0, 64, 1, 0x11, 0x11])), from_cli 3 (encode_msg (T_CRC, [1, 64, 1, 0x22, 0x22])),
      from_cli 3 [], from_cli 4 (encode_msg (T_LIST, [])), from_cli 4 [],
      Ev_accept (Accepted (''127.0.0.1'', 5) True) 0, from_cli 5 (encode_msg (T_HELLO, 2 # utf8_encode ''GUESTA'')),
      from_cli 5 (encode_msg (T_JOIN, sim_pad ''ALICE'')), from_cli 5 [],
      Ev_accept (Accepted (''127.0.0.1'', 6) True) 0, from_cli 6 (encode_msg (T_HELLO, 2 # utf8_encode ''GUESTC'')),
      from_cli 6 (encode_msg (T_JOIN, sim_pad ''ALICE'')), from_cli 1 [], from_cli 6 []]"

lemma main_script: "script_events main_steps [] 1 = [main_before, main_after]"
  unfolding main_steps_def main_before_def main_after_def
  by (simp add: main_joins_def main_match_def main_leaves_def ROOM_NAMES_def st_def Let_def join_name_def
    others_crcs_def crc_send_def List.enumerate_eq_zip upt_4 gate_types)
     (simp add: eval_nat_numeral)

lemma gate_names:
  "utf8_encode ''ALICE'' = [65, 76, 73, 67, 69]" "utf8_encode ''OLDGUY'' = [79, 76, 68, 71, 85, 89]"
  "utf8_encode ''BOB'' = [66, 79, 66]" "utf8_encode ''EVE'' = [69, 86, 69]"
  "utf8_encode ''GUESTA'' = [71, 85, 69, 83, 84, 65]" "utf8_encode ''GUESTC'' = [71, 85, 69, 83, 84, 67]"
  "sim_pad ''ALICE'' = [65, 76, 73, 67, 69, 0, 0, 0]"
  by code_simp+

lemma gate_wire:
  "wire_name [65, 76, 73, 67, 69] = ''ALICE''" "wire_name [66, 79, 66] = ''BOB''" "wire_name [69, 86, 69] = ''EVE''"
  "wire_name [71, 85, 69, 83, 84, 65] = ''GUESTA''" "wire_name [71, 85, 69, 83, 84, 67] = ''GUESTC''"
  "wire_name [65, 76, 73, 67, 69, 0, 0, 0] = ''ALICE''"
  "valid_name ''ALICE''" "valid_name ''BOB''" "valid_name ''EVE''" "valid_name ''GUESTA''" "valid_name ''GUESTC''"
  by code_simp+

lemma gate_fields:
  "name_field ''ALICE'' = [65, 76, 73, 67, 69, 0, 0, 0]" "name_field ''BOB'' = [66, 79, 66, 0, 0, 0, 0, 0]"
  "name_field ''EVE'' = [69, 86, 69, 0, 0, 0, 0, 0]" "name_field ''GUESTA'' = [71, 85, 69, 83, 84, 65, 0, 0]"
  "name_field ''GUESTC'' = [71, 85, 69, 83, 84, 67, 0, 0]"
  by code_simp+

lemma decode_one: "length (snd m) < 200 \<Longrightarrow> decode (encode_msg m) = ([m], [], False)"
  using decode_encoded[of "[m]"] by simp

lemma encode_nonempty: "encode_msg m \<noteq> []"
  by (simp add: encode_msg_def)

lemmas gate_machine_simps = respond_def dialogue.simps pass_on_def greet_def show_list_def list_post_def ask_to_join_def
  ask_to_start_def sit_down_def commence_def depart_def room_post_def start_post_def nick_def nick_field_def Let_def
  RELAY_TYPES_def T_defs PROTO_VER_def

text \<open>What the relay posts, with the two bytes of the seed.\<close>

definition seats2 :: "byte list \<Rightarrow> byte list \<Rightarrow> byte list" where
  "seats2 a b = a @ b @ replicate 16 0"

definition alice :: "byte list" where "alice = [65, 76, 73, 67, 69, 0, 0, 0]"
definition bob :: "byte list" where "bob = [66, 79, 66, 0, 0, 0, 0, 0]"
definition guesta :: "byte list" where "guesta = [71, 85, 69, 83, 84, 65, 0, 0]"
definition guestc :: "byte list" where "guestc = [71, 85, 69, 83, 84, 67, 0, 0]"

definition posts_before :: "byte \<Rightarrow> byte \<Rightarrow> post list" where
  "posts_before lo hi =
     [(1, T_LOBBY, [0]), (3, T_LOBBY, 1 # alice @ [1]), (4, T_LOBBY, 2 # alice @ 1 # bob @ [1]),
      (4, T_LOBBY, 2 # alice @ 1 # bob @ [1]),
      (1, T_ROOM, 2 # seats2 alice bob), (3, T_ROOM, 2 # seats2 alice bob),
      (4, T_LOBBY, 2 # alice @ 0x82 # bob @ [0x82]), (4, T_LOBBY, 2 # alice @ 0x82 # bob @ [0x82]),
      (4, T_LOBBY, 2 # alice @ 0x82 # bob @ [0x82]), (4, T_LOBBY, 2 # alice @ 0x82 # bob @ [0x82]),
      (1, T_START, [0, 2, lo, hi, 3] @ seats2 alice bob), (3, T_START, [1, 2, lo, hi, 3] @ seats2 alice bob),
      (4, T_LOBBY, 2 # alice @ 0x82 # bob @ [0x82]), (4, T_LOBBY, 2 # alice @ 0x82 # bob @ [0x82]),
      (3, T_INPUT, [0, 5, 0, 0x44, 0])]"

definition posts_after :: "post list" where
  "posts_after =
     [(3, T_STATE, [0, 0xFF, 9, 0]),
      (3, T_CRC, [0, 64, 0, 0xEF, 0xBE]), (1, T_CRC, [1, 64, 0, 0xEF, 0xBE]),
      (3, T_CRC, [0, 128, 0, 0xEF, 0xBE]), (1, T_CRC, [1, 128, 0, 0xEF, 0xBE]),
      (3, T_CRC, [0, 192, 0, 0xEF, 0xBE]), (1, T_CRC, [1, 192, 0, 0xEF, 0xBE]),
      (3, T_CRC, [0, 0, 1, 0xEF, 0xBE]), (1, T_CRC, [1, 0, 1, 0xEF, 0xBE]),
      (3, T_CRC, [0, 64, 1, 0x11, 0x11]), (1, T_CRC, [1, 64, 1, 0x22, 0x22]),
      (1, T_PEER_LEFT, 1 # bob), (4, T_LOBBY, 1 # alice @ [1]),
      (5, T_LOBBY, 1 # alice @ [1]), (1, T_ROOM, 2 # seats2 alice guesta), (5, T_ROOM, 2 # seats2 alice guesta),
      (1, T_ROOM, 0 # replicate 32 0),
      (6, T_LOBBY, 1 # alice @ [1]), (1, T_ROOM, 2 # seats2 alice guestc), (6, T_ROOM, 2 # seats2 alice guestc),
      (6, T_ROOM, 0 # replicate 32 0)]"

lemmas field_defs = alice_def bob_def guesta_def guestc_def seats2_def

definition seed_lo :: "nat list \<Rightarrow> byte" where "seed_lo rands = word_of_nat (seed_of rands AND 0xFF)"
definition seed_hi :: "nat list \<Rightarrow> byte" where "seed_hi rands = word_of_nat (drop_bit 8 (seed_of rands))"

lemmas gate_event_simps = gate_boot_def from_cli_def gate_machine_simps house_simps gate_names gate_wire gate_fields
  decode_one encode_nonempty field_defs seed_lo_def seed_hi_def

lemma before_posts:
  "snd (happenings (gate_boot @ main_before) (empty_house 3 0 rands)) = posts_before (seed_lo rands) (seed_hi rands)"
  "all_admissible (gate_boot @ main_before) (empty_house 3 0 rands)"
  by (simp_all add: main_before_def posts_before_def gate_event_simps)

lemma all_posts:
  "snd (happenings ((gate_boot @ main_before) @ main_after) (empty_house 3 0 rands)) =
     posts_before (seed_lo rands) (seed_hi rands) @ posts_after"
  "all_admissible ((gate_boot @ main_before) @ main_after) (empty_house 3 0 rands)"
  by (simp_all add: main_before_def main_after_def posts_before_def posts_after_def gate_event_simps)

definition main_ids :: "(string \<times> cid) list" where
  "main_ids = [(''ALICE'', 1), (''OLDGUY'', 2), (''BOB'', 3), (''EVE'', 4), (''GUESTA'', 5), (''GUESTC'', 6)]"

abbreviation main_src :: "byte \<Rightarrow> byte \<Rightarrow> string \<Rightarrow> msgs list" where
  "main_src lo hi \<equiv> gate_src main_ids ''ALICE'' (posts_before lo hi) posts_after"

lemma main_reads:
  "main_src lo hi ''ALICE'' =
     [[(T_LOBBY, [0]), (T_ROOM, 2 # seats2 alice bob), (T_START, [0, 2, lo, hi, 3] @ seats2 alice bob)],
      [(T_CRC, [1, 64, 0, 0xEF, 0xBE]), (T_CRC, [1, 128, 0, 0xEF, 0xBE]), (T_CRC, [1, 192, 0, 0xEF, 0xBE]),
       (T_CRC, [1, 0, 1, 0xEF, 0xBE]), (T_CRC, [1, 64, 1, 0x22, 0x22]), (T_PEER_LEFT, 1 # bob),
       (T_ROOM, 2 # seats2 alice guesta), (T_ROOM, 0 # replicate 32 0), (T_ROOM, 2 # seats2 alice guestc)]]"
  "main_src lo hi ''OLDGUY'' = [[]]"
  "main_src lo hi ''BOB'' =
     [[(T_LOBBY, 1 # alice @ [1]), (T_ROOM, 2 # seats2 alice bob), (T_START, [1, 2, lo, hi, 3] @ seats2 alice bob),
       (T_INPUT, [0, 5, 0, 0x44, 0]), (T_STATE, [0, 0xFF, 9, 0]),
       (T_CRC, [0, 64, 0, 0xEF, 0xBE]), (T_CRC, [0, 128, 0, 0xEF, 0xBE]), (T_CRC, [0, 192, 0, 0xEF, 0xBE]),
       (T_CRC, [0, 0, 1, 0xEF, 0xBE]), (T_CRC, [0, 64, 1, 0x11, 0x11])]]"
  "main_src lo hi ''EVE'' =
     (let one = (T_LOBBY, 2 # alice @ 1 # bob @ [1]); two = (T_LOBBY, 2 # alice @ 0x82 # bob @ [0x82])
      in [[one, one, two, two, two, two, two, two, (T_LOBBY, 1 # alice @ [1])]])"
  "main_src lo hi ''GUESTA'' = [[(T_LOBBY, 1 # alice @ [1]), (T_ROOM, 2 # seats2 alice guesta)]]"
  "main_src lo hi ''GUESTC'' =
     [[(T_LOBBY, 1 # alice @ [1]), (T_ROOM, 2 # seats2 alice guestc), (T_ROOM, 0 # replicate 32 0)]]"
  by (simp_all add: gate_src_def main_ids_def msgs_for_def posts_before_def posts_after_def Let_def eval_nat_numeral)

lemma start_check:
  "chk_roster 5 [''ALICE'', ''BOB''] ([i, j, lo, hi, k] @ seats2 alice bob) = Inr True"
proof -
  have "take 32 (List.drop 5 ([i, j, lo, hi, k] @ seats2 alice bob)) = seats2 alice bob"
    by (simp add: field_defs)
  moreover have "(case roster_names (seats2 alice bob) of Inl e \<Rightarrow> Inl e
      | Inr ns \<Rightarrow> Inr (take (length [''ALICE'', ''BOB'']) ns = map codepoints [''ALICE'', ''BOB''])) = (Inr True :: exn + bool)" by code_simp
  ultimately show ?thesis by (simp only: chk_roster_def)
qed

lemma main_checks:
  "chk_status ''ALICE'' (st 2 1) (2 # alice @ 1 # bob @ [1]) = Inr True"
  "chk_room [''ALICE'', ''BOB''] (2 # seats2 alice bob) = Inr True"
  "chk_status ''ALICE'' (st 2 2) (2 # alice @ 0x82 # bob @ [0x82]) = Inr True"
  "chk_status ''BOB'' (st 2 2) (2 # alice @ 0x82 # bob @ [0x82]) = Inr True"
  "chk_status_hex ''ALICE'' (0x80 OR 2) (2 # alice @ 0x82 # bob @ [0x82]) = Inr True"
  "chk_left 1 ''BOB'' (1 # bob) = Inr True"
  "chk_status ''ALICE'' 1 (1 # alice @ [1]) = Inr True"
  by code_simp+

lemma gate_lengths:
  "length alice = 8" "length bob = 8" "length guesta = 8" "length guestc = 8" "length (seats2 a b) = length a + length b + 16"
  by (simp_all add: field_defs)

lemma gate_lens:
  "length (utf8_encode ''ALICE'') = 5" "length (utf8_encode ''OLDGUY'') = 6" "length (utf8_encode ''BOB'') = 3"
  "length (utf8_encode ''EVE'') = 3" "length (utf8_encode ''GUESTA'') = 6" "length (utf8_encode ''GUESTC'') = 6"
  "length (sim_pad ''ALICE'') = 8"
  by (simp_all add: gate_names)


lemmas desk_simps = Let_def join_name_def take_msg_def say_def holds_def gate_types
  gate_lengths gate_lens main_checks main_checks [simplified] chk_any_def chk_byte_def chk_len_def chk_least_def
  chk_is_def chk_and_def start_check [simplified] others_crcs_def crc_send_def List.enumerate_eq_zip upt_4

lemma main_desk:
  "\<exists>d. desk_run (main_src lo hi) main_steps ([], []) = Some d \<and>
     desk_spoke main_ids ((gate_boot @ main_before) @ main_after) d"
  by (simp add: main_steps_def main_joins_def main_match_def main_leaves_def ROOM_NAMES_def main_reads desk_simps)
     (simp add: desk_spoke_def main_ids_def gate_boot_def main_before_def main_after_def eval_nat_numeral)

lemma opened_simps [simp]:
  "opened [] = {}" "opened (G_open n ver # xs) = insert n (opened xs)" "opened (G_send n t p # xs) = opened xs"
  "opened (G_expect n t chk # xs) = opened xs" "opened (G_start n chk # xs) = opened xs" "opened (G_same_seed # xs) = opened xs"
  "opened (G_poll n chk # xs) = opened xs" "opened (G_refused n # xs) = opened xs" "opened (G_silent n # xs) = opened xs"
  "opened (G_until_start n chk # xs) = opened xs" "opened (G_starts m n chk2 # xs) = opened xs" "opened (G_close n # xs) = opened xs"
  "opened (xs @ ys) = opened xs \<union> opened ys"
  by (auto simp: opened_def)

lemma fresh_server:
  "stream (Server_init port delay None auto_go sends rands) c = []"
  "cl_tx (client_of (Server_init port delay None auto_go sends rands) c) = []"
  by (simp_all add: stream_def Server_init_def Client_init_def)

lemma main_passes:
  assumes "list_all (\<lambda>r. r \<noteq> Send_fails \<and> r \<noteq> Sent 0) sends"
  shows "\<exists>t1 t. run_events (gate_boot @ main_before) (Server_init port 3 None 0 sends rands) = Ok t1 \<and> run_events main_after t1 = Ok t \<and>
    (\<forall>net. network main_ids ''ALICE'' t1 t net \<longrightarrow>
      (\<exists>g. gate_run net main_steps empty_gate = Inr g \<and> spoke main_ids ((gate_boot @ main_before) @ main_after) g))"
proof -
  let ?w = "empty_house 3 0 rands" and ?s = "Server_init port 3 None 0 sends rands"
  have f: "faithful ?s ?w" by (rule faithful_start) (use assms in simp_all)
  obtain d where d: "desk_run (main_src (seed_lo rands) (seed_hi rands)) main_steps ([], []) = Some d"
      "desk_spoke main_ids ((gate_boot @ main_before) @ main_after) d" using main_desk by blast
  have "sum_list (map (\<lambda>(c, m). length (snd m) + 2) (posts_before lo hi @ posts_after)) \<le> MAX_TX_BACKLOG" for lo hi
    by (simp add: posts_before_def posts_after_def gate_lengths MAX_TX_BACKLOG_def)
  moreover have "opened main_steps \<subseteq> fst ` set main_ids" "distinct (map fst main_ids)"
    by (simp_all add: main_ids_def main_steps_def main_joins_def main_match_def main_leaves_def ROOM_NAMES_def desk_simps)
  ultimately show ?thesis
    by (intro scenario_passes[OF f fresh_server before_posts all_posts _ d])
qed

section \<open>The automatic start\<close>

definition eve :: "byte list" where "eve = [69, 86, 69, 0, 0, 0, 0, 0]"
definition frank :: "byte list" where "frank = [70, 82, 65, 78, 75, 0, 0, 0]"

definition auto_events :: "event list" where
  "auto_events =
     [Ev_accept (Accepted (''127.0.0.1'', 1) True) 0, from_cli 1 (encode_msg (T_HELLO, 2 # utf8_encode ''EVE'')),
      Ev_accept (Accepted (''127.0.0.1'', 2) True) 0, from_cli 2 (encode_msg (T_HELLO, 2 # utf8_encode ''FRANK'')),
      from_cli 2 (encode_msg (T_JOIN, sim_pad ''EVE'')), from_cli 1 [], from_cli 2 []]"

definition auto_posts :: "byte \<Rightarrow> byte \<Rightarrow> post list" where
  "auto_posts lo hi =
     [(1, T_LOBBY, [0]), (2, T_LOBBY, 1 # eve @ [1]),
      (1, T_ROOM, 2 # seats2 eve frank), (2, T_ROOM, 2 # seats2 eve frank),
      (1, T_START, [0, 2, lo, hi, 3] @ seats2 eve frank), (2, T_START, [1, 2, lo, hi, 3] @ seats2 eve frank),
      (2, T_PEER_LEFT, 0 # eve)]"

definition auto_ids :: "(string \<times> cid) list" where
  "auto_ids = [(''EVE'', 1), (''FRANK'', 2)]"

lemma auto_script: "script_events autogo_steps [] 1 = [auto_events]"
  by (simp add: autogo_steps_def auto_events_def join_name_def gate_types numeral_2_eq_2)

lemma auto_names:
  "utf8_encode ''FRANK'' = [70, 82, 65, 78, 75]" "wire_name [70, 82, 65, 78, 75] = ''FRANK''" "valid_name ''FRANK''"
  "sim_pad ''EVE'' = [69, 86, 69, 0, 0, 0, 0, 0]" "wire_name [69, 86, 69, 0, 0, 0, 0, 0] = ''EVE''"
  "name_field ''FRANK'' = [70, 82, 65, 78, 75, 0, 0, 0]"
  by code_simp+

lemma auto_run:
  "snd (happenings (gate_boot @ auto_events) (empty_house 3 2 rands)) = auto_posts (seed_lo rands) (seed_hi rands)"
  "all_admissible (gate_boot @ auto_events) (empty_house 3 2 rands)"
  by (simp_all add: auto_events_def auto_posts_def eve_def frank_def auto_names gate_event_simps)

lemma auto_reads:
  "gate_src auto_ids [] (auto_posts lo hi) [] ''EVE'' =
     [[(T_LOBBY, [0]), (T_ROOM, 2 # seats2 eve frank), (T_START, [0, 2, lo, hi, 3] @ seats2 eve frank)]]"
  "gate_src auto_ids [] (auto_posts lo hi) [] ''FRANK'' =
     [[(T_LOBBY, 1 # eve @ [1]), (T_ROOM, 2 # seats2 eve frank), (T_START, [1, 2, lo, hi, 3] @ seats2 eve frank),
       (T_PEER_LEFT, 0 # eve)]]"
  by (simp_all add: gate_src_def auto_ids_def msgs_for_def auto_posts_def)

lemma auto_lens:
  "length eve = 8" "length frank = 8" "length (utf8_encode ''FRANK'') = 5" "length (sim_pad ''EVE'') = 8"
  by (simp_all add: eve_def frank_def auto_names)

lemma auto_desk:
  "\<exists>d. desk_run (gate_src auto_ids [] (auto_posts lo hi) []) autogo_steps ([], []) = Some d \<and>
     desk_spoke auto_ids ((gate_boot @ auto_events) @ []) d"
  by (simp add: autogo_steps_def auto_reads auto_lens chk_autogo_def desk_simps)
     (simp add: desk_spoke_def auto_ids_def gate_boot_def auto_events_def)

lemma auto_passes:
  assumes "list_all (\<lambda>r. r \<noteq> Send_fails \<and> r \<noteq> Sent 0) sends"
  shows "\<exists>t. run_events (gate_boot @ auto_events) (Server_init port 3 None 2 sends rands) = Ok t \<and>
    (\<forall>net. network auto_ids [] t t net \<longrightarrow>
      (\<exists>g. gate_run net autogo_steps empty_gate = Inr g \<and> spoke auto_ids (gate_boot @ auto_events) g))"
proof -
  let ?w = "empty_house 3 2 rands" and ?s = "Server_init port 3 None 2 sends rands"
  have f: "faithful ?s ?w" by (rule faithful_start) (use assms in simp_all)
  obtain d where d: "desk_run (gate_src auto_ids [] (auto_posts (seed_lo rands) (seed_hi rands)) []) autogo_steps ([], []) = Some d"
      "desk_spoke auto_ids ((gate_boot @ auto_events) @ []) d" using auto_desk by blast
  have "sum_list (map (\<lambda>(c, m). length (snd m) + 2) (auto_posts lo hi @ [])) \<le> MAX_TX_BACKLOG" for lo hi
    by (simp add: auto_posts_def gate_lengths auto_lens MAX_TX_BACKLOG_def)
  moreover have "opened autogo_steps \<subseteq> fst ` set auto_ids" "distinct (map fst auto_ids)"
    by (simp_all add: auto_ids_def autogo_steps_def join_name_def)
  ultimately have "\<exists>t1 t. run_events (gate_boot @ auto_events) ?s = Ok t1 \<and> run_events [] t1 = Ok t \<and>
    (\<forall>net. network auto_ids [] t1 t net \<longrightarrow>
      (\<exists>g. gate_run net autogo_steps empty_gate = Inr g \<and> spoke auto_ids ((gate_boot @ auto_events) @ []) g))"
    using auto_run by (intro scenario_passes[OF f fresh_server auto_run _ _ _ d]) (simp_all only: append_Nil2)
  then show ?thesis by simp
qed

section \<open>A full room\<close>

definition p1aa :: "byte list" where "p1aa = [80, 49, 65, 65, 0, 0, 0, 0]"
definition p2bb :: "byte list" where "p2bb = [80, 50, 66, 66, 0, 0, 0, 0]"

definition full_before :: "event list" where
  "full_before =
     [Ev_accept (Accepted (''127.0.0.1'', 1) True) 0, from_cli 1 (encode_msg (T_HELLO, 2 # utf8_encode ''P1AA'')),
      Ev_accept (Accepted (''127.0.0.1'', 2) True) 0, from_cli 2 (encode_msg (T_HELLO, 2 # utf8_encode ''P2BB'')),
      from_cli 2 (encode_msg (T_JOIN, sim_pad ''P1AA'')),
      Ev_accept (Accepted (''127.0.0.1'', 3) True) 0, from_cli 3 (encode_msg (T_HELLO, 2 # utf8_encode ''PZZZ'')),
      from_cli 3 (encode_msg (T_JOIN, sim_pad ''P1AA'')), from_cli 2 (encode_msg (T_INPUT, [1, 7, 0, 0x40, 0]))]"

definition full_after :: "event list" where
  "full_after = [from_cli 1 [], from_cli 2 [], from_cli 3 []]"

definition full_posts :: "byte \<Rightarrow> byte \<Rightarrow> post list" where
  "full_posts lo hi =
     [(1, T_LOBBY, [0]), (2, T_LOBBY, 1 # p1aa @ [1]),
      (1, T_ROOM, 2 # seats2 p1aa p2bb), (2, T_ROOM, 2 # seats2 p1aa p2bb),
      (1, T_START, [0, 2, lo, hi, 3] @ seats2 p1aa p2bb), (2, T_START, [1, 2, lo, hi, 3] @ seats2 p1aa p2bb),
      (3, T_LOBBY, 2 # p1aa @ 0x82 # p2bb @ [0x82]), (3, T_LOBBY, 2 # p1aa @ 0x82 # p2bb @ [0x82]),
      (1, T_INPUT, [1, 7, 0, 0x40, 0])]"

definition full_last :: "post list" where "full_last = [(2, T_PEER_LEFT, 0 # p1aa)]"

definition full_ids :: "(string \<times> cid) list" where
  "full_ids = [(''P1AA'', 1), (''P2BB'', 2), (''PZZZ'', 3)]"

lemma full_names:
  "full_name 0 = ''P1AA''" "full_name (Suc 0) = ''P2BB''"
  "utf8_encode ''P1AA'' = [80, 49, 65, 65]" "utf8_encode ''P2BB'' = [80, 50, 66, 66]" "utf8_encode ''PZZZ'' = [80, 90, 90, 90]"
  "wire_name [80, 49, 65, 65] = ''P1AA''" "wire_name [80, 50, 66, 66] = ''P2BB''" "wire_name [80, 90, 90, 90] = ''PZZZ''"
  "wire_name [80, 49, 65, 65, 0, 0, 0, 0] = ''P1AA''" "valid_name ''P1AA''" "valid_name ''P2BB''" "valid_name ''PZZZ''"
  "name_field ''P1AA'' = [80, 49, 65, 65, 0, 0, 0, 0]" "name_field ''P2BB'' = [80, 50, 66, 66, 0, 0, 0, 0]"
  "name_field ''PZZZ'' = [80, 90, 90, 90, 0, 0, 0, 0]" "sim_pad ''P1AA'' = [80, 49, 65, 65, 0, 0, 0, 0]"
  by code_simp+

lemma full_script: "script_events (full_steps 2) [] 1 = [full_before, full_after]"
  by (simp add: full_steps_def full_before_def full_after_def join_name_def gate_types Let_def List.enumerate_eq_zip
    full_names(1,2) numeral_2_eq_2)
     (simp add: eval_nat_numeral)

lemma full_run:
  "snd (happenings (gate_boot @ full_before) (empty_house 3 2 rands)) = full_posts (seed_lo rands) (seed_hi rands)"
  "all_admissible (gate_boot @ full_before) (empty_house 3 2 rands)"
  "snd (happenings ((gate_boot @ full_before) @ full_after) (empty_house 3 2 rands)) =
     full_posts (seed_lo rands) (seed_hi rands) @ full_last"
  "all_admissible ((gate_boot @ full_before) @ full_after) (empty_house 3 2 rands)"
  by (simp_all add: full_before_def full_after_def full_posts_def full_last_def p1aa_def p2bb_def full_names gate_event_simps)

lemma full_reads:
  "gate_src full_ids ''P2BB'' (full_posts lo hi) full_last ''P1AA'' =
     [[(T_LOBBY, [0]), (T_ROOM, 2 # seats2 p1aa p2bb), (T_START, [0, 2, lo, hi, 3] @ seats2 p1aa p2bb), (T_INPUT, [1, 7, 0, 0x40, 0])]]"
  "gate_src full_ids ''P2BB'' (full_posts lo hi) full_last ''P2BB'' =
     [[(T_LOBBY, 1 # p1aa @ [1]), (T_ROOM, 2 # seats2 p1aa p2bb), (T_START, [1, 2, lo, hi, 3] @ seats2 p1aa p2bb)],
      [(T_PEER_LEFT, 0 # p1aa)]]"
  "gate_src full_ids ''P2BB'' (full_posts lo hi) full_last ''PZZZ'' =
     [[(T_LOBBY, 2 # p1aa @ 0x82 # p2bb @ [0x82]), (T_LOBBY, 2 # p1aa @ 0x82 # p2bb @ [0x82])]]"
  by (simp_all add: gate_src_def full_ids_def msgs_for_def full_posts_def full_last_def eval_nat_numeral)

lemma full_check: "chk_roster 5 [''P1AA'', ''P2BB''] ([i, j, lo, hi, k] @ seats2 p1aa p2bb) = Inr True"
proof -
  have "take 32 (List.drop 5 ([i, j, lo, hi, k] @ seats2 p1aa p2bb)) = seats2 p1aa p2bb"
    by (simp add: seats2_def p1aa_def p2bb_def)
  moreover have "(case roster_names (seats2 p1aa p2bb) of Inl e \<Rightarrow> Inl e
      | Inr ns \<Rightarrow> Inr (take (length [''P1AA'', ''P2BB'']) ns = map codepoints [''P1AA'', ''P2BB''])) = (Inr True :: exn + bool)" by code_simp
  ultimately show ?thesis by (simp only: chk_roster_def)
qed

lemma full_lens:
  "length p1aa = 8" "length p2bb = 8" "length (utf8_encode ''P1AA'') = 4" "length (utf8_encode ''P2BB'') = 4"
  "length (utf8_encode ''PZZZ'') = 4" "length (sim_pad ''P1AA'') = 8"
  by (simp_all add: p1aa_def p2bb_def full_names)

lemma not_start: "T_LOBBY \<noteq> T_START" "T_ROOM \<noteq> T_START"
  by (simp_all add: T_defs)

lemma full_desk:
  "\<exists>d. desk_run (gate_src full_ids ''P2BB'' (full_posts lo hi) full_last) (full_steps 2) ([], []) = Some d \<and>
     desk_spoke full_ids ((gate_boot @ full_before) @ full_after) d"
  by (simp add: full_steps_def full_reads full_lens full_check [simplified] full_names(1,2) upt_2 not_start desk_simps)
     (simp add: desk_spoke_def full_ids_def gate_boot_def full_before_def full_after_def eval_nat_numeral)

lemma full_passes:
  assumes "list_all (\<lambda>r. r \<noteq> Send_fails \<and> r \<noteq> Sent 0) sends"
  shows "\<exists>t1 t. run_events (gate_boot @ full_before) (Server_init port 3 None 2 sends rands) = Ok t1 \<and> run_events full_after t1 = Ok t \<and>
    (\<forall>net. network full_ids ''P2BB'' t1 t net \<longrightarrow>
      (\<exists>g. gate_run net (full_steps 2) empty_gate = Inr g \<and> spoke full_ids ((gate_boot @ full_before) @ full_after) g))"
proof -
  let ?w = "empty_house 3 2 rands" and ?s = "Server_init port 3 None 2 sends rands"
  have f: "faithful ?s ?w" by (rule faithful_start) (use assms in simp_all)
  obtain d where d: "desk_run (gate_src full_ids ''P2BB'' (full_posts (seed_lo rands) (seed_hi rands)) full_last) (full_steps 2) ([], []) = Some d"
      "desk_spoke full_ids ((gate_boot @ full_before) @ full_after) d" using full_desk by blast
  have "sum_list (map (\<lambda>(c, m). length (snd m) + 2) (full_posts lo hi @ full_last)) \<le> MAX_TX_BACKLOG" for lo hi
    by (simp add: full_posts_def full_last_def gate_lengths full_lens MAX_TX_BACKLOG_def)
  moreover have "opened (full_steps 2) \<subseteq> fst ` set full_ids" "distinct (map fst full_ids)"
    by (simp_all add: full_ids_def full_steps_def full_names(1,2) numeral_2_eq_2 join_name_def Let_def List.enumerate_eq_zip)
  ultimately show ?thesis
    by (intro scenario_passes[OF f fresh_server full_run(1,2) full_run(3,4) _ d])
qed

section \<open>The gate\<close>

text \<open>
  The relay serves the events of a scenario; and a network that carries what it writes while it
  does.
\<close>

definition gate_events :: "gstep list \<Rightarrow> event list" where
  "gate_events xs = gate_boot @ concat (script_events xs [] 1)"

definition serves :: "gstep list \<Rightarrow> server \<Rightarrow> bool" where
  "serves xs s \<longleftrightarrow> (case run_events (gate_events xs) s of Ok t \<Rightarrow> True | Raise e t \<Rightarrow> False)"

definition carries :: "gstep list \<Rightarrow> (string \<times> cid) list \<Rightarrow> string \<Rightarrow> server \<Rightarrow> (string \<Rightarrow> sock_recv list) \<Rightarrow> bool" where
  "carries xs ids quiet s net \<longleftrightarrow>
     (case run_events (gate_boot @ hd (script_events xs [] 1)) s of
        Raise e t1 \<Rightarrow> False
      | Ok t1 \<Rightarrow> (case run_events (gate_events xs) s of Raise e t \<Rightarrow> False | Ok t \<Rightarrow> network ids quiet t1 t net))"

text \<open>The relay that \<open>start_server\<close> starts with some extra arguments.\<close>

definition gate_relay :: "nat \<Rightarrow> string list \<Rightarrow> send_result list \<Rightarrow> nat list \<Rightarrow> server option" where
  "gate_relay port extra sends rands =
     (case gate_command ''py'' False 2 port extra of None \<Rightarrow> None | Some (prog, args) \<Rightarrow> relay_started args sends rands)"

lemma gate_relays:
  "gate_relay port [] sends rands = Some (Server_init port 3 None 0 sends rands)"
  "gate_relay port [''--auto-go'', ''2''] sends rands = Some (Server_init port 3 None 2 sends rands)"
  "gate_relay port [''--auto-go'', dec 2] sends rands = Some (Server_init port 3 None 2 sends rands)"
proof -
  have two: "dec 2 = ''2''" by code_simp
  show "gate_relay port [] sends rands = Some (Server_init port 3 None 0 sends rands)"
    by (simp add: gate_relay_def gate_command_def relay_started_plain DEFAULT_DELAY_def)
  show auto: "gate_relay port [''--auto-go'', dec 2] sends rands = Some (Server_init port 3 None 2 sends rands)"
    by (simp add: gate_relay_def gate_command_def relay_started_autogo DEFAULT_DELAY_def)
  then show "gate_relay port [''--auto-go'', ''2''] sends rands = Some (Server_init port 3 None 2 sends rands)"
    by (simp only: two)
qed

definition gate_log :: "string list" where
  "gate_log = [''match: room'', ''CRC MISMATCH tick 320'', ''(4 rounds)'', ''peer left'']"

lemma serves_carries:
  assumes "script_events xs [] 1 = b1 # bs" "run_events (gate_boot @ b1) s = Ok t1" "run_events (concat bs) t1 = Ok t"
  shows "serves xs s" "carries xs ids quiet s net \<longleftrightarrow> network ids quiet t1 t net"
proof -
  have "run_events (gate_events xs) s = Ok t"
    using assms by (simp add: gate_events_def run_events_append[of "gate_boot @ b1", simplified append_assoc] del: append_assoc)
  then show "serves xs s" "carries xs ids quiet s net \<longleftrightarrow> network ids quiet t1 t net"
    using assms(1,2) by (simp_all add: serves_def carries_def)
qed


section \<open>The gate with bytes one by one\<close>

fun cut :: "byte list list \<Rightarrow> sock_recv list" where
  "cut [] = []"
| "cut [x] = map (\<lambda>b. Got [b]) x"
| "cut (x # xs) = map (\<lambda>b. Got [b]) x @ Timed_out # cut xs"

lemma cut_delivers: "bs \<noteq> [] \<Longrightarrow> delivers bs (cut bs)"
proof (induction bs rule: cut.induct)
  case (2 x)
  show ?case by (auto simp: list_all_iff intro!: exI[of _ "map (\<lambda>b. [b]) x"])
next
  case (3 x y ys)
  then show ?case by (auto simp: list_all_iff intro!: exI[of _ "map (\<lambda>b. [b]) x"])
qed simp

lemma carries_ex:
  assumes "serves xs s" "script_events xs [] 1 \<noteq> []" "distinct (map fst ids)"
  shows "\<exists>net. carries xs ids quiet s net"
proof -
  obtain t where t: "run_events (gate_events xs) s = Ok t" using assms(1) by (auto simp: serves_def split: outcome.splits)
  obtain b bs where b: "script_events xs [] 1 = b # bs" using assms(2) by (cases "script_events xs [] 1") auto
  obtain t1 where t1: "run_events (gate_boot @ b) s = Ok t1" "run_events (concat bs) t1 = Ok t"
    using t by (auto simp: gate_events_def b run_events_append[of "gate_boot @ b", simplified append_assoc] andthen_Ok_iff
      simp del: append_assoc One_nat_def)
  let ?net = "\<lambda>n. let c = the (map_of ids n)
    in cut (if n = quiet then [stream t1 c, List.drop (length (stream t1 c)) (stream t c)] else [stream t c])"
  have "network ids quiet t1 t ?net"
    unfolding network_def
  proof (clarify)
    fix n c
    assume "(n, c) \<in> set ids"
    then have "map_of ids n = Some c" using assms(3) by simp
    then show "delivers (if n = quiet then [stream t1 c, List.drop (length (stream t1 c)) (stream t c)] else [stream t c]) (?net n)"
      unfolding Let_def by (simp only: option.sel) (rule cut_delivers, simp)
  qed
  then show ?thesis using serves_carries(2)[OF b t1] by blast
qed


end
