(* ===== verification/Diff_Relay.thy ===== *)
theory Diff_Relay
  imports Diff_Scenarios Gate_Desk
begin

text \<open>
  The differential harness (tools/server_diff.py) against the modelled relay: a scenario in
  single steps, the events it makes the relay see, what the network then carries, and the
  machine of Relay_Spec in the relay's place.  The transcript of a scenario is the one the
  harness records of the machine, and the machine's draws do not show in it.
\<close>

section \<open>Scenarios in single steps\<close>

text \<open>\<open>hello\<close> and the frames of a scenario, spelled out as what the sockets are given.\<close>

fun spell :: "nat \<Rightarrow> action \<Rightarrow> action list" where
  "spell proto (Hello l name ver) =
     [Connect l, Raw l (encode_msg (T_HELLO, projr (hello_payload proto l name ver))), Sync (''hello '' @ l)]"
| "spell proto (Frame l t p) = [Raw l (encode_msg (the (map_of sd_T t), p))]"
| "spell proto (Frame_code l b p) = [Raw l (encode_msg (b, p))]"
| "spell proto a = [a]"

definition spelled :: "nat \<Rightarrow> action list \<Rightarrow> action list" where
  "spelled proto as = concat (map (spell proto) as)"

fun plain :: "action \<Rightarrow> bool" where
  "plain (Hello l name ver) = False"
| "plain (Frame l t p) = False"
| "plain (Frame_code l b p) = False"
| "plain _ = True"

lemma spelled_simps [simp]: "spelled proto [] = []" "spelled proto (a # as) = spell proto a @ spelled proto as"
  by (simp_all add: spelled_def)

lemma spelled_plain: "list_all plain (spelled proto as)"
proof -
  have "list_all plain (spell proto a)" for a by (cases a) simp_all
  then show ?thesis by (induction "as") simp_all
qed

lemma sd_exec_spell:
  assumes "proto < 256" "typed ls (a # as)"
  shows "sd_exec proto (spell proto a @ bs) net x = sd_exec proto (a # bs) net x"
proof (cases a)
  case (Hello l name ver)
  then have "length (utf8_encode l) < 254" "case name of None \<Rightarrow> True | Some n \<Rightarrow> length (utf8_encode n) < 254"
    "case ver of None \<Rightarrow> True | Some v \<Rightarrow> v < 256" using assms(2) by simp_all
  from hello_payload_ok[OF assms(1) this] obtain p where p: "hello_payload proto l name ver = Inr p" "length p < 255" by blast
  have t: "map_of sd_T ''HELLO'' = Some T_HELLO" by (simp add: sd_T_def T_HELLO_def)
  show ?thesis
    by (simp add: Hello p t send_frame_def sd_frame_ok split: sum.split prod.split)
next
  case (Frame l t p)
  then obtain b where "map_of sd_T t = Some b" "length p < 255" using assms(2) by auto
  then show ?thesis by (simp add: Frame send_frame_def sd_frame_ok)
next
  case (Frame_code l b p)
  then show ?thesis using assms(2) by (simp add: send_frame_def sd_frame_ok)
qed simp_all

lemma typed_spell:
  assumes "typed ls (a # as)"
  shows "typed ls (spell proto a @ bs) \<longleftrightarrow> typed (case a of Connect l \<Rightarrow> l # ls | Hello l n v \<Rightarrow> l # ls | _ \<Rightarrow> ls) bs"
  using assms by (cases a) auto

lemma typed_spelled: "typed ls as \<Longrightarrow> typed ls (spelled proto as)"
proof (induction "as" arbitrary: ls)
  case (Cons a "as")
  from Cons.prems have "typed (case a of Connect l \<Rightarrow> l # ls | Hello l n v \<Rightarrow> l # ls | _ \<Rightarrow> ls) as" by (cases a) auto
  with Cons.IH show ?case by (simp add: typed_spell[OF Cons.prems])
qed simp

lemma sd_exec_cong:
  assumes "\<And>net x. sd_exec proto as net x = sd_exec proto bs net x"
  shows "sd_exec proto (a # as) net x = sd_exec proto (a # bs) net x"
  using assms by (simp split: sum.split prod.split)

lemma sd_exec_spelled: "proto < 256 \<Longrightarrow> typed ls as \<Longrightarrow> sd_exec proto (spelled proto as) net x = sd_exec proto as net x"
proof (induction "as" arbitrary: ls net x)
  case (Cons a "as")
  from Cons.prems have t: "typed (case a of Connect l \<Rightarrow> l # ls | Hello l n v \<Rightarrow> l # ls | _ \<Rightarrow> ls) as" by (cases a) auto
  have "sd_exec proto (spelled proto (a # as)) net x = sd_exec proto (a # spelled proto as) net x"
    by (simp only: spelled_simps sd_exec_spell[OF Cons.prems])
  also have "\<dots> = sd_exec proto (a # as) net x"
    by (rule sd_exec_cong) (rule Cons.IH[OF Cons.prems(1) t])
  finally show ?case .
qed simp

section \<open>The relay during a scenario\<close>

text \<open>
  The events the relay sees, the \<open>k\<close>-th connection of the harness being its \<open>k\<close>-th client: one
  read for each write, an empty one for a close.
\<close>

fun act_events :: "action \<Rightarrow> sd_client list \<Rightarrow> event list" where
  "act_events (Connect l) cs = [Ev_accept (Accepted (''127.0.0.1'', length cs) True) 0]"
| "act_events (Raw l bs) cs =
     (case client_index l cs of
        None \<Rightarrow> [] | Some i \<Rightarrow> if dc_closed (cs ! i) \<or> bs = [] then [] else [from_cli i bs])"
| "act_events (Close l) cs =
     (case client_index l cs of None \<Rightarrow> [] | Some i \<Rightarrow> if dc_closed (cs ! i) then [] else [from_cli i []])"
| "act_events _ cs = []"

text \<open>
  What the network brings in a sync: to every open client what its socket has accepted since the
  last one, cut and interleaved in any way, and the end of the connection if the server has closed
  it; and nothing is left queued for an open client.
\<close>

definition conveys :: "(nat \<times> byte list) list list \<Rightarrow> sd_client list \<Rightarrow> server \<Rightarrow> server \<Rightarrow> bool" where
  "conveys rounds cs s0 s \<longleftrightarrow>
     list_all (\<lambda>r. r \<noteq> []) rounds \<and> sd_orderly (concat rounds) \<and>
     (\<forall>i < length cs. \<not> dc_closed (cs ! i) \<longrightarrow>
        cl_tx (client_of s i) = [] \<and>
        sd_got rounds i = List.drop (length (cl_wire (client_of s0 i))) (cl_wire (client_of s i)) \<and>
        sd_ended rounds i = cl_closed (client_of s i))"

text \<open>
  While the harness waits in a sync, sockets become writable in any order and accept what they
  like: the environment's answers to \<open>send\<close> from here on are \<open>sends\<close>.
\<close>

definition lets_write :: "nat \<Rightarrow> server \<Rightarrow> server \<Rightarrow> bool" where
  "lets_write n t u \<longleftrightarrow>
     (\<exists>sends ws. list_all (\<lambda>r. r \<noteq> Send_fails \<and> r \<noteq> Sent 0) sends \<and> list_all (\<lambda>c. c < n) ws \<and>
        run_events (map (\<lambda>c. Ev_client c True None) ws) (t\<lparr>sv_sends := sends\<rparr>) = Ok u)"

text \<open>
  The network of a whole scenario, in single steps: \<open>s0\<close> is the server at the last sync, \<open>s\<close> the
  server now.
\<close>

fun carried :: "action list \<Rightarrow> network \<Rightarrow> sd_ctx \<Rightarrow> server \<Rightarrow> server \<Rightarrow> bool" where
  "carried [] net x s0 s = True"
| "carried (a # as) net x s0 s =
     (case run_events (act_events a (dx_clients x)) s of
        Raise e t \<Rightarrow> True
      | Ok t \<Rightarrow>
          (case a of
             Sync step \<Rightarrow>
               net \<noteq> [] \<and>
               (\<exists>u. lets_write (length (dx_clients x)) t u \<and> conveys (hd net) (dx_clients x) s0 u \<and>
                  (case sd_action 2 a net x of Inl e \<Rightarrow> True | Inr (y, net') \<Rightarrow> carried as net' y u u))
           | _ \<Rightarrow> (case sd_action 2 a net x of Inl e \<Rightarrow> True | Inr (y, net') \<Rightarrow> carried as net' y s0 t)))"

section \<open>The machine during a scenario\<close>

type_synonym stage = "sd_ctx \<times> house \<times> post list"

definition note_sync :: "string \<Rightarrow> stage \<Rightarrow> stage" where
  "note_sync step g =
     (case g of (x, w, out) \<Rightarrow>
        let gone = (\<lambda>i. i \<notin> set (hl_present (fst w))) in
        (x\<lparr>dx_step := dx_step x + 1,
           dx_transcript := dx_transcript x @
             sync_lines 2 (dec02 (dx_step x + 1) @ '' '' @ step) (\<lambda>i. msgs_for i out) gone (dx_clients x),
           dx_clients := map (\<lambda>i. (dx_clients x ! i)\<lparr>dc_closed := dc_closed (dx_clients x ! i) \<or> gone i\<rparr>)
             [0..<length (dx_clients x)]\<rparr>, w, []))"

fun perform :: "action list \<Rightarrow> stage \<Rightarrow> stage" where
  "perform [] g = g"
| "perform (a # as) g =
     perform as
       (case a of
          Sync step \<Rightarrow> note_sync step g
        | _ \<Rightarrow> (case g of (x, w, out) \<Rightarrow>
            case happenings (act_events a (dx_clients x)) w of (w1, o1) \<Rightarrow>
              (case sd_action 2 a [] x of Inl e \<Rightarrow> x | Inr (y, net) \<Rightarrow> y, w1, out @ o1)))"

text \<open>Everything the machine posts in a scenario.\<close>

fun all_posts :: "action list \<Rightarrow> stage \<Rightarrow> post list" where
  "all_posts [] g = []"
| "all_posts (a # as) g =
     (case g of (x, w, out) \<Rightarrow>
        snd (happenings (act_events a (dx_clients x)) w) @ all_posts as (perform [a] g))"

definition connections :: "action list \<Rightarrow> nat" where
  "connections as = length (filter (\<lambda>a. case a of Connect l \<Rightarrow> True | _ \<Rightarrow> False) as)"

section \<open>Short posts\<close>

definition brief :: "post list \<Rightarrow> bool" where
  "brief out \<longleftrightarrow> list_all (\<lambda>(c, m). length (snd m) < 255) out"

lemma brief_simps [simp]:
  "brief []" "brief ((c, m) # out) \<longleftrightarrow> length (snd m) < 255 \<and> brief out" "brief (xs @ ys) \<longleftrightarrow> brief xs \<and> brief ys"
  by (simp_all add: brief_def)

lemma brief_msgs: "brief out \<Longrightarrow> list_all (\<lambda>m. length (snd m) < 255) (msgs_for i out)"
  by (induction out) (auto simp: msgs_for_def)

lemma length_nick_field [simp]: "length (nick_field h c) = 8" "length (name_field n) = 8"
  by (simp_all add: nick_field_def name_field_def)

lemma brief_list: "length (snd (list_post c h)) < 255"
proof -
  have "length (concat (map (\<lambda>(n, x). name_field n @ [if hl_table h x = None then 1 else 0x82]) xs)) = 9 * length xs" for xs
    by (induction xs) auto
  then show ?thesis by (simp add: list_post_def Let_def)
qed

lemma brief_depart: "brief (snd (depart c h))"
  by (auto simp: depart_def Let_def split: option.split)

lemma brief_commence: "brief (snd (commence a b h))"
  by (simp add: commence_def start_post_def Let_def)

lemma brief_greet: "brief (snd (greet c n h))"
  by (simp add: greet_def Let_def case_prod_unfold brief_depart brief_list split: option.split)

lemma brief_sit_down: "brief (snd (sit_down t c h))"
  by (simp add: sit_down_def Let_def case_prod_unfold brief_commence room_post_def)

lemma brief_join: "brief (snd (ask_to_join c payload h))"
  by (simp add: ask_to_join_def brief_depart show_list_def brief_list brief_sit_down split: option.split)

lemma brief_start: "brief (snd (ask_to_start c h))"
  by (simp add: ask_to_start_def case_prod_unfold brief_commence split: option.split)

lemma brief_respond: "length (snd m) < 255 \<Longrightarrow> brief (snd (respond c m h))"
  by (simp add: respond_def Let_def pass_on_def case_prod_unfold show_list_def brief_list brief_depart brief_greet brief_join
      brief_start split: option.split)

lemma brief_dialogue: "list_all (\<lambda>(c, m). length (snd m) < 255) ms \<Longrightarrow> brief (snd (dialogue ms h))"
proof (induction ms arbitrary: h)
  case (Cons cm ms)
  then show ?case using brief_respond by (cases cm) (auto simp: case_prod_unfold)
qed simp

lemma brief_decode: "decode xs = (ms, left, bad) \<Longrightarrow> list_all (\<lambda>m. length (snd m) < 255) ms"
proof (induction "length xs" arbitrary: xs ms left bad rule: less_induct)
  case less
  show ?case
  proof (cases "server_read xs")
    case (Msg m rest)
    then have m: "length (snd m) < 255" "length rest < length xs"
      by (auto simp: server_read_def Let_def split: if_splits)
    obtain ms' left' bad' where d: "decode rest = (ms', left', bad')" by (metis prod_cases3)
    have "ms = m # ms'" using less.prems by (simp add: decode_step[of xs] Msg d)
    then show ?thesis using less.hyps[OF m(2) d] m(1) by simp
  qed (use less.prems in \<open>simp_all add: decode_step[of xs]\<close>)
qed

lemma brief_happen: "brief (snd (happen e w))"
proof -
  have "brief (snd (hear c data w))" for c data
  proof -
    obtain ms left bad where d: "decode (po_inbox (snd w) c @ data) = (ms, left, bad)" by (metis prod_cases3)
    have "list_all (\<lambda>(c, m). length (snd m) < 255) (map (Pair c) ms)" using brief_decode[OF d] by (simp add: list_all_iff)
    from brief_dialogue[OF this] show ?thesis
      using brief_depart by (cases w) (use d in \<open>auto simp: hear_def case_prod_unfold\<close>)
  qed
  moreover have "brief (snd (hang_up c w))" for c using brief_depart by (cases w) (simp add: hang_up_def case_prod_unfold)
  ultimately show ?thesis by (cases "(e, w)" rule: happen.cases) auto
qed

lemma brief_happenings: "brief (snd (happenings es w))"
  by (induction es arbitrary: w) (simp_all add: case_prod_unfold brief_happen)

section \<open>A scenario follows the machine\<close>

definition calm :: "sd_ctx \<Rightarrow> bool" where
  "calm x \<longleftrightarrow> (\<forall>c \<in> set (dx_clients x). dc_buf c = [] \<and> \<not> dc_eof_seen c)"

definition staged :: "sd_ctx \<Rightarrow> server \<Rightarrow> server \<Rightarrow> house \<Rightarrow> post list \<Rightarrow> bool" where
  "staged x s0 s w out \<longleftrightarrow>
     faithful s w \<and> po_next (snd w) = length (dx_clients x) \<and> brief out \<and>
     calm x \<and>
     (\<forall>i. stream s i = stream s0 i @ posted_to i out) \<and>
     (\<forall>i < length (dx_clients x). \<not> dc_closed (dx_clients x ! i) \<longrightarrow> cl_tx (client_of s0 i) = [])"

lemma client_index_less: "client_index l cs = Some i \<Longrightarrow> i < length cs"
  by (induction cs arbitrary: i) (auto split: if_splits)

definition kept :: "sd_ctx \<Rightarrow> sd_ctx \<Rightarrow> bool" where
  "kept x y \<longleftrightarrow>
     (calm x \<longrightarrow> calm y) \<and> (\<forall>i < length (dx_clients x). dc_closed (dx_clients x ! i) \<longrightarrow> dc_closed (dx_clients y ! i))"

text \<open>What an action other than a sync does to the harness.\<close>

lemma on_client_kept:
  assumes "l \<in> set (labels x)" "\<And>c. dc_label (f c) = dc_label c"
    and "\<And>c. dc_buf (f c) = dc_buf c \<and> dc_eof_seen (f c) = dc_eof_seen c \<and> (dc_closed c \<longrightarrow> dc_closed (f c))"
  shows "\<exists>y. on_client l f x = Inr y \<and> labels y = labels x \<and> kept x y \<and> length (dx_clients y) = length (dx_clients x)"
proof -
  obtain y where y: "on_client l f x = Inr y" "labels y = labels x" using on_client_ok[OF assms(1,2)] by blast
  obtain i where i: "i < length (dx_clients x)" "client_index l (dx_clients x) = Some i"
    using client_index_labels assms(1) unfolding labels_def by blast
  then have z: "y = x\<lparr>dx_clients := (dx_clients x)[i := f (dx_clients x ! i)]\<rparr>" using y(1) by (simp add: on_client_def)
  have "calm y" if "calm x"
  proof -
    have "dc_buf (f (dx_clients x ! i)) = [] \<and> \<not> dc_eof_seen (f (dx_clients x ! i))"
      using that assms(3)[of "dx_clients x ! i"] i(1) by (simp add: calm_def)
    then show ?thesis using that set_update_subset_insert[of "dx_clients x" i "f (dx_clients x ! i)"] by (auto simp: z calm_def)
  qed
  moreover have "dc_closed (dx_clients x ! j) \<longrightarrow> dc_closed (dx_clients y ! j)" if "j < length (dx_clients x)" for j
    using assms(3)[of "dx_clients x ! i"] that by (cases "j = i") (simp_all add: z)
  ultimately show ?thesis using y by (auto simp: kept_def z)
qed

lemma dc_keeps [simp]:
  "dc_buf (dc_send d c) = dc_buf c" "dc_eof_seen (dc_send d c) = dc_eof_seen c" "dc_closed (dc_send d c) = dc_closed c"
  "dc_buf (dc_close c) = dc_buf c" "dc_eof_seen (dc_close c) = dc_eof_seen c" "dc_closed (dc_close c)"
  by (simp_all add: dc_send_def dc_close_def)

lemma act_harness:
  assumes "plain a" "\<forall>step. a \<noteq> Sync step" "typed (rev (labels x)) (a # as)"
  shows "\<exists>y. (\<forall>net. sd_action 2 a net x = Inr (y, net)) \<and> typed (rev (labels y)) as \<and> kept x y \<and>
    length (dx_clients y) = length (dx_clients x) + (case a of Connect l \<Rightarrow> 1 | _ \<Rightarrow> 0)"
proof (cases a)
  case (Connect l)
  have "kept x (connect l x)" by (auto simp: kept_def calm_def connect_def Client_open_def nth_append)
  then show ?thesis using assms(3) Connect by (intro exI[of _ "connect l x"]) (simp add: labels_connect, simp add: connect_def)
next
  case (Raw l bs)
  then have "l \<in> set (labels x)" using assms(3) by simp
  then obtain y where "on_client l (dc_send bs) x = Inr y" "labels y = labels x" "kept x y" "length (dx_clients y) = length (dx_clients x)"
    using on_client_kept[of l x "dc_send bs"] by auto
  then show ?thesis using assms(3) Raw by (intro exI[of _ y]) simp
next
  case (Close l)
  then have "l \<in> set (labels x)" using assms(3) by simp
  then obtain y where "on_client l dc_close x = Inr y" "labels y = labels x" "kept x y" "length (dx_clients y) = length (dx_clients x)"
    using on_client_kept[of l x dc_close] by auto
  then show ?thesis using assms(3) Close by (intro exI[of _ y]) simp
next
  case Sleep
  then show ?thesis using assms(3) by (intro exI[of _ x]) (simp add: kept_def)
qed (use assms in simp_all)

lemma happen_next: "po_next (snd (fst (happen (Ev_client c v r) w))) = po_next (snd w)"
proof -
  have "po_next (snd (fst (hear c data w))) = po_next (snd w)" for data
    by (cases w) (simp add: hear_def case_prod_unfold)
  moreover have "po_next (snd (fst (hang_up c w))) = po_next (snd w)" by (cases w) (simp add: hang_up_def case_prod_unfold)
  ultimately show ?thesis by (cases "(Ev_client c v r, w)" rule: happen.cases) auto
qed

lemma take_in_next:
  assumes "faithful s w" "po_next (snd w) < 8"
  shows "po_next (snd (take_in ip now w)) = Suc (po_next (snd w))"
proof -
  have "mirrors s w" "conns_ok s" using assms(1) by (simp_all add: faithful_def server_inv_def good_def core_def)
  then have p: "hl_present (fst w) = sv_clients s" "sv_next_cid s = po_next (snd w)" "distinct (sv_clients s)"
      "\<forall>c \<in> set (sv_clients s). c < sv_next_cid s"
    by (auto simp: mirrors_def conns_ok_def simp flip: hall_of_sel(1))
  have "set (sv_clients s) \<subseteq> {..<po_next (snd w)}" using p(2,4) by auto
  then have "length (sv_clients s) \<le> po_next (snd w)" using p(3) by (metis card_lessThan card_mono distinct_card finite_lessThan)
  then have "length (hl_present (fst w)) < 8" "length (filter Q (hl_present (fst w))) < 8" for Q
    using assms(2) length_filter_le[of Q "hl_present (fst w)"] unfolding p(1) by linarith+
  then show ?thesis by (cases w) (simp add: take_in_def MAX_CLIENTS_def MAX_CONNECTIONS_PER_IP_def not_le)
qed

lemma act_events_machine:
  assumes "faithful s w" "po_next (snd w) = length (dx_clients x)" "plain a"
    and "length (dx_clients x) + (case a of Connect l \<Rightarrow> 1 | _ \<Rightarrow> 0) \<le> 8"
  shows "all_admissible (act_events a (dx_clients x)) w"
    and "po_next (snd (fst (happenings (act_events a (dx_clients x)) w))) =
      length (dx_clients x) + (case a of Connect l \<Rightarrow> 1 | _ \<Rightarrow> 0)"
proof -
  have i: "i < po_next (snd w)" if "client_index l (dx_clients x) = Some i" for l i
    using client_index_less[OF that] assms(2) by simp
  show "all_admissible (act_events a (dx_clients x)) w"
    using i by (cases a) (auto simp: from_cli_def split: option.split)
  show "po_next (snd (fst (happenings (act_events a (dx_clients x)) w))) =
      length (dx_clients x) + (case a of Connect l \<Rightarrow> 1 | _ \<Rightarrow> 0)"
  proof (cases a)
    case (Connect l)
    then show ?thesis using take_in_next[OF assms(1)] assms(2,4) by simp
  qed (use assms(2) happen_next in \<open>auto simp: from_cli_def case_prod_unfold simp del: happen.simps split: option.split\<close>)
qed

text \<open>One step other than a sync.\<close>

lemma stage_act:
  assumes "staged x s0 s w out" "plain a" "\<forall>step. a \<noteq> Sync step" "typed (rev (labels x)) (a # as)"
    and "length (dx_clients x) + (case a of Connect l \<Rightarrow> 1 | _ \<Rightarrow> 0) \<le> 8"
    and "happenings (act_events a (dx_clients x)) w = (w1, o1)" "fits_all (o1 @ o2) s"
  shows "\<exists>t y. run_events (act_events a (dx_clients x)) s = Ok t \<and> (\<forall>net. sd_action 2 a net x = Inr (y, net)) \<and>
    typed (rev (labels y)) as \<and> staged y s0 t w1 (out @ o1) \<and> fits_all o2 t \<and>
    length (dx_clients y) = length (dx_clients x) + (case a of Connect l \<Rightarrow> 1 | _ \<Rightarrow> 0)"
proof -
  obtain y where y: "\<forall>net. sd_action 2 a net x = Inr (y, net)" "typed (rev (labels y)) as" "kept x y"
      "length (dx_clients y) = length (dx_clients x) + (case a of Connect l \<Rightarrow> 1 | _ \<Rightarrow> 0)"
    using act_harness[OF assms(2-4)] by blast
  have st: "faithful s w" "po_next (snd w) = length (dx_clients x)" "brief out" "calm x"
    "\<forall>i. stream s i = stream s0 i @ posted_to i out"
    "\<forall>i < length (dx_clients x). \<not> dc_closed (dx_clients x ! i) \<longrightarrow> cl_tx (client_of s0 i) = []"
    using assms(1) by (simp_all add: staged_def)
  note m = act_events_machine[OF st(1,2) assms(2,5)]
  obtain t where t: "run_events (act_events a (dx_clients x)) s = Ok t" "faithful t w1" "\<forall>i. stream t i = stream s i @ posted_to i o1"
      "follows s (Ok t) (w1, o1)"
    using events_follow[OF st(1) m(1)] fits_before[OF assms(7)] assms(6) by (auto simp: follows_def)
  have "brief o1" using brief_happenings[of "act_events a (dx_clients x)" w] assms(6) by simp
  moreover have "po_next (snd w1) = length (dx_clients y)" using m(2) y(4) assms(6) by simp
  moreover have "cl_tx (client_of s0 i) = []" if i: "i < length (dx_clients y)" "\<not> dc_closed (dx_clients y ! i)" for i
  proof (cases "i < length (dx_clients x)")
    case True
    then show ?thesis using st(6) y(3) i(2) by (auto simp: kept_def)
  next
    case False
    then have "sv_next_cid s \<le> i" using st(1,2) by (simp add: faithful_def mirrors_def)
    then have "stream s i = []" using st(1) by (simp add: faithful_def mirrors_def)
    then show ?thesis using st(5)[rule_format, of i] by (simp add: stream_def)
  qed
  ultimately have "staged y s0 t w1 (out @ o1)"
    using st(3-5) t(2,3) y(3) by (simp add: staged_def kept_def)
  then show ?thesis using t(1) y(1,2,4) fits_follows[OF t(4) assms(7)] by blast
qed

lemma faithful_sends:
  assumes "faithful s w" "list_all (\<lambda>r. r \<noteq> Send_fails \<and> r \<noteq> Sent 0) sends"
  shows "faithful (s\<lparr>sv_sends := sends\<rparr>) w"
proof -
  have "hall_of (s\<lparr>sv_sends := sends\<rparr>) = hall_of s"
    using table_of_cong[of "s\<lparr>sv_sends := sends\<rparr>" s] by (simp add: hall_of_def)
  moreover have "server_inv (s\<lparr>sv_sends := sends\<rparr>)" using assms(1)
    by (simp add: faithful_def server_inv_def delay_ok_def limits_ok_def per_ip_def rx_short_def stream_def)
  ultimately show ?thesis using assms by (simp add: faithful_def mirrors_def healthy_def stream_def)
qed

lemma writes_machine:
  assumes "list_all (\<lambda>c. c < po_next (snd w)) ws"
  shows "all_admissible (map (\<lambda>c. Ev_client c True None) ws) w" "happenings (map (\<lambda>c. Ev_client c True None) ws) w = (w, [])"
  using assms by (induction ws) simp_all

lemma writes_follow:
  assumes "staged x s0 s w out" "lets_write (length (dx_clients x)) s u" "fits_all o2 s"
  shows "staged x s0 u w out" "fits_all o2 u"
proof -
  obtain sends ws where u: "list_all (\<lambda>r. r \<noteq> Send_fails \<and> r \<noteq> Sent 0) sends" "list_all (\<lambda>c. c < length (dx_clients x)) ws"
      "run_events (map (\<lambda>c. Ev_client c True None) ws) (s\<lparr>sv_sends := sends\<rparr>) = Ok u"
    using assms(2) by (auto simp: lets_write_def)
  let ?s = "s\<lparr>sv_sends := sends\<rparr>"
  have st: "faithful s w" "po_next (snd w) = length (dx_clients x)" using assms(1) by (simp_all add: staged_def)
  have f: "faithful ?s w" by (rule faithful_sends[OF st(1) u(1)])
  note m = writes_machine[of w ws, unfolded st(2), OF u(2)]
  have fit: "fits_all ([] @ o2) ?s" using assms(3) by (simp add: fits_all_def)
  have fo: "follows ?s (Ok u) (w, [])"
    using events_follow[OF f m(1)] fits_before[OF fit] by (simp add: m(2) u(3))
  show "fits_all o2 u" by (rule fits_follows[OF fo fit])
  show "staged x s0 u w out" using fo assms(1) by (auto simp: follows_def staged_def stream_def)
qed

lemma sync_lines_cong:
  assumes "\<And>i. i < length cs \<Longrightarrow> \<not> dc_closed (cs ! i) \<Longrightarrow> ms i = ms' i \<and> ends i = ends' i"
  shows "sync_lines proto tag ms ends cs = sync_lines proto tag ms' ends' cs"
  unfolding sync_lines_def using assms by (intro arg_cong[where f = concat] map_cong) auto

text \<open>A sync.\<close>

lemma stage_sync:
  assumes "staged x s0 s w out" "conveys rounds (dx_clients x) s0 s" "note_sync step (x, w, out) = (y, w', out')"
  shows "sd_sync 2 step rounds x = Inr y \<and> staged y s s w' out' \<and> labels y = labels x \<and> w' = w \<and> out' = []"
proof -
  have st: "faithful s w" "po_next (snd w) = length (dx_clients x)" "brief out" "calm x"
    "\<forall>i. stream s i = stream s0 i @ posted_to i out"
    "\<forall>i < length (dx_clients x). \<not> dc_closed (dx_clients x ! i) \<longrightarrow> cl_tx (client_of s0 i) = []"
    using assms(1) by (simp_all add: staged_def)
  have c: "list_all (\<lambda>r. r \<noteq> []) rounds" "sd_orderly (concat rounds)"
    "\<forall>i < length (dx_clients x). \<not> dc_closed (dx_clients x ! i) \<longrightarrow> cl_tx (client_of s i) = [] \<and>
        sd_got rounds i = List.drop (length (cl_wire (client_of s0 i))) (cl_wire (client_of s i)) \<and>
        sd_ended rounds i = cl_closed (client_of s i)"
    using assms(2) by (simp_all add: conveys_def)
  have conns: "conns_ok s" "sv_next_cid s = length (dx_clients x)" "hl_present (fst w) = sv_clients s"
    using st(1,2) by (auto simp: faithful_def server_inv_def good_def core_def mirrors_def simp flip: hall_of_sel(1))
  have ends: "sd_ended rounds i = (i \<notin> set (hl_present (fst w)))"
    if "i < length (dx_clients x)" "\<not> dc_closed (dx_clients x ! i)" for i
    using c(3) that conns by (simp add: conns_ok_def)
  have got: "sd_got rounds i = concat (map encode_msg (msgs_for i out)) \<and> list_all (\<lambda>m. length (snd m) < 255) (msgs_for i out)"
    if i: "i < length (dx_clients x)" "\<not> dc_closed (dx_clients x ! i)" for i
  proof -
    have "cl_wire (client_of s i) = cl_wire (client_of s0 i) @ posted_to i out"
      using st(5)[rule_format, of i] st(6) c(3) i by (simp add: stream_def)
    then show ?thesis using c(3) i brief_msgs[OF st(3)] by (simp add: msgs_for_stream)
  qed
  let ?gone = "\<lambda>i. i \<notin> set (hl_present (fst w))" and ?tag = "dec02 (dx_step x + 1) @ '' '' @ step"
  have sync: "sd_sync 2 step rounds x = Inr (x\<lparr>dx_step := dx_step x + 1,
      dx_transcript := dx_transcript x @ sync_lines 2 ?tag (\<lambda>i. msgs_for i out) (sd_ended rounds) (dx_clients x),
      dx_clients := map (\<lambda>i. (dx_clients x ! i)\<lparr>dc_closed := dc_closed (dx_clients x ! i) \<or> sd_ended rounds i\<rparr>)
        [0..<length (dx_clients x)]\<rparr>)"
    by (rule sd_sync_lines[OF c(1,2)]) (use st(4) got in \<open>auto simp: calm_def\<close>)
  have lines: "sync_lines 2 ?tag (\<lambda>i. msgs_for i out) (sd_ended rounds) (dx_clients x) =
      sync_lines 2 ?tag (\<lambda>i. msgs_for i out) ?gone (dx_clients x)"
    by (rule sync_lines_cong) (use ends in simp)
  have clients: "map (\<lambda>i. (dx_clients x ! i)\<lparr>dc_closed := dc_closed (dx_clients x ! i) \<or> sd_ended rounds i\<rparr>) [0..<length (dx_clients x)] =
      map (\<lambda>i. (dx_clients x ! i)\<lparr>dc_closed := dc_closed (dx_clients x ! i) \<or> ?gone i\<rparr>) [0..<length (dx_clients x)]"
  proof (rule map_cong[OF refl])
    fix i assume "i \<in> set [0..<length (dx_clients x)]"
    then show "(dx_clients x ! i)\<lparr>dc_closed := dc_closed (dx_clients x ! i) \<or> sd_ended rounds i\<rparr> =
        (dx_clients x ! i)\<lparr>dc_closed := dc_closed (dx_clients x ! i) \<or> ?gone i\<rparr>"
      using ends[of i] by (cases "dc_closed (dx_clients x ! i)") simp_all
  qed
  have y: "y = x\<lparr>dx_step := dx_step x + 1,
      dx_transcript := dx_transcript x @ sync_lines 2 ?tag (\<lambda>i. msgs_for i out) ?gone (dx_clients x),
      dx_clients := map (\<lambda>i. (dx_clients x ! i)\<lparr>dc_closed := dc_closed (dx_clients x ! i) \<or> ?gone i\<rparr>) [0..<length (dx_clients x)]\<rparr>"
    and w': "w' = w" "out' = []"
    using assms(3)[symmetric] by (simp_all only: note_sync_def Let_def prod.case prod.inject)
  have cl: "dx_clients y = map (\<lambda>i. (dx_clients x ! i)\<lparr>dc_closed := dc_closed (dx_clients x ! i) \<or> ?gone i\<rparr>) [0..<length (dx_clients x)]"
    unfolding y by simp
  have "sd_sync 2 step rounds x = Inr y" unfolding sync lines clients y ..
  moreover have "calm y" using st(4) by (auto simp: calm_def cl)
  moreover have "labels y = labels x" unfolding labels_def cl by (intro nth_equalityI) simp_all
  moreover have "cl_tx (client_of s i) = []" if "i < length (dx_clients y)" "\<not> dc_closed (dx_clients y ! i)" for i
    using c(3) that by (simp add: cl)
  ultimately show ?thesis using st(1,2) by (simp add: staged_def w' cl)
qed

lemma connections_Cons: "connections (a # as) = (case a of Connect l \<Rightarrow> 1 | _ \<Rightarrow> 0) + connections as"
  by (cases a) (simp_all add: connections_def)

lemma perform_act:
  assumes "\<forall>step. a \<noteq> Sync step" "happenings (act_events a (dx_clients x)) w = (w1, o1)" "sd_action 2 a [] x = Inr (y, net)"
  shows "perform (a # as) (x, w, out) = perform as (y, w1, out @ o1)"
    and "all_posts (a # as) (x, w, out) = o1 @ all_posts as (y, w1, out @ o1)"
  using assms by (cases a; simp)+

lemma scenario_follows:
  assumes "staged x s0 s w out" "list_all plain as" "typed (rev (labels x)) as" "length (dx_clients x) + connections as \<le> 8"
    and "fits_all (all_posts as (x, w, out)) s" "carried as net x s0 s"
  shows "sd_exec 2 as net x = Inr (fst (perform as (x, w, out)))"
  using assms
proof (induction "as" arbitrary: x s0 s w out net)
  case (Cons a "as")
  show ?case
  proof (cases "\<exists>step. a = Sync step")
    case True
    then obtain step where a: "a = Sync step" by blast
    obtain y w' out' where n: "note_sync step (x, w, out) = (y, w', out')" by (metis prod_cases3)
    obtain u where c: "net \<noteq> []" "conveys (hd net) (dx_clients x) s0 u" "lets_write (length (dx_clients x)) s u"
        "case sd_action 2 a net x of Inl e \<Rightarrow> True | Inr (y, net') \<Rightarrow> carried as net' y u u"
      using Cons.prems(6) by (auto simp: a)
    note wf = writes_follow[OF Cons.prems(1) c(3) Cons.prems(5)]
    note y = stage_sync[OF wf(1) c(2) n]
    have len: "length (dx_clients y) = length (dx_clients x)" using y by (metis labels_def length_map)
    have sy: "staged y u u w []" using y by metis
    have fit: "fits_all (all_posts as (y, w, [])) u" using wf(2) y n by (simp add: a)
    have "carried as (tl net) y u u" using y c(1,4) by (simp add: a)
    then have "sd_exec 2 as (tl net) y = Inr (fst (perform as (y, w, [])))"
      using Cons.IH[OF sy _ _ _ fit] Cons.prems y len by (simp add: a connections_Cons)
    then show ?thesis using y c(1) n by (simp add: a)
  next
    case False
    then have ns: "\<forall>step. a \<noteq> Sync step" by simp
    obtain w1 o1 where h: "happenings (act_events a (dx_clients x)) w = (w1, o1)" by fastforce
    have pl: "plain a" "list_all plain as" using Cons.prems(2) by simp_all
    have le: "length (dx_clients x) + (case a of Connect l \<Rightarrow> 1 | _ \<Rightarrow> 0) \<le> 8" using Cons.prems(4) by (simp add: connections_Cons)
    obtain y0 where y0: "\<forall>net. sd_action 2 a net x = Inr (y0, net)" using act_harness[OF pl(1) ns Cons.prems(3)] by blast
    note pa = perform_act[OF ns h y0[rule_format]]
    have fit: "fits_all (o1 @ all_posts as (y0, w1, out @ o1)) s" using Cons.prems(5) by (simp only: pa(2))
    obtain t where t: "run_events (act_events a (dx_clients x)) s = Ok t" "typed (rev (labels y0)) as" "staged y0 s0 t w1 (out @ o1)"
        "fits_all (all_posts as (y0, w1, out @ o1)) t"
        "length (dx_clients y0) = length (dx_clients x) + (case a of Connect l \<Rightarrow> 1 | _ \<Rightarrow> 0)"
      using stage_act[OF Cons.prems(1) pl(1) ns Cons.prems(3) le h fit] y0 by auto
    have "carried as net y0 s0 t" using Cons.prems(6) ns t(1) y0 by (cases a) simp_all
    then have "sd_exec 2 as net y0 = Inr (fst (perform as (y0, w1, out @ o1)))"
      using Cons.IH[OF t(3) pl(2) t(2) _ t(4)] Cons.prems(4) t(5) by (simp add: connections_Cons)
    moreover have "sd_exec 2 (a # as) net x = sd_exec 2 as net y0" using y0 by simp
    ultimately show ?thesis unfolding pa(1) by simp
  qed
qed simp

section \<open>The draws do not show\<close>

text \<open>What the transcript and the queues can tell of a post: its addressee, its size and its text.\<close>

definition face :: "post \<Rightarrow> cid \<times> nat \<times> string" where
  "face p = (fst p, length (snd (snd p)), rendered 2 (snd p))"

abbreviation same_faces :: "post list \<Rightarrow> post list \<Rightarrow> bool" where
  "same_faces out out' \<equiv> map face out = map face out'"

definition veil :: "hall \<Rightarrow> hall" where
  "veil h = h\<lparr>hl_draws := []\<rparr>"

definition alike :: "hall \<times> post list \<Rightarrow> hall \<times> post list \<Rightarrow> bool" where
  "alike r r' \<longleftrightarrow> veil (fst r) = veil (fst r') \<and> same_faces (snd r) (snd r')"

lemma veil_draws: "veil h = veil h' \<longleftrightarrow> (\<exists>ds. h' = h\<lparr>hl_draws := ds\<rparr>)"
  by (cases h; cases h') (auto simp: veil_def)

lemma veil_simps [simp]:
  "veil (h\<lparr>hl_draws := ds\<rparr>) = veil h"
  "nick (h\<lparr>hl_draws := ds\<rparr>) c = nick h c" "nick_field (h\<lparr>hl_draws := ds\<rparr>) c = nick_field h c"
  by (simp_all add: veil_def nick_def nick_field_def)

lemma veil_parts:
  "veil (h\<lparr>hl_table := tb, hl_draws := ds\<rparr>) = veil (h\<lparr>hl_table := tb\<rparr>)"
  by (simp add: veil_def)

lemma list_post_veil [simp]: "list_post c (h\<lparr>hl_draws := ds\<rparr>) = list_post c h"
  by (simp add: list_post_def)

lemma room_post_veil [simp]: "room_post (h\<lparr>hl_draws := ds\<rparr>) a b = room_post h a b"
  by (simp add: room_post_def)

lemma face_start: "face (c, start_post h a b sd i) = face (c, start_post h a b sd' i)"
proof -
  have "rendered 2 (T_START, [x, 2, lo, hi, d] @ rest) = rendered 2 (T_START, [x, 2, lo', hi', d] @ rest)" for x lo hi lo' hi' d rest
    by (simp add: rendered_def render_def sd_T_def T_START_def numeral_3_eq_3 numeral_2_eq_2)
  then show ?thesis by (simp add: face_def start_post_def del: append_Cons append_assoc)
qed

lemma draws_last:
  "h\<lparr>hl_draws := ds, hl_table := tb\<rparr> = h\<lparr>hl_table := tb, hl_draws := ds\<rparr>"
  "h\<lparr>hl_draws := ds, hl_names := ns\<rparr> = h\<lparr>hl_names := ns, hl_draws := ds\<rparr>"
  by simp_all

lemma depart_veil: "depart c (h\<lparr>hl_draws := ds\<rparr>) = ((fst (depart c h))\<lparr>hl_draws := ds\<rparr>, snd (depart c h))"
  by (simp add: depart_def Let_def split: option.split prod.split)

lemma greet_veil: "greet c n (h\<lparr>hl_draws := ds\<rparr>) = ((fst (greet c n h))\<lparr>hl_draws := ds\<rparr>, snd (greet c n h))"
  by (cases "map_of (hl_names h) n") (simp_all add: greet_def Let_def case_prod_unfold depart_veil draws_last(2))

lemma alike_exact: "r' = ((fst r)\<lparr>hl_draws := ds\<rparr>, snd r) \<Longrightarrow> alike r r'"
  by (simp add: alike_def)

lemma alike_commence: "alike (commence a b h) (commence a b (h\<lparr>hl_draws := ds\<rparr>))"
proof -
  have "start_post (h\<lparr>hl_draws := ds\<rparr>) a b sd i = start_post h a b sd i" for sd i by (simp add: start_post_def)
  then show ?thesis
    using face_start[of a h a b "seed_of (hl_draws h)" 0 "seed_of ds"] face_start[of b h a b "seed_of (hl_draws h)" 1 "seed_of ds"]
    by (simp add: alike_def commence_def Let_def veil_def)
qed

lemma alike_sit_down: "alike (sit_down t c h) (sit_down t c (h\<lparr>hl_draws := ds\<rparr>))"
proof -
  define h1 where "h1 = h\<lparr>hl_table := (hl_table h)(t := Some (False, t, c), c := Some (False, t, c))\<rparr>"
  define out where "out = [(t, room_post h t c), (c, room_post h t c)]"
  have "sit_down t c h = (if hl_auto h \<noteq> 0 \<and> 2 \<ge> hl_auto h
      then (fst (commence t c h1), out @ snd (commence t c h1)) else (h1, out))"
    by (simp add: sit_down_def Let_def case_prod_unfold h1_def out_def)
  moreover have "sit_down t c (h\<lparr>hl_draws := ds\<rparr>) = (if hl_auto h \<noteq> 0 \<and> 2 \<ge> hl_auto h
      then (fst (commence t c (h1\<lparr>hl_draws := ds\<rparr>)), out @ snd (commence t c (h1\<lparr>hl_draws := ds\<rparr>)))
      else (h1\<lparr>hl_draws := ds\<rparr>, out))"
    by (simp add: sit_down_def Let_def case_prod_unfold h1_def out_def draws_last(1))
  ultimately show ?thesis using alike_commence[of t c h1 ds] by (simp add: alike_def)
qed

lemma alike_join: "alike (ask_to_join c payload h) (ask_to_join c payload (h\<lparr>hl_draws := ds\<rparr>))"
proof (cases "map_of (hl_names h) (wire_name payload)")
  case (Some t)
  then show ?thesis using alike_sit_down[of t c h ds] by (simp add: alike_def ask_to_join_def depart_veil show_list_def)
qed (simp add: alike_def ask_to_join_def depart_veil show_list_def)

lemma alike_start: "alike (ask_to_start c h) (ask_to_start c (h\<lparr>hl_draws := ds\<rparr>))"
proof (cases "hl_table h c")
  case (Some tb)
  obtain st a b where "tb = (st, a, b)" by (rule prod_cases3)
  then show ?thesis using Some alike_commence[of a b h ds] by (simp add: alike_def ask_to_start_def)
qed (simp add: alike_def ask_to_start_def)

lemma pass_on_veil: "pass_on c m (h\<lparr>hl_draws := ds\<rparr>) = (h\<lparr>hl_draws := ds\<rparr>, snd (pass_on c m h))" "fst (pass_on c m h) = h"
  by (simp_all add: pass_on_def split: option.split)

lemma alike_respond: "alike (respond c m h) (respond c m (h\<lparr>hl_draws := ds\<rparr>))"
  using alike_join[of c "snd m" h ds] alike_start[of c h ds]
  by (simp add: alike_def respond_def Let_def pass_on_veil show_list_def depart_veil greet_veil)

lemma alike_bind:
  assumes "alike (h1, o1) (h1', o1')" "\<And>ds. alike (f h1) (f (h1\<lparr>hl_draws := ds\<rparr>))"
  shows "alike (fst (f h1), o1 @ snd (f h1)) (fst (f h1'), o1' @ snd (f h1'))"
proof -
  obtain ds where "h1' = h1\<lparr>hl_draws := ds\<rparr>" using assms(1) veil_draws[of h1 h1'] by (auto simp: alike_def)
  then show ?thesis using assms(2)[of ds] assms(1) by (simp add: alike_def)
qed

lemma alike_dialogue: "alike (dialogue ms h) (dialogue ms (h\<lparr>hl_draws := ds\<rparr>))"
proof (induction ms arbitrary: h ds)
  case Nil
  then show ?case by (simp add: alike_exact)
next
  case (Cons cm ms)
  obtain c m where cm: "cm = (c, m)" by (cases cm)
  obtain h1 o1 h1' o1' where r: "respond c m h = (h1, o1)" "respond c m (h\<lparr>hl_draws := ds\<rparr>) = (h1', o1')" by fastforce
  have "alike (h1, o1) (h1', o1')" using alike_respond[of c m h ds] r by simp
  from alike_bind[OF this, of "dialogue ms"] Cons.IH show ?case by (simp add: cm r case_prod_unfold)
qed

definition alike_house :: "house \<times> post list \<Rightarrow> house \<times> post list \<Rightarrow> bool" where
  "alike_house r r' \<longleftrightarrow>
     veil (fst (fst r)) = veil (fst (fst r')) \<and> snd (fst r) = snd (fst r') \<and> same_faces (snd r) (snd r')"

lemma veil_present: "veil h = veil h' \<Longrightarrow> hl_present h = hl_present h'"
  by (auto simp: veil_draws)

lemma alike_hear: "alike_house (hear c data (h, p)) (hear c data (h\<lparr>hl_draws := ds\<rparr>, p))"
proof -
  obtain ms left bad where d: "decode (po_inbox p c @ data) = (ms, left, bad)" by (metis prod_cases3)
  obtain h1 o1 h1' o1' where r: "dialogue (map (Pair c) ms) h = (h1, o1)" "dialogue (map (Pair c) ms) (h\<lparr>hl_draws := ds\<rparr>) = (h1', o1')"
    by fastforce
  have a: "alike (h1, o1) (h1', o1')" using alike_dialogue[of "map (Pair c) ms" h ds] r by simp
  have "alike (fst (depart c h1), o1 @ snd (depart c h1)) (fst (depart c h1'), o1' @ snd (depart c h1'))"
    by (rule alike_bind[OF a]) (rule alike_exact[OF depart_veil])
  then have "veil (fst (depart c h1)) = veil (fst (depart c h1'))"
    "same_faces (o1 @ snd (depart c h1)) (o1' @ snd (depart c h1'))" by (simp_all only: alike_def fst_conv snd_conv)
  moreover have "hl_present h1 = hl_present h1'" "veil h1 = veil h1'" "same_faces o1 o1'"
    using a veil_present[of h1 h1'] by (simp_all add: alike_def)
  moreover have "hear c data (k, p) = (if bad \<and> c \<in> set (hl_present (fst (dialogue (map (Pair c) ms) k)))
      then ((fst (depart c (fst (dialogue (map (Pair c) ms) k))), p),
        snd (dialogue (map (Pair c) ms) k) @ snd (depart c (fst (dialogue (map (Pair c) ms) k))))
      else ((fst (dialogue (map (Pair c) ms) k), p\<lparr>po_inbox := (po_inbox p)(c := left)\<rparr>), snd (dialogue (map (Pair c) ms) k)))" for k
    by (simp add: hear_def d case_prod_unfold)
  ultimately show ?thesis
    by (cases "bad \<and> c \<in> set (hl_present h1)") (simp_all only: alike_house_def r fst_conv snd_conv if_True if_False simp_thms)
qed

lemma alike_hang_up: "alike_house (hang_up c (h, p)) (hang_up c (h\<lparr>hl_draws := ds\<rparr>, p))"
  by (simp add: hang_up_def case_prod_unfold depart_veil alike_house_def)

lemma alike_happen: "alike_house (happen e (h, p)) (happen e (h\<lparr>hl_draws := ds\<rparr>, p))"
proof (cases "(e, (h, p))" rule: happen.cases)
  case (1 addr opts_ok now w)
  then show ?thesis by (auto simp: take_in_def alike_house_def veil_def)
next
  case (2 c writable data w)
  then have e: "e = Ev_client c writable (Some (Recv data))" by simp
  show ?thesis
  proof (cases "c \<in> set (hl_present h) \<and> data \<noteq> []")
    case True
    then show ?thesis using alike_hear[of c data h p ds] by (simp add: e)
  next
    case False
    then show ?thesis using alike_hang_up[of c h p ds] by (auto simp: e alike_house_def)
  qed
next
  case (3 c writable w)
  then show ?thesis using alike_hang_up[of c h p ds] by (auto simp: alike_house_def)
next
  case (4 order now w)
  then show ?thesis by (auto simp: dismiss_def alike_house_def veil_def nick_def)
qed (simp_all add: alike_house_def)

lemma alike_happenings:
  assumes "veil h = veil h'"
  shows "alike_house (happenings es (h, p)) (happenings es (h', p))"
  using assms
proof (induction es arbitrary: h h' p)
  case Nil
  then show ?case by (simp add: alike_house_def)
next
  case (Cons e es)
  then obtain ds where h': "h' = h\<lparr>hl_draws := ds\<rparr>" by (auto simp: veil_draws)
  obtain h1 p1 o1 h2 p2 o2 where r: "happen e (h, p) = ((h1, p1), o1)" "happen e (h', p) = ((h2, p2), o2)" by (metis surj_pair)
  have "veil h1 = veil h2" "p1 = p2" "same_faces o1 o2" using alike_happen[of e h p ds] r by (simp_all add: alike_house_def h')
  then show ?case using Cons.IH[of h1 h2 p1] r by (simp add: alike_house_def case_prod_unfold)
qed

section \<open>What the harness records of the machine\<close>

definition alike_stage :: "stage \<Rightarrow> stage \<Rightarrow> bool" where
  "alike_stage g g' \<longleftrightarrow>
     (case g of (x, (h, p), out) \<Rightarrow> case g' of (x', (h', p'), out') \<Rightarrow>
        x = x' \<and> veil h = veil h' \<and> p = p' \<and> same_faces out out')"

lemma same_faces_texts: "same_faces out out' \<Longrightarrow> map (rendered 2) (msgs_for i out) = map (rendered 2) (msgs_for i out')"
proof (induction out arbitrary: out')
  case (Cons p out)
  then obtain p' out'' where "out' = p' # out''" by (cases out') auto
  with Cons show ?case by (cases p; cases p') (auto simp: msgs_for_def face_def)
qed (simp add: msgs_for_def)

lemma same_faces_size: "same_faces out out' \<Longrightarrow> length (posted_to i out) = length (posted_to i out')"
proof (induction out arbitrary: out')
  case (Cons p out)
  then obtain p' out'' where "out' = p' # out''" by (cases out') auto
  with Cons show ?case by (cases p; cases p') (auto simp: face_def encode_msg_def)
qed simp

lemma sync_lines_texts:
  assumes "\<And>i. map (rendered proto) (ms i) = map (rendered proto) (ms' i)"
  shows "sync_lines proto tag ms ends cs = sync_lines proto tag ms' ends cs"
proof -
  have "map (\<lambda>m. sd_line tag c (rendered proto m)) (ms i) = map (\<lambda>m. sd_line tag c (rendered proto m)) (ms' i)" for c i
    using arg_cong[OF assms[of i], of "map (sd_line tag c)"] by (simp add: comp_def)
  then show ?thesis unfolding sync_lines_def by (intro arg_cong[where f = concat] map_cong) auto
qed

lemma perform_one:
  assumes "\<forall>step. a \<noteq> Sync step"
  shows "perform [a] (x, w, out) = (case happenings (act_events a (dx_clients x)) w of (w1, o1) \<Rightarrow>
        (case sd_action 2 a [] x of Inl e \<Rightarrow> x | Inr (y, net) \<Rightarrow> y, w1, out @ o1))"
  using assms by (cases a) simp_all

lemma alike_step:
  assumes "alike_stage g g'"
  shows "alike_stage (perform [a] g) (perform [a] g')"
    and "same_faces (all_posts [a] g) (all_posts [a] g')"
proof -
  obtain x h p out h' out' where g: "g = (x, (h, p), out)" "g' = (x, (h', p), out')" "veil h = veil h'" "same_faces out out'"
    using assms by (cases g; cases g') (auto simp: alike_stage_def)
  obtain h1 p1 o1 h2 p2 o2 where r: "happenings (act_events a (dx_clients x)) (h, p) = ((h1, p1), o1)"
      "happenings (act_events a (dx_clients x)) (h', p) = ((h2, p2), o2)" by (metis surj_pair)
  have eq: "veil h1 = veil h2" "p1 = p2" "same_faces o1 o2"
    using alike_happenings[OF g(3), of "act_events a (dx_clients x)" p] by (simp_all add: alike_house_def r)
  show "same_faces (all_posts [a] g) (all_posts [a] g')" using eq(3) by (simp add: g(1,2) r)
  show "alike_stage (perform [a] g) (perform [a] g')"
  proof (cases "\<exists>step. a = Sync step")
    case True
    then obtain step where a: "a = Sync step" by blast
    have "sync_lines 2 tag (\<lambda>i. msgs_for i out) ends cs = sync_lines 2 tag (\<lambda>i. msgs_for i out') ends cs" for tag ends cs
      by (rule sync_lines_texts) (rule same_faces_texts[OF g(4)])
    then show ?thesis
      by (simp add: a g(1,2) note_sync_def alike_stage_def g(3) veil_present[OF g(3)] Let_def)
  next
    case False
    then have ns: "\<forall>step. a \<noteq> Sync step" by simp
    show ?thesis using eq g(4) unfolding g(1,2) perform_one[OF ns] r by (simp add: alike_stage_def)
  qed
qed

lemma perform_Cons: "perform (a # as) g = perform as (perform [a] g)"
  by simp

lemma all_posts_Cons: "all_posts (a # as) g = all_posts [a] g @ all_posts as (perform [a] g)"
  by (cases g) simp

lemma alike_perform:
  assumes "alike_stage g g'"
  shows "alike_stage (perform as g) (perform as g')" "same_faces (all_posts as g) (all_posts as g')"
proof -
  have "alike_stage (perform as g) (perform as g') \<and> same_faces (all_posts as g) (all_posts as g')"
    using assms
  proof (induction "as" arbitrary: g g')
    case (Cons a "as")
    note st = alike_step[OF Cons.prems, of a]
    then show ?case using Cons.IH[OF st(1)] unfolding perform_Cons[of a "as"] all_posts_Cons[of a "as"] by simp
  qed simp
  then show "alike_stage (perform as g) (perform as g')" "same_faces (all_posts as g) (all_posts as g')" by simp_all
qed

text \<open>The stage before a scenario, for a machine with any draws.\<close>

definition sd_start :: sd_ctx where
  "sd_start = \<lparr>dx_clients = [], dx_transcript = [], dx_step = 0\<rparr>"

definition curtain :: "int \<Rightarrow> int \<Rightarrow> nat list \<Rightarrow> stage" where
  "curtain delay auto_go rands = (sd_start, empty_house delay auto_go rands, [])"

lemma alike_curtain: "alike_stage (curtain delay auto_go rands) (curtain delay auto_go rands')"
  by (simp add: alike_stage_def curtain_def empty_house_def veil_def)

lemma staged_start:
  "faithful s (empty_house delay auto_go rands) \<Longrightarrow> staged sd_start s s (empty_house delay auto_go rands) []"
  by (simp add: staged_def sd_start_def calm_def empty_house_def)

lemma scenario_determined:
  assumes "typed [] as" "connections (spelled 2 as) \<le> MAX_CONNECTIONS_PER_IP" "0 \<le> delay" "delay < 256"
    and "\<forall>d. length (posted_to d (all_posts (spelled 2 as) (curtain delay auto_go []))) \<le> MAX_TX_BACKLOG"
    and "list_all (\<lambda>r. r \<noteq> Send_fails \<and> r \<noteq> Sent 0) sends" "s = Server_init port delay None auto_go sends rands"
    and "carried (spelled 2 as) net sd_start s s"
  shows "sd_exec 2 as net sd_start = Inr (fst (perform (spelled 2 as) (curtain delay auto_go [])))"
proof -
  let ?g = "curtain delay auto_go rands" and ?as = "spelled 2 as"
  note al = alike_perform[OF alike_curtain[of delay auto_go rands "[]"], of ?as]
  have f: "faithful s (empty_house delay auto_go rands)" unfolding assms(7) by (rule faithful_start[OF assms(3,4,6)])
  have "staged sd_start s s (empty_house delay auto_go rands) []" by (rule staged_start[OF f])
  moreover have "typed (rev (labels sd_start)) ?as" using typed_spelled[OF assms(1)] by (simp add: labels_def sd_start_def)
  moreover have "length (dx_clients sd_start) + connections ?as \<le> 8" using assms(2) by (simp add: sd_start_def MAX_CONNECTIONS_PER_IP_def)
  moreover have "fits_all (all_posts ?as (sd_start, empty_house delay auto_go rands, [])) s"
    using assms(5) same_faces_size[OF al(2)]
    by (simp add: fits_all_def assms(7) Server_init_def Client_init_def curtain_def)
  ultimately have "sd_exec 2 ?as net sd_start = Inr (fst (perform ?as ?g))"
    using scenario_follows[OF _ spelled_plain] assms(8) by (simp add: curtain_def)
  moreover have "fst (perform ?as ?g) = fst (perform ?as (curtain delay auto_go []))"
    using al(1) by (cases "perform ?as ?g"; cases "perform ?as (curtain delay auto_go [])") (auto simp: alike_stage_def)
  ultimately show ?thesis using sd_exec_spelled[of 2 "[]" "as"] assms(1) by simp
qed

section \<open>How much the relay answers\<close>

definition volume :: "post list \<Rightarrow> nat" where
  "volume out = sum_list (map (\<lambda>(c, m). length (snd m) + 2) out)"

lemma volume_simps [simp]:
  "volume [] = 0" "volume ((c, m) # out) = length (snd m) + 2 + volume out" "volume (xs @ ys) = volume xs + volume ys"
  by (simp_all add: volume_def)

lemma length_list_post: "length (snd (list_post c h)) \<le> 73"
proof -
  have "length (concat (map (\<lambda>(n, x). name_field n @ [if hl_table h x = None then 1 else 0x82]) xs)) = 9 * length xs" for xs
    by (induction xs) auto
  then show ?thesis by (simp add: list_post_def Let_def)
qed

lemma volume_depart: "volume (snd (depart c h)) \<le> 35"
  by (simp add: depart_def Let_def case_prod_unfold split: option.split)

lemma volume_commence: "volume (snd (commence a b h)) = 78"
  by (simp add: commence_def start_post_def Let_def)

lemma volume_sit_down: "volume (snd (sit_down t c h)) \<le> 148"
  by (simp add: sit_down_def Let_def case_prod_unfold volume_commence room_post_def)

lemma volume_list: "volume [(c, list_post c h)] \<le> 75"
  using length_list_post[of c h] by (cases "list_post c h") simp

lemma volume_greet: "volume (snd (greet c n h)) \<le> 110"
proof -
  have "volume (snd (depart x h)) + volume [(c, list_post c k)] \<le> 110" for x k
    using volume_depart[of x h] volume_list[of c k] by linarith
  moreover have "volume [(c, list_post c k)] \<le> 110" for k using volume_list[of c k] by linarith
  ultimately show ?thesis by (simp add: greet_def Let_def case_prod_unfold del: volume_simps(2) split: option.split)
qed

lemma volume_join: "volume (snd (ask_to_join c payload h)) \<le> 148"
  using volume_depart[of c h] volume_sit_down[of _ c h] volume_list[of c h]
  by (auto simp: ask_to_join_def show_list_def simp del: volume_simps(2) split: option.split intro: le_trans)

lemma volume_start: "volume (snd (ask_to_start c h)) \<le> 78"
  by (simp add: ask_to_start_def volume_commence split: option.split)

text \<open>One message is answered by at most 75 times its size.\<close>

lemma volume_respond: "volume (snd (respond c m h)) \<le> 75 * (length (snd m) + 2)"
proof -
  have "volume (snd (respond c m h)) \<le> 148 \<or> volume (snd (respond c m h)) \<le> length (snd m) + 2"
    using volume_depart[of c h] volume_join[of c "snd m" h] volume_start[of c h] volume_list[of c h]
      volume_greet[of c "wire_name (List.drop 1 (snd m))" h]
    by (simp add: respond_def Let_def pass_on_def show_list_def split: option.split)
  then show ?thesis by auto
qed

lemma volume_dialogue: "volume (snd (dialogue (map (Pair c) ms) h)) \<le> 75 * sum_list (map (\<lambda>m. length (snd m) + 2) ms)"
proof (induction ms arbitrary: h)
  case (Cons m ms)
  show ?case using volume_respond[of c m h] Cons.IH[of "fst (respond c m h)"] by (simp add: case_prod_unfold)
qed simp

lemma decode_size: "decode xs = (ms, left, bad) \<Longrightarrow> sum_list (map (\<lambda>m. length (snd m) + 2) ms) + length left = length xs"
proof (induction "length xs" arbitrary: xs ms left bad rule: less_induct)
  case less
  show ?case
  proof (cases "server_read xs")
    case (Msg m rest)
    then have m: "length (snd m) + 2 + length rest = length xs"
      by (auto simp: server_read_def Let_def split: if_splits)
    obtain ms' left' bad' where d: "decode rest = (ms', left', bad')" by (metis prod_cases3)
    have "ms = m # ms'" "left = left'" using less.prems by (simp_all add: decode_step[of xs] Msg d)
    then show ?thesis using less.hyps[OF _ d] m by simp
  qed (use less.prems in \<open>simp_all add: decode_step[of xs]\<close>)
qed

text \<open>The bytes that are waiting to become messages of the clients present.\<close>

definition waiting :: "house \<Rightarrow> nat" where
  "waiting w = (\<Sum>c \<in> set (hl_present (fst w)). length (po_inbox (snd w) c))"

lemma waiting_fewer:
  assumes "set (hl_present h1) \<subseteq> set (hl_present h)"
  shows "waiting (h1, p) \<le> waiting (h, p)"
  unfolding waiting_def fst_conv snd_conv using assms by (intro sum_mono2) auto

lemma answer_budget:
  "(v :: nat) \<le> 75 * n \<Longrightarrow> w0 = i + others \<Longrightarrow> n + left = i + d \<Longrightarrow> w \<le> left + others \<Longrightarrow> v + 75 * w \<le> 75 * (w0 + d) + 35"
  by simp

lemma volume_hear:
  assumes "c \<in> set (hl_present h)"
  shows "volume (snd (hear c data (h, p))) + 75 * waiting (fst (hear c data (h, p))) \<le> 75 * (waiting (h, p) + length data) + 35"
proof -
  obtain ms left bad where d: "decode (po_inbox p c @ data) = (ms, left, bad)" by (metis prod_cases3)
  obtain h1 o1 where r: "dialogue (map (Pair c) ms) h = (h1, o1)" by fastforce
  let ?n = "sum_list (map (\<lambda>m. length (snd m) + 2) ms)" and ?others = "\<Sum>x \<in> set (hl_present h) - {c}. length (po_inbox p x)"
  have size: "?n + length left = length (po_inbox p c) + length data" using decode_size[OF d] by simp
  have v1: "volume o1 \<le> 75 * ?n" using volume_dialogue[of c ms h] by (simp add: r)
  have sub: "set (hl_present h1) \<subseteq> set (hl_present h)" using dialogue_frame(1)[of "map (Pair c) ms" h] by (simp add: r)
  have split: "waiting (h, p) = length (po_inbox p c) + ?others"
    unfolding waiting_def fst_conv snd_conv using assms by (rule sum.remove[OF finite_set])
  show ?thesis
  proof (cases "bad \<and> c \<in> set (hl_present h1)")
    case True
    have "set (hl_present (fst (depart c h1))) \<subseteq> set (hl_present h) - {c}" using sub by (auto simp: depart_names)
    then have "waiting (fst (depart c h1), p) \<le> ?others" unfolding waiting_def fst_conv snd_conv by (intro sum_mono2) auto
    then show ?thesis using True v1 volume_depart[of c h1] split size by (simp add: hear_def d r case_prod_unfold)
  next
    case False
    have "waiting (h1, p\<lparr>po_inbox := (po_inbox p)(c := left)\<rparr>) \<le> (\<Sum>x \<in> set (hl_present h). length (((po_inbox p)(c := left)) x))"
      (is "_ \<le> sum ?f _")
    proof -
      have "waiting (h1, p\<lparr>po_inbox := (po_inbox p)(c := left)\<rparr>) = sum ?f (set (hl_present h1))" by (simp add: waiting_def)
      also have "\<dots> \<le> sum ?f (set (hl_present h))" using sub by (intro sum_mono2) auto
      finally show ?thesis .
    qed
    also have "\<dots> = length left + (\<Sum>x \<in> set (hl_present h) - {c}. length (((po_inbox p)(c := left)) x))"
      using sum.remove[OF finite_set assms, of "\<lambda>x. length (((po_inbox p)(c := left)) x)"] by simp
    also have "(\<Sum>x \<in> set (hl_present h) - {c}. length (((po_inbox p)(c := left)) x)) = ?others" by (rule sum.cong) auto
    finally have w: "waiting (h1, p\<lparr>po_inbox := (po_inbox p)(c := left)\<rparr>) \<le> length left + ?others" .
    have hear: "hear c data (h, p) = ((h1, p\<lparr>po_inbox := (po_inbox p)(c := left)\<rparr>), o1)"
      using False by (auto simp: hear_def d r)
    show ?thesis unfolding hear fst_conv snd_conv by (rule answer_budget[OF v1 split size w])
  qed
qed

lemma volume_hang_up:
  "volume (snd (hang_up c (h, p))) + 75 * waiting (fst (hang_up c (h, p))) \<le> 75 * waiting (h, p) + 35"
  using volume_depart[of c h] waiting_fewer[OF depart_present, of c h p] by (simp add: hang_up_def case_prod_unfold)

lemma waiting_take_in: "waiting (take_in ip now w) \<le> waiting w"
proof (cases w)
  case (Pair h p)
  let ?i = "(po_inbox p)(po_next p := [])"
  have "(\<Sum>c \<in> set (hl_present h @ [po_next p]). length (?i c)) = (\<Sum>c \<in> set (hl_present h). length (?i c))"
    by (intro sum.mono_neutral_right) auto
  also have "\<dots> \<le> waiting w" unfolding waiting_def Pair fst_conv snd_conv by (intro sum_mono) simp
  finally show ?thesis by (auto simp: take_in_def Pair waiting_def)
qed

definition event_bytes :: "event \<Rightarrow> nat" where
  "event_bytes e = (case e of Ev_client c writable (Some (Recv data)) \<Rightarrow> 75 * length data + 35 | Ev_client c writable (Some r) \<Rightarrow> 35 | _ \<Rightarrow> 0)"

lemma volume_happen: "volume (snd (happen e w)) + 75 * waiting (fst (happen e w)) \<le> 75 * waiting w + event_bytes e"
proof (cases "(e, w)" rule: happen.cases)
  case (1 addr opts_ok now w)
  then show ?thesis using waiting_take_in[of "fst addr" now w] by (simp add: event_bytes_def)
next
  case (2 c writable data w')
  obtain h p where w: "w' = (h, p)" by (cases w')
  show ?thesis using 2 volume_hear[of c h data p] volume_hang_up[of c h p]
    by (cases "c \<in> set (hl_present h)") (simp_all add: w event_bytes_def)
next
  case (3 c writable w')
  obtain h p where w: "w' = (h, p)" by (cases w')
  show ?thesis using 3 volume_hang_up[of c h p] by (simp add: w event_bytes_def)
next
  case (4 order now w')
  obtain h p where w: "w' = (h, p)" by (cases w')
  have "waiting (dismiss now (h, p)) \<le> waiting (h, p)"
    by (simp only: dismiss_def prod.case) (rule waiting_fewer, auto)
  then show ?thesis using 4 by (simp add: w)
qed (simp_all add: event_bytes_def)

lemma volume_happenings:
  "volume (snd (happenings es w)) + 75 * waiting (fst (happenings es w)) \<le> 75 * waiting w + sum_list (map event_bytes es)"
proof (induction es arbitrary: w)
  case (Cons e es)
  show ?case using volume_happen[of e w] Cons.IH[of "fst (happen e w)"] by (simp add: case_prod_unfold)
qed simp

fun act_bytes :: "action \<Rightarrow> nat" where
  "act_bytes (Raw l bs) = 75 * length bs + 35"
| "act_bytes (Close l) = 35"
| "act_bytes _ = 0"

lemma act_events_bytes: "sum_list (map event_bytes (act_events a cs)) \<le> act_bytes a"
  by (cases a) (simp_all add: from_cli_def event_bytes_def split: option.split)

lemma volume_posts: "volume (all_posts as g) \<le> 75 * waiting (fst (snd g)) + sum_list (map act_bytes as)"
proof (induction "as" arbitrary: g)
  case (Cons a "as")
  obtain x w out where g: "g = (x, w, out)" by (rule prod_cases3)
  let ?es = "act_events a (dx_clients x)"
  have "fst (snd (perform [a] g)) = fst (happenings ?es w)"
  proof (cases "\<exists>step. a = Sync step")
    case True
    then show ?thesis by (auto simp: g note_sync_def Let_def)
  next
    case False
    then have ns: "\<forall>step. a \<noteq> Sync step" by simp
    show ?thesis unfolding g perform_one[OF ns] by (simp add: case_prod_unfold)
  qed
  then show ?case
    using Cons.IH[of "perform [a] g"] volume_happenings[of ?es w] act_events_bytes[of a "dx_clients x"]
    unfolding all_posts_Cons[of a "as"] by (simp add: g case_prod_unfold)
qed simp

section \<open>The scenarios\<close>

fun cost :: "action \<Rightarrow> nat" where
  "cost (Hello l name ver) =
     75 * (3 + length (utf8_encode (case name of None \<Rightarrow> l | Some n \<Rightarrow> if n = [] then l else n))) + 35"
| "cost (Frame l t p) = 75 * (length p + 2) + 35"
| "cost (Frame_code l b p) = 75 * (length p + 2) + 35"
| "cost a = act_bytes a"

fun joins :: "action \<Rightarrow> nat" where
  "joins (Hello l name ver) = 1"
| "joins (Connect l) = 1"
| "joins _ = 0"

lemma spell_cost:
  assumes "typed ls (a # as)"
  shows "sum_list (map act_bytes (spell 2 a)) = cost a" "connections (spell 2 a) = joins a"
proof -
  have "sum_list (map act_bytes (spell 2 a)) = cost a \<and> connections (spell 2 a) = joins a"
  proof (cases a)
    case (Hello l name ver)
    have "to_bytes [int (case ver of None \<Rightarrow> 2 | Some v \<Rightarrow> v)] = Inr [word_of_int (int (case ver of None \<Rightarrow> 2 | Some v \<Rightarrow> v))]"
      using assms Hello by (subst to_bytes_ok) (auto split: option.splits)
    then show ?thesis by (simp add: Hello hello_payload_def Let_def encode_msg_def connections_def)
  qed (simp_all add: encode_msg_def connections_def)
  then show "sum_list (map act_bytes (spell 2 a)) = cost a" "connections (spell 2 a) = joins a" by simp_all
qed

lemma connections_append: "connections (as @ bs) = connections as + connections bs"
  by (simp add: connections_def)

lemma spelled_cost:
  "typed ls as \<Longrightarrow> sum_list (map act_bytes (spelled 2 as)) = sum_list (map cost as) \<and>
     connections (spelled 2 as) = sum_list (map joins as)"
proof (induction "as" arbitrary: ls)
  case (Cons a "as")
  from Cons.prems have "typed (case a of Connect l \<Rightarrow> l # ls | Hello l n v \<Rightarrow> l # ls | _ \<Rightarrow> ls) as" by (cases a) auto
  from Cons.IH[OF this] show ?case using spell_cost[OF Cons.prems] by (simp add: connections_append)
qed (simp add: connections_def)

lemma posts_fit:
  assumes "typed [] as"
  shows "length (posted_to d (all_posts (spelled 2 as) (curtain delay auto_go rands))) \<le> sum_list (map cost as)"
proof -
  have "waiting (empty_house delay auto_go rands) = 0" by (simp add: waiting_def empty_house_def)
  then show ?thesis
    using le_trans[OF posted_to_length[of d] volume_posts[of "spelled 2 as" "curtain delay auto_go rands", unfolded volume_def]]
    by (simp add: spelled_cost[OF assms] curtain_def)
qed

definition modest :: "action list \<Rightarrow> bool" where
  "modest as \<longleftrightarrow> typed [] as \<and> sum_list (map joins as) \<le> MAX_CONNECTIONS_PER_IP \<and> sum_list (map cost as) \<le> MAX_TX_BACKLOG"

lemma small_scenarios: "modest s1_roster_order" "modest s3_go_start" "modest s5_drop_matrix" "modest s6_framing"
  using typed_v2 by (simp_all add: modest_def MAX_CONNECTIONS_PER_IP_def MAX_TX_BACKLOG_def s1_roster_order_def s3_go_start_def
    s5_drop_matrix_def s6_framing_def hello_as_def utf8_encode_def sd_pad_def Let_def ping_frame_def list_frame_def join_frame_def sd_frame_ok encode_msg_def)

lemma small_rooms: "modest (s2_rooms seats)"
  using typed_rooms[of seats]
  by (simp add: modest_def MAX_CONNECTIONS_PER_IP_def MAX_TX_BACKLOG_def s2_rooms_def hello_as_def utf8_encode_def sd_pad_def)

lemma small_relay: "modest s4_relay_crc"
proof -
  have len: "length (sd_pad n) = 8" "length bytes96 = 96" "length (crc_report a b c d) = 5" for n a b c d
    by (simp_all add: sd_pad_def bytes96_def crc_report_def)
  have four: "[0..<4] = [0, 1, 2, 3 :: nat]" by (simp add: upt_rec)
  have enc: "length (utf8_encode ''ALICE'') = 5" "length (utf8_encode ''BOB'') = 3" by (simp_all add: utf8_encode_def)
  have many: "sum_list (map (\<lambda>t. k) ts) = k * length ts" for k :: nat and ts :: "nat list"
    by (induction ts) simp_all
  have "sum_list (map joins s4_relay_crc) = 2" "sum_list (map cost s4_relay_crc) \<le> MAX_TX_BACKLOG"
    unfolding s4_relay_crc_def hello_as_def four MAX_TX_BACKLOG_def
    by (simp_all add: len enc comp_def many del: upt_rec_numeral)
  then show ?thesis using typed_relay(1) by (simp add: modest_def MAX_CONNECTIONS_PER_IP_def)
qed

section \<open>The transcript is determined\<close>

definition scenario_of :: "action list \<Rightarrow> action list" where
  "scenario_of as = as @ [Sync ''final'']"

lemma modest_final: "modest as \<Longrightarrow> modest (scenario_of as)"
  by (simp add: modest_def scenario_of_def typed_final)

lemma v2_modest:
  assumes "(name, as) \<in> set (SCENARIOS_V2 seats)" "name \<noteq> ''limits''"
  shows "modest (scenario_of as)"
  using assms small_scenarios small_rooms small_relay by (intro modest_final) (auto simp: SCENARIOS_V2_def)

text \<open>A relay that was just started, whatever its port, its draws and the answers of its sockets.\<close>

definition just_started :: "int \<Rightarrow> int \<Rightarrow> server \<Rightarrow> bool" where
  "just_started delay auto_go s \<longleftrightarrow>
     (\<exists>port sends rands. s = Server_init port delay None auto_go sends rands \<and>
        list_all (\<lambda>r. r \<noteq> Send_fails \<and> r \<noteq> Sent 0) sends)"

lemma modest_determined:
  assumes "modest as" "0 \<le> delay" "delay < 256" "just_started delay auto_go s" "carried (spelled 2 as) net sd_start s s"
  shows "sd_exec 2 as net sd_start = Inr (fst (perform (spelled 2 as) (curtain delay auto_go [])))"
proof -
  have m: "typed [] as" "connections (spelled 2 as) \<le> MAX_CONNECTIONS_PER_IP" "sum_list (map cost as) \<le> MAX_TX_BACKLOG"
    using assms(1) spelled_cost[of "[]" "as"] by (simp_all add: modest_def)
  obtain port sends rands where s: "s = Server_init port delay None auto_go sends rands"
      "list_all (\<lambda>r. r \<noteq> Send_fails \<and> r \<noteq> Sent 0) sends"
    using assms(4) by (auto simp: just_started_def)
  show ?thesis
    by (rule scenario_determined[OF m(1,2) assms(2,3) _ s(2,1) assms(5)])
      (use posts_fit[OF m(1)] m(3) le_trans in blast)
qed

section \<open>A network for a scenario\<close>

text \<open>Nobody hangs up: what the existence of a network needs to know of the machine.\<close>

fun stays :: "action list \<Rightarrow> string list \<Rightarrow> house \<Rightarrow> bool" where
  "stays [] ls w \<longleftrightarrow> True"
| "stays (Connect l # as) ls w \<longleftrightarrow> stays as (ls @ [l]) (take_in ''127.0.0.1'' 0 w)"
| "stays (Raw l bs # as) ls w \<longleftrightarrow>
     stays as ls (case find (\<lambda>i. ls ! i = l) [0..<length ls] of
       None \<Rightarrow> w | Some i \<Rightarrow> if bs = [] then w else fst (happen (from_cli i bs) w))"
| "stays (Sync step # as) ls w \<longleftrightarrow> list_all (\<lambda>i. i \<in> set (hl_present (fst w))) [0..<length ls] \<and> stays as ls w"
| "stays (Sleep # as) ls w \<longleftrightarrow> stays as ls w"
| "stays (a # as) ls w \<longleftrightarrow> False"

lemma client_index_find: "client_index l cs = find (\<lambda>i. dc_label (cs ! i) = l) [0..<length cs]"
proof (induction cs)
  case (Cons c cs)
  have "[0..<length (c # cs)] = 0 # map Suc [0..<length cs]" unfolding map_Suc_upt by (simp add: upt_conv_Cons del: upt_Suc)
  then show ?case using Cons by (simp add: find_map comp_def)
qed simp

text \<open>Everybody's queue is written out by one turn each.\<close>

definition wide :: send_result where "wide = Sent MAX_TX_BACKLOG"

lemma flush_wide:
  assumes "sv_sends s = replicate (Suc n) wide" "tx_ok s"
  shows "\<exists>t m. flush c s = Ok t \<and> n \<le> m \<and> sv_sends t = replicate m wide \<and> cl_tx (client_of t c) = [] \<and>
    (\<forall>d. d \<noteq> c \<longrightarrow> cl_tx (client_of t d) = cl_tx (client_of s d)) \<and> (\<forall>d. cl_dead (client_of t d) = cl_dead (client_of s d)) \<and> tx_ok t"
proof -
  let ?tx = "cl_tx (client_of s c)" and ?w = "cl_wire (client_of s c)"
  have len: "length ?tx \<le> MAX_TX_BACKLOG" using assms(2) by (simp add: tx_ok_def)
  obtain m where m: "send_loop (sv_sends s) ?tx ?w = (replicate m wide, [], ?w @ ?tx, None)" "n \<le> m"
  proof (cases ?tx)
    case Nil
    then show ?thesis using that[of "Suc n"] by (simp add: assms(1))
  next
    case (Cons b bs)
    then show ?thesis using that[of n] len by (simp add: assms(1) wide_def MAX_TX_BACKLOG_def)
  qed
  let ?t = "update_events c (upd_client c (\<lambda>x. x\<lparr>cl_tx := [], cl_wire := ?w @ ?tx\<rparr>) (s\<lparr>sv_sends := replicate m wide\<rparr>))"
  have "flush c s = Ok ?t" by (simp add: flush_def flush_with_def m(1))
  moreover have "tx_ok ?t" using assms(2) by (simp add: tx_ok_def)
  ultimately show ?thesis using m(2) by (intro exI[of _ ?t] exI[of _ m]) simp
qed

lemma flush_all_wide:
  assumes "sv_sends s = replicate n wide" "tx_ok s" "length ws \<le> n" "\<And>c. c \<in> set ws \<Longrightarrow> \<not> cl_dead (client_of s c)"
  shows "\<exists>t. run_events (map (\<lambda>c. Ev_client c True None) ws) s = Ok t \<and>
    (\<forall>c. c \<in> set ws \<or> cl_tx (client_of s c) = [] \<longrightarrow> cl_tx (client_of t c) = [])"
  using assms
proof (induction ws arbitrary: s n)
  case (Cons c ws)
  obtain k where n: "n = Suc k" "length ws \<le> k" using Cons.prems(3) by (cases n) auto
  obtain t m where t: "flush c s = Ok t" "k \<le> m" "sv_sends t = replicate m wide" "cl_tx (client_of t c) = []"
      "\<forall>d. d \<noteq> c \<longrightarrow> cl_tx (client_of t d) = cl_tx (client_of s d)" "\<forall>d. cl_dead (client_of t d) = cl_dead (client_of s d)" "tx_ok t"
    using flush_wide[OF Cons.prems(1)[unfolded n(1)] Cons.prems(2), of c] by blast
  have "run_event (Ev_client c True None) s = Ok t"
    using Cons.prems(4)[of c] t(1) by (simp add: serve_client_def serve_try_def)
  moreover obtain u where u: "run_events (map (\<lambda>c. Ev_client c True None) ws) t = Ok u"
      "\<forall>d. d \<in> set ws \<or> cl_tx (client_of t d) = [] \<longrightarrow> cl_tx (client_of u d) = []"
    using Cons.IH[OF t(3,7)] n(2) t(2,6) Cons.prems(4) by force
  moreover have "cl_tx (client_of t d) = []" if "d = c \<or> cl_tx (client_of s d) = []" for d
    using that t(4,5) by metis
  ultimately show ?case by (intro exI[of _ u]) auto
qed simp

text \<open>What was accepted since the last sync, one segment per client.\<close>

definition one_round :: "nat \<Rightarrow> server \<Rightarrow> server \<Rightarrow> (nat \<times> byte list) list list" where
  "one_round n s0 s =
     filter (\<lambda>r. r \<noteq> []) [filter (\<lambda>e. snd e \<noteq> [])
       (map (\<lambda>i. (i, List.drop (length (cl_wire (client_of s0 i))) (cl_wire (client_of s i)))) [0..<n])]"

lemma one_round_conveys:
  assumes "\<And>i. i < length cs \<Longrightarrow> cl_tx (client_of s i) = [] \<and> \<not> cl_closed (client_of s i)"
  shows "conveys (one_round (length cs) s0 s) cs s0 s"
proof -
  let ?d = "\<lambda>i. List.drop (length (cl_wire (client_of s0 i))) (cl_wire (client_of s i))"
  let ?r = "filter (\<lambda>e. snd e \<noteq> []) (map (\<lambda>i. (i, ?d i)) [0..<length cs])"
  have c: "concat (one_round (length cs) s0 s) = ?r" by (simp add: one_round_def)
  have ord: "sd_orderly es" if "\<forall>e \<in> set es. snd e \<noteq> []" for es
    using that by (induction es) auto
  have got: "concat (map snd (filter (\<lambda>p. fst p = i) (filter (\<lambda>e. snd e \<noteq> []) (map (\<lambda>j. (j, f j)) [0..<n])))) = f i"
    if "i < n" for i n and f :: "nat \<Rightarrow> byte list"
    using that
  proof (induction n)
    case (Suc n)
    have none: "filter (\<lambda>p. fst p = n) (filter (\<lambda>e. snd e \<noteq> []) (map (\<lambda>j. (j, f j)) [0..<n])) = []"
      by (auto simp: filter_empty_conv)
    show ?case using Suc none by (cases "i = n") (simp_all del: filter_filter)
  qed simp
  have "list_all (\<lambda>r. r \<noteq> []) (one_round (length cs) s0 s)" by (simp add: one_round_def)
  moreover have "sd_orderly (concat (one_round (length cs) s0 s))" unfolding c by (rule ord) simp
  moreover have "sd_got (one_round (length cs) s0 s) i = ?d i" if "i < length cs" for i
    unfolding sd_got_def c by (rule got[OF that])
  moreover have "\<not> sd_ended (one_round (length cs) s0 s) i" for i unfolding sd_ended_def c by simp
  ultimately show ?thesis using assms by (simp add: conveys_def)
qed

lemma stays_act:
  assumes "stays (a # as) (labels x) w" "plain a" "\<forall>step. a \<noteq> Sync step" "list_all (\<lambda>c. \<not> dc_closed c) (dx_clients x)"
    and "sd_action 2 a [] x = Inr (y, net)"
  shows "stays as (labels y) (fst (happenings (act_events a (dx_clients x)) w))"
    and "list_all (\<lambda>c. \<not> dc_closed c) (dx_clients y)"
proof -
  have idx: "find (\<lambda>i. labels x ! i = l) [0..<length (labels x)] = client_index l (dx_clients x)" for l
    unfolding client_index_find labels_def length_map by (rule find_cong[OF refl]) simp
  have "stays as (labels y) (fst (happenings (act_events a (dx_clients x)) w)) \<and> list_all (\<lambda>c. \<not> dc_closed c) (dx_clients y)"
  proof (cases a)
    case (Connect l)
    then have y: "y = connect l x" using assms(5) by simp
    have "labels y = labels x @ [l]" unfolding y by (rule labels_connect)
    moreover have "list_all (\<lambda>c. \<not> dc_closed c) (dx_clients y)" using assms(4) by (simp add: y connect_def Client_open_def)
    ultimately show ?thesis using assms(1) by (simp add: Connect)
  next
    case (Raw l bs)
    then obtain y' where "on_client l (dc_send bs) x = Inr y'" "y = y'" using assms(5) by (auto split: sum.splits)
    then obtain i where i: "client_index l (dx_clients x) = Some i" "y = x\<lparr>dx_clients := (dx_clients x)[i := dc_send bs (dx_clients x ! i)]\<rparr>"
      by (auto simp: on_client_def split: option.splits)
    have il: "i < length (dx_clients x)" by (rule client_index_less[OF i(1)])
    then have open_i: "\<not> dc_closed (dx_clients x ! i)" using assms(4) by (simp add: list_all_length)
    have "labels y = labels x" using i(2) by (simp add: labels_def map_update list_update_same_conv il)
    moreover have "list_all (\<lambda>c. \<not> dc_closed c) (dx_clients y)"
      using assms(4) open_i il by (auto simp: i(2) list_all_length nth_list_update)
    moreover have "stays as (labels x) (if bs = [] then w else fst (happen (from_cli i bs) w))"
      using assms(1) unfolding Raw stays.simps idx i(1) by simp
    ultimately show ?thesis using open_i by (cases "bs = []") (simp_all add: Raw i(1) case_prod_unfold)
  qed (use assms in simp_all)
  then show "stays as (labels y) (fst (happenings (act_events a (dx_clients x)) w))"
    "list_all (\<lambda>c. \<not> dc_closed c) (dx_clients y)" by simp_all
qed

lemma carried_ex:
  assumes "staged x s0 s w out" "list_all plain as" "typed (rev (labels x)) as" "length (dx_clients x) + connections as \<le> 8"
    and "fits_all (all_posts as (x, w, out)) s" "list_all (\<lambda>c. \<not> dc_closed c) (dx_clients x)" "stays as (labels x) w"
  shows "\<exists>net. carried as net x s0 s"
  using assms
proof (induction "as" arbitrary: x s0 s w out)
  case (Cons a "as")
  show ?case
  proof (cases "\<exists>step. a = Sync step")
    case True
    then obtain step where a: "a = Sync step" by blast
    let ?n = "length (dx_clients x)" and ?ws = "[0..<length (dx_clients x)]"
    let ?s = "s\<lparr>sv_sends := replicate (length (dx_clients x)) wide\<rparr>"
    have st: "faithful s w" using Cons.prems(1) by (simp add: staged_def)
    have here: "i \<in> set (hl_present (fst w))" if "i < ?n" for i
      using Cons.prems(7) that by (simp add: a labels_def list_all_iff)
    have live: "\<not> cl_dead (client_of ?s c)" if "c \<in> set ?ws" for c
      using here[of c] that faithful_present(2)[of s "fst w" "snd w" c] st by simp
    have tx: "tx_ok ?s" using st by (simp add: faithful_def server_inv_def good_def core_def tx_ok_def)
    obtain u where u: "run_events (map (\<lambda>c. Ev_client c True None) ?ws) ?s = Ok u"
        "\<forall>c. c \<in> set ?ws \<or> cl_tx (client_of ?s c) = [] \<longrightarrow> cl_tx (client_of u c) = []"
      using flush_all_wide[OF _ tx, of ?n ?ws] live by auto
    have lw: "lets_write ?n s u"
      unfolding lets_write_def by (rule exI[of _ "replicate ?n wide"], rule exI[of _ ?ws])
        (use u(1) in \<open>simp add: wide_def MAX_TX_BACKLOG_def list_all_iff\<close>)
    note wf = writes_follow[OF Cons.prems(1) lw Cons.prems(5)]
    have fu: "faithful u w" using wf(1) by (simp add: staged_def)
    have conns: "conns_ok u" "hl_present (fst w) = sv_clients u"
      using fu by (auto simp: faithful_def server_inv_def good_def core_def mirrors_def simp flip: hall_of_sel(1))
    have nx: "?n = sv_next_cid u" using wf(1) fu by (simp add: staged_def faithful_def mirrors_def)
    have "cl_tx (client_of u i) = [] \<and> \<not> cl_closed (client_of u i)" if "i < ?n" for i
      using u(2) here[OF that] that conns nx by (simp add: conns_ok_def)
    then have cv: "conveys (one_round ?n s0 u) (dx_clients x) s0 u" by (rule one_round_conveys)
    obtain y w' out' where n: "note_sync step (x, w, out) = (y, w', out')" by (metis prod_cases3)
    note y = stage_sync[OF wf(1) cv n]
    have len: "length (dx_clients y) = ?n" using y by (metis labels_def length_map)
    have sy: "staged y u u w []" using y by metis
    have fit: "fits_all (all_posts as (y, w, [])) u" using wf(2) y n by (simp add: a)
    have op: "list_all (\<lambda>c. \<not> dc_closed c) (dx_clients y)"
      using n Cons.prems(6) here by (auto simp: note_sync_def Let_def list_all_length)
    obtain net where "carried as net y u u"
      using Cons.IH[OF sy _ _ _ fit op] Cons.prems y len by (auto simp: a connections_Cons)
    then have "carried (a # as) (one_round ?n s0 u # net) x s0 s" using y lw cv by (auto simp: a)
    then show ?thesis by blast
  next
    case False
    then have ns: "\<forall>step. a \<noteq> Sync step" by simp
    obtain w1 o1 where h: "happenings (act_events a (dx_clients x)) w = (w1, o1)" by fastforce
    have pl: "plain a" "list_all plain as" using Cons.prems(2) by simp_all
    have le: "length (dx_clients x) + (case a of Connect l \<Rightarrow> 1 | _ \<Rightarrow> 0) \<le> 8" using Cons.prems(4) by (simp add: connections_Cons)
    obtain y0 where y0: "\<forall>net. sd_action 2 a net x = Inr (y0, net)" using act_harness[OF pl(1) ns Cons.prems(3)] by blast
    note pa = perform_act[OF ns h y0[rule_format]]
    have fit: "fits_all (o1 @ all_posts as (y0, w1, out @ o1)) s" using Cons.prems(5) by (simp only: pa(2))
    obtain t where t: "run_events (act_events a (dx_clients x)) s = Ok t" "typed (rev (labels y0)) as" "staged y0 s0 t w1 (out @ o1)"
        "fits_all (all_posts as (y0, w1, out @ o1)) t"
        "length (dx_clients y0) = length (dx_clients x) + (case a of Connect l \<Rightarrow> 1 | _ \<Rightarrow> 0)"
      using stage_act[OF Cons.prems(1) pl(1) ns Cons.prems(3) le h fit] y0 by auto
    note sa = stays_act[OF Cons.prems(7) pl(1) ns Cons.prems(6) y0[rule_format]]
    have "stays as (labels y0) w1" using sa(1) h by simp
    then obtain net where "carried as net y0 s0 t"
      using Cons.IH[OF t(3) pl(2) t(2) _ t(4) sa(2)] Cons.prems(4) t(5) by (auto simp: connections_Cons)
    then have "carried (a # as) net x s0 s" using ns t(1) y0 by (cases a) simp_all
    then show ?thesis by blast
  qed
qed simp

text \<open>The scenario \<open>start\<close>: nobody leaves.\<close>

lemma start_spelled: "spelled 2 (s3_go_start @ [Sync ''final'']) =
  [Connect ''ALICE'', Raw ''ALICE'' [7, 1, 2, 65, 76, 73, 67, 69], Sync ''hello ALICE'',
   Connect ''BOB'', Raw ''BOB'' [5, 1, 2, 66, 79, 66], Sync ''hello BOB'',
   Raw ''ALICE'' [1, 15], Sync ''GO with no room (ignored)'',
   Raw ''BOB'' [9, 4, 65, 76, 73, 67, 69, 0, 0, 0], Sync ''BOB joins ALICE'',
   Raw ''BOB'' [1, 15], Sync ''guest GO (ignored)'', Raw ''ALICE'' [1, 15], Sync ''host GO -> START'',
   Raw ''ALICE'' [1, 15], Sync ''second GO on a started room (ignored)'',
   Connect ''CAROL'', Raw ''CAROL'' [7, 1, 2, 67, 65, 82, 79, 76], Sync ''hello CAROL'',
   Raw ''CAROL'' [9, 4, 65, 76, 73, 67, 69, 0, 0, 0], Sync ''join a started room -> LOBBY'',
   Raw ''ALICE'' [1, 12], Sync ''PING -> PONG'', Sync ''final'']"
  by (simp add: s3_go_start_def hello_as_def hello_payload_def to_bytes_ok encode_msg_def utf8_encode_def sd_pad_def pad8_def sd_T_def T_HELLO_def numeral_3_eq_3)


lemma start_bytes:
  "decode [7, 1, 2, 65, 76, 73, 67, 69] = ([(1, [2, 65, 76, 73, 67, 69])], [], False)"
  "decode [5, 1, 2, 66, 79, 66] = ([(1, [2, 66, 79, 66])], [], False)"
  "decode [7, 1, 2, 67, 65, 82, 79, 76] = ([(1, [2, 67, 65, 82, 79, 76])], [], False)"
  "decode [9, 4, 65, 76, 73, 67, 69, 0, 0, 0] = ([(4, [65, 76, 73, 67, 69, 0, 0, 0])], [], False)"
  "decode [1, 15] = ([(15, [])], [], False)" "decode [1, 12] = ([(12, [])], [], False)"
  by code_simp+

lemma start_names:
  "wire_name [67, 65, 82, 79, 76] = ''CAROL''" "valid_name ''CAROL''" "wire_name [65, 76, 73, 67, 69, 0, 0, 0] = ''ALICE''"
  by code_simp+

lemma start_stays: "stays (spelled 2 (s3_go_start @ [Sync ''final''])) [] (empty_house 3 0 rands)"
  unfolding start_spelled
  by (simp add: from_cli_def machine_simps house_simps session_names start_names start_bytes)

lemma start_carried:
  assumes "just_started 3 0 s"
  shows "\<exists>net. carried (spelled 2 (s3_go_start @ [Sync ''final''])) net sd_start s s"
proof -
  let ?as = "s3_go_start @ [Sync ''final'']"
  obtain port sends rands where s: "s = Server_init port 3 None 0 sends rands"
      "list_all (\<lambda>r. r \<noteq> Send_fails \<and> r \<noteq> Sent 0) sends"
    using assms by (auto simp: just_started_def)
  have f: "faithful s (empty_house 3 0 rands)" unfolding s(1) by (rule faithful_start) (use s(2) in simp_all)
  have m: "modest ?as" using modest_final[OF small_scenarios(2)] by (simp only: scenario_of_def)
  then have t: "typed [] ?as" "connections (spelled 2 ?as) \<le> 8" "sum_list (map cost ?as) \<le> MAX_TX_BACKLOG"
    using spelled_cost[of "[]" ?as] by (simp_all add: modest_def MAX_CONNECTIONS_PER_IP_def)
  have fit: "fits_all (all_posts (spelled 2 ?as) (sd_start, empty_house 3 0 rands, [])) s"
    using le_trans[OF posts_fit[OF t(1), of _ 3 0 rands] t(3)]
    by (simp add: fits_all_def s(1) Server_init_def Client_init_def curtain_def)
  show ?thesis
    by (rule carried_ex[OF staged_start[OF f] spelled_plain _ _ fit])
      (use t(2) typed_spelled[OF t(1)] start_stays[of rands] in \<open>simp_all add: sd_start_def labels_def\<close>)
qed

section \<open>Property\<close>



end
