(* ===== verification/Spec2Isabelle.thy ===== *)
theory Spec2Isabelle
  imports Relay_Props Rom_Tools Trace_Tools Client_Sim Ghost_Peer Lobby_Idlers Diff_Scenarios Relay_Session Load_Tools Gate_Relay
    Relay_Contract Relay_Main Tool_Launch Gate_Pass Diff_Relay
begin

text \<open>
  Verification of the Python side of the FujiNet Intellivision boxing repository: the relay
  server through which two consoles play in lockstep, the peers and harnesses that test it, and
  the tools that find, patch and check the game's ROM.

  \<^bold>\<open>The program.\<close>  \<open>server/intv_relay_server.py\<close> is one process with a \<open>select\<close> loop.
  A console connects, says HELLO with a name, reads the LOBBY, JOINs another player, and the two
  form a room; the host's GO starts the match, after which the server forwards INPUT, CRC, STATE
  and RESYNC frames between the two and compares their checksums.  Leaving, failing writes, full
  queues and protocol errors all end in \<open>Server.drop\<close>, which may drop further players while it
  notifies them.  A second thread, \<open>LobbyPublisher\<close>, POSTs the number of players to a lobby
  service.  \<open>tools/bbnet_client_sim.py\<close>, \<open>tools/ghost_peer.py\<close>, \<open>tools/server_diff.py\<close>,
  \<open>tools/soak.py\<close> and \<open>test/lobby_idlers.py\<close> are peers of the server; \<open>tools/recon.py\<close>,
  \<open>dump_rom.py\<close>, \<open>check_patch.py\<close> and \<open>patches.py\<close> work on ROM images,
  \<open>crc_trace_diff.py\<close>, \<open>mk_replay.py\<close>, \<open>cell_diff.py\<close> and \<open>check_dest_phase.py\<close> on
  debugger logs.

  \<^bold>\<open>Theories and code.\<close>
  \<^item> \<open>Prelude\<close>: bytes, Python exceptions as values, \<open>bytes([..])\<close>, dictionaries as
    association lists (locale \<open>ordered_dict\<close>), invariants of step relations (locale
    \<open>invariant_system\<close>), list and bit lemmas.
  \<^item> \<open>Wire\<close>: frame types, limits, \<open>frame\<close>, names; the interface of a frame reader as a
    locale, with the one proof that a byte stream may be cut anywhere.
  \<^item> \<open>Lobby\<close>: \<open>LobbyPublisher\<close>; its two threads are a step relation.
  \<^item> \<open>Relay_State\<close>: \<open>Room\<close>, \<open>Client\<close>, \<open>Server\<close>.  Objects live in stores indexed by
    identity, so aliasing is explicit.
  \<^item> \<open>Relay_Core\<close>: \<open>send\<close>, \<open>flush\<close>, \<open>_update_events\<close>, \<open>room_broadcast\<close>, \<open>dissolve\<close>,
    \<open>drop\<close>.  The recursion \<open>send\<close> - \<open>drop\<close> is cut by a depth; running out of it is an
    exception of the model, which never occurs.
  \<^item> \<open>Relay_Inv\<close>: the invariant of rooms, directory and selector, through every write and drop.
  \<^item> \<open>Crc_Log\<close>: \<open>log_crc\<close>.  \<open>Relay_Protocol\<close>: \<open>handle\<close> and the handlers \<open>on_hello\<close>,
    \<open>on_list\<close>, \<open>on_join\<close>, \<open>on_go\<close>, \<open>start_room\<close>.  \<open>Relay_Loop\<close>: \<open>service\<close>, \<open>accept\<close>,
    \<open>sweep\<close>, \<open>run\<close> as a step relation with its reachable states.
  \<^item> \<open>Relay_Frames\<close>: service refines decoding followed by handling.  \<open>Relay_Deliver\<close>: what
    every operation appends to every byte stream.  \<open>Relay_Props\<close>: the handlers' properties.
    \<open>Relay_Session\<close>: whole matches as sequences of messages.
  \<^item> \<open>Peers\<close>, \<open>Client_Sim\<close>, \<open>Ghost_Peer\<close>, \<open>Lobby_Idlers\<close>, \<open>Load_Tools\<close>: the clients,
    each with a theorem that puts it behind the modelled server.  \<open>Gate_Script\<close> holds the
    scenarios of \<open>bbnet_client_sim.py\<close>, \<open>Gate_Relay\<close> what the automatic start needs of
    the relay in any state.
  \<^item> \<open>Relay_Spec\<close>: the relay's contract as an abstract machine without buffers, queues, selector
    and nested drops: a hall of present clients, names and tables, and the posts each message
    causes.  \<open>Relay_Refines\<close>: every handler does what the machine's operation does.
    \<open>Relay_Contract\<close>: so does the loop, for every sequence of its events.
  \<^item> \<open>Relay_Main\<close>: \<open>main\<close> and \<open>run\<close> with its clocks: the process from its options to the
    \<open>finally\<close> that shuts the publisher down.  \<open>Tool_Launch\<close>: the command lines with which
    the tools start a relay, and how they wait for it and end it.
  \<^item> \<open>Gate_Desk\<close>: the scenarios read over queues of messages, and as the events the relay
    sees.  \<open>Gate_Pass\<close>: the three scenarios of the protocol gate against the relays it starts.
  \<^item> \<open>Diff_Harness\<close>, \<open>Diff_Scenarios\<close>: transcripts, log normalization, verdict and the
    scenarios of \<open>server_diff.py\<close>.  \<open>Diff_Relay\<close>: the scenarios run against the modelled relay.
  \<^item> \<open>Rom_Tools\<close>, \<open>Trace_Tools\<close>: scanner, dump, patch map, patch check, log parser and gates.

  \<^bold>\<open>State and environment.\<close>  The state of the server is the record \<open>server\<close>; its operations
  return an \<open>outcome\<close>, the new state or an exception together with the state at the time it was
  raised.  The kernel is an input: the script \<open>sv_sends\<close> says what the successive \<open>send\<close>
  calls do (accept some bytes, block, fail), the events of the loop say which sockets are ready
  and what \<open>recv\<close> and \<open>accept\<close> return, clock readings and random draws are given.  So every
  theorem about the server holds for all behaviours of the network.  The byte stream of a client
  is what its socket accepted followed by its queue.

  \<^bold>\<open>What the lemmas show.\<close>  The server invariant holds in all reachable states, and no exception
  leaves the loop except from a failing accept.  Each handler's effect on the streams is exact;
  from the lobby on, a match delivers to each player exactly the other's frames in order.  With
  sockets that accept data and streams within the queue limit the whole loop refines the machine
  of \<open>Relay_Spec\<close>; on this rests that the protocol gate passes.  The process ends only on SIGINT
  or a failing accept, after an offline POST; the lobby lists exactly the registered players.  The
  segmentation of TCP makes no difference to the server or to the clients.  The publisher loses
  no update and publishes it.  The peers' readers and decoders report the server's actual state.
  The harness separates transcripts that differ in more than the seed, and against this relay its
  scenarios leave one transcript each, whatever the timing, the segmentation and the draws.  Dumping, patching and
  checking a ROM agree with each other; the determinism gate's verdicts mean what they say.

  \<^bold>\<open>Bounds and fuel.\<close>  A drop inside a drop inside a drop does not happen (at most two deep), so
  the depth 8 of \<open>Relay_Core\<close> is enough; loops over a room's members run at most as often as the
  room had members; the reading loops of server and peers consume at least a byte per round, so
  the length of the buffer is enough fuel; the drain of the client is bounded by the bytes of its
  script.  The frames of a match must fit the queue limit of the server when nothing is ever
  written, which is a hypothesis of the theorem on whole matches; the scenarios of the harness are shown to fit,
  as no message is answered by more than 75 times its size.

  \<^bold>\<open>Not modelled.\<close>  The C port of the relay, the assembly of the console and the shell drivers are
  other languages.  Of the Python: command lines other than the relay's (of these the spellings
  with full option names and separate values), logging setup, text formatting of reports (reports
  are values), thread scheduling below the step relations, a KeyboardInterrupt outside
  \<open>select\<close>, memory exhaustion, and rounding of floating point numbers, which are rationals here.  \<open>repr\<close> texts in log lines are left out.
\<close>

section \<open>The relay server as a whole\<close>

text \<open>
  C1 (server invariant): in every state the event loop can reach, whatever the peers send, the
  kernel's sockets do and the lobby's worker thread does in between, every room is empty or has
  exactly two distinct members that point back to it, the directory maps every live client's
  name to it and only to it, the selector, the client set and the liveness flags agree, write
  interest is registered exactly for clients with queued bytes, no queue exceeds the backlog
  limit, no more than 64 clients (8 per address) are connected, a live client's receive buffer
  is shorter than a frame, the CRC tables hold at most 64 ticks, every byte stream is a
  sequence of whole frames, and the lobby payload counts the directory.
\<close>

theorem server_invariant: "server_reach s \<Longrightarrow> server_inv s"
  by (rule loop.invar_reach)

theorem server_invariant_witness: "server_inv (Server_init 6502 3 None 0 [] [])"
  by (rule server_invariant, rule server_reach_init) simp_all

end
